(* ===== verification/Usn_Prelude.thy ===== *)
theory Usn_Prelude
  imports Main "HOL-Library.Word"
begin

text \<open>
  Shared vocabulary of the development: the machine types of the C++ sources, the byte order
  of the host, byte-addressed memory, and the word, list and memory lemmas that the component
  theories use.

  The target is Linux on a little-endian LP64 machine: \<^verbatim>\<open>std::size_t\<close> and \<^verbatim>\<open>uint64_t\<close> are
  64 bits wide, \<^verbatim>\<open>unsigned\<close> and \<^verbatim>\<open>uint32_t\<close> 32 bits, and \<^verbatim>\<open>htons\<close>/\<^verbatim>\<open>htonl\<close> swap bytes.
\<close>

unbundle bit_operations_syntax

section \<open>Machine types\<close>

type_synonym u8 = "8 word"
type_synonym u16 = "16 word"
type_synonym u32 = "32 word"
type_synonym u64 = "64 word"
type_synonym size_type = "64 word"

text \<open>
  An address is a natural number and \<open>0\<close> is \<^verbatim>\<open>nullptr\<close>; memory gives a byte for every address.
  Which addresses a piece of code may touch is a property proved about it, not a restriction
  of the memory.
\<close>

type_synonym ptr = nat
type_synonym mem = "nat \<Rightarrow> u8"

abbreviation (input) nullptr :: ptr where
  "nullptr \<equiv> 0"

abbreviation (input) SIZE_MAX :: size_type where
  "SIZE_MAX \<equiv> - 1"

named_theorems unat_simps \<open>facts that move word arithmetic to natural numbers\<close>
named_theorems mem_simps \<open>reading back what was written to memory\<close>
named_theorems byte_simps \<open>encoding integers as bytes and back\<close>

section \<open>Words as natural numbers\<close>

lemma unat_bound: "unat (x :: 'a::len word) < 2 ^ LENGTH('a)"
  by (fact unsigned_less)

lemma unat_less_2p64 [simp]: "unat (x :: u64) < 18446744073709551616"
  using unat_bound [of x] by simp

lemma unat_less_2p32 [simp]: "unat (x :: u32) < 4294967296"
  using unat_bound [of x] by simp

lemma unat_less_2p16 [simp]: "unat (x :: u16) < 65536"
  using unat_bound [of x] by simp

lemma unat_less_2p8 [simp]: "unat (x :: u8) < 256"
  using unat_bound [of x] by simp

lemma unat_add_no_wrap [unat_simps]:
  fixes a b :: "'a::len word"
  assumes "unat a + unat b < 2 ^ LENGTH('a)"
  shows "unat (a + b) = unat a + unat b"
  using assms by (simp add: unat_word_ariths)

lemma unat_sub_le [unat_simps]:
  fixes a b :: "'a::len word"
  assumes "unat b \<le> unat a"
  shows "unat (a - b) = unat a - unat b"
  using assms by (simp add: unat_sub word_le_nat_alt)

lemma unat_Suc_no_wrap [unat_simps]:
  fixes a :: "'a::len word"
  assumes "Suc (unat a) < 2 ^ LENGTH('a)"
  shows "unat (a + 1) = Suc (unat a)"
  using assms by (simp add: unat_word_ariths)

lemma unat_Suc_less [unat_simps]:
  fixes a b :: "'a::len word"
  assumes "a < b"
  shows "unat (a + 1) = Suc (unat a)"
proof (rule unat_Suc_no_wrap)
  have "Suc (unat a) \<le> unat b" using assms by (simp add: word_less_nat_alt)
  also have "\<dots> < 2 ^ LENGTH('a)" by (rule unat_bound)
  finally show "Suc (unat a) < 2 ^ LENGTH('a)" .
qed

lemma unat_mult_no_wrap [unat_simps]:
  fixes a b :: "'a::len word"
  shows "unat a * unat b < 2 ^ LENGTH('a) \<Longrightarrow> unat (a * b) = unat a * unat b"
  by (simp add: unat_word_ariths)

lemma unat_power2 [unat_simps]: "k < LENGTH('a) \<Longrightarrow> unat (2 ^ k :: 'a::len word) = 2 ^ k"
  using unat_of_nat [of "2 ^ k", where 'a = 'a] by simp

lemma unat_of_nat_small [unat_simps]:
  "n < 2 ^ LENGTH('a) \<Longrightarrow> unat (of_nat n :: 'a::len word) = n"
  by (simp add: unat_of_nat)

lemma unat_and_mask_pow2 [unat_simps]:
  fixes x m :: "'a::len word"
  assumes "unat m = 2 ^ k - 1"
  shows "unat (x AND m) = unat x mod 2 ^ k"
proof -
  have "unat (x AND m) = unat x AND mask k"
    by (simp add: unsigned_and_eq assms mask_eq_exp_minus_1)
  then show ?thesis
    by (simp flip: take_bit_eq_mask add: take_bit_eq_mod)
qed

lemma unat_ucast_up [unat_simps]:
  fixes w :: "'a::len word"
  assumes "LENGTH('a) \<le> LENGTH('b)"
  shows "unat (ucast w :: 'b::len word) = unat w"
proof -
  have "unat w < 2 ^ LENGTH('a)" by (rule unat_bound)
  also have "\<dots> \<le> 2 ^ LENGTH('b)" using assms by simp
  finally show ?thesis by (simp add: unsigned_ucast_eq take_bit_nat_eq_self)
qed

lemma unat_ucast_fits [unat_simps]:
  fixes w :: "'a::len word"
  assumes "unat w < 2 ^ LENGTH('b)"
  shows "unat (ucast w :: 'b::len word) = unat w"
  using assms by (simp add: unsigned_ucast_eq take_bit_nat_eq_self)

lemma unat_NOT:
  fixes w :: "'a::len word"
  shows "unat (NOT w) = 2 ^ LENGTH('a) - 1 - unat w"
proof -
  have "NOT w = - 1 - w" by (simp add: not_eq_complement)
  moreover have "unat (- 1 :: 'a word) = 2 ^ LENGTH('a) - 1"
    by (simp add: unsigned_minus_1_eq_mask mask_eq_exp_minus_1)
  moreover have "unat w \<le> 2 ^ LENGTH('a) - 1" using unat_bound [of w] by linarith
  ultimately show ?thesis by (simp only: unat_sub_le)
qed

section \<open>Byte order\<close>

text \<open>
  The first \<open>n\<close> bytes of an integer in memory, least significant first, and the integer that
  given bytes stand for.
\<close>

primrec le_bytes :: "nat \<Rightarrow> 'a::len word \<Rightarrow> u8 list" where
  "le_bytes 0 w = []"
| "le_bytes (Suc n) w = ucast w # le_bytes n (drop_bit 8 w)"

primrec of_le :: "u8 list \<Rightarrow> 'a::len word" where
  "of_le [] = 0"
| "of_le (b # bs) = ucast b OR push_bit 8 (of_le bs)"

text \<open>
  \<^verbatim>\<open>htons\<close> and \<^verbatim>\<open>htonl\<close> of the C library on a little-endian host reverse the bytes of their
  argument; \<^verbatim>\<open>ntohs\<close> and \<^verbatim>\<open>ntohl\<close> are the same functions.
\<close>

definition htons :: "u16 \<Rightarrow> u16" where
  "htons w = of_le (rev (le_bytes 2 w))"

definition htonl :: "u32 \<Rightarrow> u32" where
  "htonl w = of_le (rev (le_bytes 4 w))"

abbreviation (input) ntohs :: "u16 \<Rightarrow> u16" where
  "ntohs \<equiv> htons"

abbreviation (input) ntohl :: "u32 \<Rightarrow> u32" where
  "ntohl \<equiv> htonl"

lemma length_le_bytes [simp, byte_simps]: "length (le_bytes n w) = n"
  by (induction n arbitrary: w) auto

lemma nth_le_bytes [byte_simps]: "i < n \<Longrightarrow> le_bytes n w ! i = ucast (drop_bit (8 * i) w)"
proof (induction n arbitrary: w i)
  case (Suc n)
  then show ?case by (cases i) (auto simp: ac_simps)
qed simp

lemma bit_of_le:
  "bit (of_le bs :: 'a::len word) i \<longleftrightarrow>
     i < LENGTH('a) \<and> i div 8 < length bs \<and> bit (bs ! (i div 8)) (i mod 8)"
proof (induction bs arbitrary: i)
  case (Cons b bs)
  show ?case
  proof (cases "i < 8")
    case True
    then show ?thesis by (auto simp: bit_simps)
  next
    case False
    then obtain j where j: "i = 8 + j" by (metis le_add_diff_inverse not_less)
    moreover have "(8 + j) div 8 = Suc (j div 8)" by simp
    ultimately show ?thesis using Cons.IH [of j]
      by (auto simp: bit_simps dest: bit_imp_le_length)
  qed
qed simp

lemma of_le_le_bytes [simp, byte_simps]:
  "LENGTH('a) \<le> 8 * n \<Longrightarrow> of_le (le_bytes n w) = (w :: 'a::len word)"
proof (rule bit_word_eqI)
  fix i assume "LENGTH('a) \<le> 8 * n" and i: "i < LENGTH('a)"
  then have "i div 8 < n" by auto
  with i show "bit (of_le (le_bytes n w) :: 'a word) i = bit w i"
    by (simp add: bit_of_le nth_le_bytes bit_simps)
qed

lemma le_bytes_of_le [simp, byte_simps]:
  assumes "length bs = n" and "8 * n \<le> LENGTH('a)"
  shows "le_bytes n (of_le bs :: 'a::len word) = bs"
proof (rule nth_equalityI)
  fix i assume "i < length (le_bytes n (of_le bs :: 'a word))"
  with assms show "le_bytes n (of_le bs :: 'a word) ! i = bs ! i"
    by (auto intro!: bit_word_eqI simp: nth_le_bytes bit_simps bit_of_le)
qed (simp add: assms)

lemma le_bytes_htons [simp, byte_simps]: "le_bytes 2 (htons w) = rev (le_bytes 2 w)"
  by (simp add: htons_def)

lemma le_bytes_htonl [simp, byte_simps]: "le_bytes 4 (htonl w) = rev (le_bytes 4 w)"
  by (simp add: htonl_def)

lemma htons_htons [simp, byte_simps]: "htons (htons w) = w"
  by (subst htons_def) simp

lemma htonl_htonl [simp, byte_simps]: "htonl (htonl w) = w"
  by (subst htonl_def) simp

lemma le_bytes_2 [byte_simps]: "le_bytes 2 w = [ucast w, ucast (drop_bit 8 w)]"
  by (simp add: numeral_2_eq_2)

lemma le_bytes_4 [byte_simps]:
  "le_bytes 4 w = [ucast w, ucast (drop_bit 8 w), ucast (drop_bit 16 w), ucast (drop_bit 24 w)]"
  by (simp add: numeral_eq_Suc)

text \<open>The single bytes of a swapped integer.\<close>

lemma byte_htons [byte_simps]:
  "(ucast (htons w) :: u8) = ucast (drop_bit 8 w)" "(ucast (drop_bit 8 (htons w)) :: u8) = ucast w"
  using le_bytes_htons [of w] by (simp_all add: le_bytes_2)

lemma byte_htonl [byte_simps]:
  "(ucast (htonl w) :: u8) = ucast (drop_bit 24 w)"
  "(ucast (drop_bit 8 (htonl w)) :: u8) = ucast (drop_bit 16 w)"
  "(ucast (drop_bit 16 (htonl w)) :: u8) = ucast (drop_bit 8 w)"
  "(ucast (drop_bit 24 (htonl w)) :: u8) = ucast w"
  using le_bytes_htonl [of w] by (simp_all add: le_bytes_4)

lemma of_le_2_bytes [byte_simps]: "of_le [ucast w, ucast (drop_bit 8 w)] = (w :: u16)"
  using of_le_le_bytes [of 2 w] by (simp add: le_bytes_2 del: of_le.simps of_le_le_bytes)

lemma of_le_4_bytes [byte_simps]:
  "of_le [ucast w, ucast (drop_bit 8 w), ucast (drop_bit 16 w), ucast (drop_bit 24 w)] = (w :: u32)"
  using of_le_le_bytes [of 4 w] by (simp add: le_bytes_4 del: of_le.simps of_le_le_bytes)

lemma htons_of_le [byte_simps]: "htons (of_le [a, b]) = of_le [b, a]"
  unfolding htons_def by (subst le_bytes_of_le) simp_all

lemma htonl_of_le [byte_simps]: "htonl (of_le [a, b, c, d]) = of_le [d, c, b, a]"
  unfolding htonl_def by (subst le_bytes_of_le) simp_all

lemma htons_0 [simp]: "htons 0 = 0"
  by (simp add: htons_def le_bytes_2)

lemma htons_shift: "htons w = push_bit 8 w OR drop_bit 8 w"
  by (rule bit_word_eqI) (auto simp: htons_def le_bytes_2 bit_simps dest: bit_imp_le_length)

section \<open>Memory\<close>

text \<open>
  \<^verbatim>\<open>memcpy\<close> out of memory and into it. \<open>mem_read m p n\<close> lists the \<open>n\<close> bytes at \<open>p\<close>;
  \<open>mem_write m p bs\<close> stores \<open>bs\<close> from \<open>p\<close> on and leaves every other address as it was.
\<close>

definition mem_read :: "mem \<Rightarrow> ptr \<Rightarrow> nat \<Rightarrow> u8 list" where
  "mem_read m p n = map (\<lambda>i. m (p + i)) [0..<n]"

definition mem_write :: "mem \<Rightarrow> ptr \<Rightarrow> u8 list \<Rightarrow> mem" where
  "mem_write m p bs = (\<lambda>a. if p \<le> a \<and> a < p + length bs then bs ! (a - p) else m a)"

lemma length_mem_read [simp]: "length (mem_read m p n) = n"
  by (simp add: mem_read_def)

lemma nth_mem_read [simp]: "i < n \<Longrightarrow> mem_read m p n ! i = m (p + i)"
  by (simp add: mem_read_def)

lemma mem_write_Nil [simp, mem_simps]: "mem_write m p [] = m"
  by (rule ext) (auto simp: mem_write_def)

lemma mem_write_outside [mem_simps]:
  "a < p \<or> p + length bs \<le> a \<Longrightarrow> mem_write m p bs a = m a"
  by (auto simp: mem_write_def)

lemma mem_write_inside [mem_simps]: "i < length bs \<Longrightarrow> mem_write m p bs (p + i) = bs ! i"
  by (simp add: mem_write_def)

lemma mem_read_write_same [simp, mem_simps]:
  "length bs = n \<Longrightarrow> mem_read (mem_write m p bs) p n = bs"
  by (auto intro: nth_equalityI simp: mem_write_def)

lemma mem_read_write_disjoint [mem_simps]:
  "q + n \<le> p \<or> p + length bs \<le> q \<Longrightarrow> mem_read (mem_write m p bs) q n = mem_read m q n"
  by (auto intro!: nth_equalityI simp: mem_write_def)

lemma mem_read_append: "mem_read m p (a + b) = mem_read m p a @ mem_read m (p + a) b"
  by (auto intro!: nth_equalityI simp: nth_append)

lemma mem_write_append:
  "mem_write m p (bs @ cs) = mem_write (mem_write m p bs) (p + length bs) cs"
  by (rule ext) (auto simp: mem_write_def nth_append)

lemma mem_read_write_2 [mem_simps]:
  "k + 1 < n \<Longrightarrow> mem_read (mem_write m (p + k) [a, b]) p n = (mem_read m p n)[k := a, k + 1 := b]"
  by (rule nth_equalityI) (auto simp: mem_write_def nth_list_update)

lemma take_mem_read [simp]: "take k (mem_read m p n) = mem_read m p (min k n)"
  by (auto intro!: nth_equalityI)

lemma drop_mem_read [simp]: "drop k (mem_read m p n) = mem_read m (p + k) (n - k)"
  by (auto intro!: nth_equalityI simp: add.assoc)

section \<open>Windows of a circular buffer\<close>

lemma mod_window_inj:
  fixes p q c :: nat
  assumes "p mod c = q mod c" and "p \<le> q" and "q < p + c"
  shows "p = q"
proof -
  from assms(1,2) have "c dvd q - p" by (metis mod_eq_dvd_iff_nat)
  moreover from assms(2,3) have "q - p < c" by linarith
  ultimately show ?thesis using assms(2) by (auto dest: nat_dvd_not_less)
qed

lemma mod_window_distinct:
  fixes p q lo c :: nat
  assumes "p \<noteq> q" and "lo \<le> p" "p < lo + c" and "lo \<le> q" "q < lo + c"
  shows "p mod c \<noteq> q mod c"
  using mod_window_inj [of p c q] mod_window_inj [of q c p] assms by (cases "p \<le> q") auto

lemma mod_add_absorb_iff: "(a + w) mod q = a mod q \<longleftrightarrow> w mod q = 0" for a w q :: nat
  using mod_eq_dvd_iff_nat [of a "a + w" q] by (simp add: dvd_eq_mod_eq_0)

lemma mod_add_left_cancel: "(a + x) mod q = (a + y) mod q \<Longrightarrow> x mod q = y mod q" for a x y q :: nat
proof (induction x y rule: linorder_wlog)
  case (le x y)
  then show ?case using mod_eq_dvd_iff_nat [of "a + x" "a + y" q] mod_eq_dvd_iff_nat [of x y q] by simp
next
  case (sym x y)
  then show ?case by simp
qed

lemma map_cong_upt: "(\<And>i. a \<le> i \<Longrightarrow> i < b \<Longrightarrow> f i = g i) \<Longrightarrow> map f [a..<b] = map g [a..<b]"
  by (rule map_cong) auto

end
