(* ===== verification/Packet_Core.thy ===== *)
theory Packet_Core
  imports Usn_Prelude
begin

text \<open>
  The packet descriptor of \<^verbatim>\<open>core/packet.hpp\<close>: a pointer to the bytes, their number and some
  metadata. The bytes themselves live in memory (\<open>mem\<close>), so a descriptor can be copied
  without copying data, as in the source.
\<close>

record Packet =
  pkt_data :: ptr
  pkt_len :: size_type
  pkt_timestamp :: u64
  pkt_port :: u16
  pkt_flags :: u32

definition Packet_default :: Packet where
  "Packet_default = \<lparr>pkt_data = nullptr, pkt_len = 0, pkt_timestamp = 0, pkt_port = 0, pkt_flags = 0\<rparr>"

definition mk_Packet :: "ptr \<Rightarrow> size_type \<Rightarrow> u64 \<Rightarrow> Packet" where
  "mk_Packet d l ts = \<lparr>pkt_data = d, pkt_len = l, pkt_timestamp = ts, pkt_port = 0, pkt_flags = 0\<rparr>"

definition Packet_reset :: "Packet \<Rightarrow> Packet" where
  "Packet_reset p =
     p\<lparr>pkt_data := nullptr, pkt_len := 0, pkt_timestamp := 0, pkt_port := 0, pkt_flags := 0\<rparr>"

definition Packet_valid :: "Packet \<Rightarrow> bool" where
  "Packet_valid p \<longleftrightarrow> pkt_data p \<noteq> nullptr \<and> pkt_len p > 0"

text \<open>The bytes a packet descriptor describes.\<close>

definition pkt_bytes :: "mem \<Rightarrow> Packet \<Rightarrow> u8 list" where
  "pkt_bytes m p = mem_read m (pkt_data p) (unat (pkt_len p))"

lemma Packet_reset_default [simp]: "Packet_reset p = Packet_default"
  by (simp add: Packet_reset_def Packet_default_def)

lemma mk_Packet_sel [simp]:
  "pkt_data (mk_Packet d l ts) = d" "pkt_len (mk_Packet d l ts) = l"
  "pkt_timestamp (mk_Packet d l ts) = ts"
  by (simp_all add: mk_Packet_def)

lemma length_pkt_bytes [simp]: "length (pkt_bytes m p) = unat (pkt_len p)"
  by (simp add: pkt_bytes_def)

end
