(* ===== verification/Ring_Index.thy ===== *)
theory Ring_Index
  imports Usn_Prelude
begin

text \<open>
  The capacity arithmetic that \<^verbatim>\<open>MpscQueue\<close> and \<^verbatim>\<open>PacketRing\<close> share: the private function
  \<^verbatim>\<open>round_up_power_of_two\<close> (the same text in both classes) and the slot index
  \<open>pos AND mask\<close>. The main fact is that the shift-and-or cascade computes the least power of
  two that is at least its argument, as long as that power fits in 64 bits.
\<close>

definition round_up_power_of_two :: "size_type \<Rightarrow> size_type" where
  "round_up_power_of_two n =
     (if n = 0 then 1
      else
        let n = n - 1;
            n = n OR drop_bit 1 n;
            n = n OR drop_bit 2 n;
            n = n OR drop_bit 4 n;
            n = n OR drop_bit 8 n;
            n = n OR drop_bit 16 n;
            n = n OR drop_bit 32 n
        in n + 1)"

section \<open>The cascade smears the highest bit downwards\<close>

text \<open>\<open>smeared n d x\<close>: bit \<open>i\<close> of \<open>x\<close> tells whether \<open>n\<close> has a bit in the \<open>d\<close> places from \<open>i\<close>.\<close>

definition smeared :: "u64 \<Rightarrow> nat \<Rightarrow> u64 \<Rightarrow> bool" where
  "smeared n d x \<longleftrightarrow> (\<forall>i. bit x i \<longleftrightarrow> (\<exists>j<d. bit n (i + j)))"

lemma smeared_1: "smeared n 1 n"
  by (auto simp: smeared_def)

lemma smeared_double:
  assumes "smeared n d x"
  shows "smeared n (2 * d) (x OR drop_bit d x)"
  unfolding smeared_def
proof
  fix i
  have "(\<exists>j<2 * d. bit n (i + j)) \<longleftrightarrow> (\<exists>j<d. bit n (i + j)) \<or> (\<exists>j<d. bit n (d + i + j))"
    (is "?L \<longleftrightarrow> ?R")
  proof
    assume ?L
    then obtain j where j: "j < 2 * d" "bit n (i + j)" by blast
    show ?R
    proof (cases "j < d")
      case False
      with j have "j - d < d" "bit n (d + i + (j - d))" by auto
      then show ?thesis by blast
    qed (use j in blast)
  next
    assume ?R
    then obtain j where j: "j < d" "bit n (i + j) \<or> bit n (i + (d + j))"
      by (auto simp: ac_simps)
    then have "j < 2 * d" "d + j < 2 * d" by auto
    with j show ?L by blast
  qed
  with assms show "bit (x OR drop_bit d x) i \<longleftrightarrow> (\<exists>j<2 * d. bit n (i + j))"
    by (simp add: smeared_def bit_simps ac_simps)
qed

lemma smeared_all_mask:
  assumes "smeared n 64 x" and "bit n h" and "\<And>j. bit n j \<Longrightarrow> j \<le> h"
  shows "x = mask (Suc h)"
proof (rule bit_word_eqI)
  fix i assume i: "i < LENGTH(64)"
  have h: "h < 64" using assms(2) by (auto dest: bit_imp_le_length)
  have "bit x i \<longleftrightarrow> i \<le> h"
  proof
    assume "bit x i"
    then obtain j where "bit n (i + j)" using assms(1) by (auto simp: smeared_def)
    with assms(3) have "i + j \<le> h" by blast
    then show "i \<le> h" by simp
  next
    assume "i \<le> h"
    with h assms(2) have "h - i < 64" "bit n (i + (h - i))" by auto
    then show "bit x i" using assms(1) unfolding smeared_def by blast
  qed
  then show "bit x i = bit (mask (Suc h) :: u64) i"
    using i by (auto simp: bit_mask_iff less_Suc_eq_le)
qed

lemma word_highest_bit:
  fixes n :: u64
  assumes "n \<noteq> 0"
  obtains h where "bit n h" "\<And>j. bit n j \<Longrightarrow> j \<le> h" "h < 64"
    "2 ^ h \<le> unat n" "unat n < 2 ^ Suc h"
proof -
  from assms obtain i where i: "bit n i" by (metis bit_eqI bit_0_eq bot_apply bot_bool_def)
  define h where "h = Max {j. bit n j}"
  have fin: "finite {j. bit n j}"
    by (rule finite_subset [of _ "{..<64}"]) (auto dest: bit_imp_le_length)
  have h: "bit n h" and top: "\<And>j. bit n j \<Longrightarrow> j \<le> h"
    using Max_in [OF fin] Max_ge [OF fin] i by (auto simp: h_def)
  from h have h64: "h < 64" by (auto dest: bit_imp_le_length)
  have low: "2 ^ h \<le> unat n"
  proof (rule ccontr)
    assume "\<not> 2 ^ h \<le> unat n"
    then have "\<not> bit (unat n) h" by (simp add: bit_iff_odd)
    with h show False by (simp add: bit_unsigned_iff)
  qed
  have "take_bit (Suc h) n = n"
    by (rule bit_word_eqI) (auto simp: bit_simps less_Suc_eq_le dest: top)
  then have "unat n = take_bit (Suc h) (unat n)"
    by (metis unsigned_take_bit_eq)
  then have "unat n < 2 ^ Suc h"
    by (metis take_bit_nat_less_exp)
  with h top h64 low show thesis by (rule that)
qed

lemma round_up_cascade:
  assumes "n \<noteq> 0"
  obtains x where "smeared (n - 1) 64 x" and "round_up_power_of_two n = x + 1"
proof -
  define x0 where "x0 = n - 1"
  define x1 where "x1 = x0 OR drop_bit 1 x0"
  define x2 where "x2 = x1 OR drop_bit 2 x1"
  define x3 where "x3 = x2 OR drop_bit 4 x2"
  define x4 where "x4 = x3 OR drop_bit 8 x3"
  define x5 where "x5 = x4 OR drop_bit 16 x4"
  define x6 where "x6 = x5 OR drop_bit 32 x5"
  have "smeared x0 2 x1"
    using smeared_double [OF smeared_1 [of x0]] by (simp add: x1_def)
  then have "smeared x0 4 x2" using smeared_double [of x0 2 x1] by (simp add: x2_def)
  then have "smeared x0 8 x3" using smeared_double [of x0 4 x2] by (simp add: x3_def)
  then have "smeared x0 16 x4" using smeared_double [of x0 8 x3] by (simp add: x4_def)
  then have "smeared x0 32 x5" using smeared_double [of x0 16 x4] by (simp add: x5_def)
  then have "smeared x0 64 x6" using smeared_double [of x0 32 x5] by (simp add: x6_def)
  moreover have "round_up_power_of_two n = x6 + 1"
    using assms by (simp add: round_up_power_of_two_def Let_def
        x0_def x1_def x2_def x3_def x4_def x5_def x6_def)
  ultimately show thesis using that by (simp add: x0_def)
qed

lemma round_up_power_of_two_spec:
  assumes "n \<noteq> 0" and "unat n \<le> 2 ^ 63"
  obtains k where "k < 64" "unat (round_up_power_of_two n) = 2 ^ k"
    "unat n \<le> 2 ^ k" "2 ^ k < 2 * unat n"
proof -
  from round_up_cascade [OF assms(1)] obtain x where
    x: "smeared (n - 1) 64 x" and r: "round_up_power_of_two n = x + 1" .
  have pred: "unat (n - 1) = unat n - 1" "unat n > 0"
    using assms(1) by (auto simp: unat_minus_one unat_gt_0)
  show thesis
  proof (cases "n = 1")
    case True
    with x have "x = 0" by (intro bit_word_eqI) (simp add: smeared_def)
    with r True show thesis by (intro that [of 0]) auto
  next
    case False
    then have "n - 1 \<noteq> 0" by simp
    then obtain h where h: "bit (n - 1) h" "\<And>j. bit (n - 1) j \<Longrightarrow> j \<le> h" "h < 64"
      "2 ^ h \<le> unat (n - 1)" "unat (n - 1) < 2 ^ Suc h"
      by (rule word_highest_bit) blast
    have less: "(2::nat) ^ h < 2 ^ 63" using h(4) pred assms(2) by linarith
    have "h < 63" by (rule power_less_imp_less_exp [OF _ less]) simp
    then have h63: "Suc h < 64" by simp
    from smeared_all_mask [OF x h(1,2)] r have "round_up_power_of_two n = 2 ^ Suc h"
      by (simp add: mask_eq_exp_minus_1)
    then have "unat (round_up_power_of_two n) = 2 ^ Suc h"
      using h63 unat_power2 [of "Suc h", where 'a = 64] by simp
    moreover have "unat n \<le> 2 ^ Suc h" "2 ^ Suc h < 2 * unat n"
      using h(4,5) pred by auto
    ultimately show thesis using h63 by (intro that)
  qed
qed

lemma round_up_is_power:
  assumes "unat c \<le> 2 ^ 63"
  obtains k where "k < 64" "unat (round_up_power_of_two c) = 2 ^ k"
proof (cases "c = 0")
  case True
  then show thesis by (intro that [of 0]) (simp_all add: round_up_power_of_two_def)
next
  case False
  then show thesis using assms that by (rule round_up_power_of_two_spec) blast
qed

end
