(* ===== verification/Bounded_Fifo.thy ===== *)
theory Bounded_Fifo
  imports Main
begin

text \<open>
  The contract of a bounded first-in first-out queue with non-blocking operations, as the
  applications use \<^verbatim>\<open>PacketRing\<close> and \<^verbatim>\<open>MpscQueue\<close>: \<open>push\<close> reports whether there was room,
  \<open>pop\<close> returns the oldest element if there is one.

  The positions of the implementations are counters that must not wrap, so the invariant
  carries a budget: \<open>inv n q\<close> says that \<open>q\<close> is well formed and \<open>n\<close> more operations may follow.
\<close>

datatype 'a fifo_op = Push 'a | Pop

datatype 'a fifo_res = Pushed bool | Popped "'a option"

text \<open>Running a sequence of operations against an implementation, and against a list.\<close>

fun fifo_run :: "('a \<Rightarrow> 'q \<Rightarrow> bool \<times> 'q) \<Rightarrow> ('q \<Rightarrow> 'a option \<times> 'q) \<Rightarrow>
    'q \<Rightarrow> 'a fifo_op list \<Rightarrow> 'a fifo_res list \<times> 'q" where
  "fifo_run push pop q [] = ([], q)"
| "fifo_run push pop q (Push x # ops) =
     (let (ok, q') = push x q; (rs, q'') = fifo_run push pop q' ops in (Pushed ok # rs, q''))"
| "fifo_run push pop q (Pop # ops) =
     (let (r, q') = pop q; (rs, q'') = fifo_run push pop q' ops in (Popped r # rs, q''))"

definition spec_push :: "nat \<Rightarrow> 'a \<Rightarrow> 'a list \<Rightarrow> bool \<times> 'a list" where
  "spec_push c x xs = (if length xs < c then (True, xs @ [x]) else (False, xs))"

definition spec_pop :: "'a list \<Rightarrow> 'a option \<times> 'a list" where
  "spec_pop xs = (case xs of [] \<Rightarrow> (None, []) | x # xs' \<Rightarrow> (Some x, xs'))"

locale bounded_fifo =
  fixes contents :: "'q \<Rightarrow> 'a list"
    and cap :: "'q \<Rightarrow> nat"
    and inv :: "nat \<Rightarrow> 'q \<Rightarrow> bool"
    and push :: "'a \<Rightarrow> 'q \<Rightarrow> bool \<times> 'q"
    and pop :: "'q \<Rightarrow> 'a option \<times> 'q"
  assumes cap_bound: "inv n q \<Longrightarrow> length (contents q) \<le> cap q"
    and push_inv: "inv (Suc n) q \<Longrightarrow> push x q = (ok, q') \<Longrightarrow> inv n q' \<and> cap q' = cap q"
    and push_contents: "inv (Suc n) q \<Longrightarrow> push x q = (ok, q') \<Longrightarrow>
      (ok, contents q') = spec_push (cap q) x (contents q)"
    and pop_inv: "inv (Suc n) q \<Longrightarrow> pop q = (r, q') \<Longrightarrow> inv n q' \<and> cap q' = cap q"
    and pop_contents: "inv (Suc n) q \<Longrightarrow> pop q = (r, q') \<Longrightarrow>
      (r, contents q') = spec_pop (contents q)"
begin

text \<open>Every run of the implementation returns what the list returns, and ends in its state.\<close>

lemma run_refines:
  assumes "inv (length ops + n) q" and "fifo_run push pop q ops = (rs, q')"
  shows "fifo_run (spec_push (cap q)) spec_pop (contents q) ops = (rs, contents q')
    \<and> inv n q' \<and> cap q' = cap q"
  using assms
proof (induction ops arbitrary: q rs)
  case (Cons op ops)
  show ?case
  proof (cases op)
    case (Push x)
    obtain ok q1 where p: "push x q = (ok, q1)" by (cases "push x q")
    obtain rs' where r: "fifo_run push pop q1 ops = (rs', q')" and rs: "rs = Pushed ok # rs'"
      using Cons.prems(2) Push p by (auto split: prod.splits)
    have q: "inv (Suc (length ops + n)) q" using Cons.prems(1) by simp
    from push_inv [OF q p] push_contents [OF q p] Cons.IH [of q1 rs'] r rs Push
    show ?thesis by (auto simp: Let_def split: prod.splits)
  next
    case Pop
    obtain x q1 where p: "pop q = (x, q1)" by (cases "pop q")
    obtain rs' where r: "fifo_run push pop q1 ops = (rs', q')" and rs: "rs = Popped x # rs'"
      using Cons.prems(2) Pop p by (auto split: prod.splits)
    have q: "inv (Suc (length ops + n)) q" using Cons.prems(1) by simp
    from pop_inv [OF q p] pop_contents [OF q p] Cons.IH [of q1 rs'] r rs Pop
    show ?thesis by (auto simp: Let_def split: prod.splits)
  qed
qed simp

text \<open>An element comes out only after everything that was in the queue before it.\<close>

lemma push_then_pops:
  assumes "inv (length (contents q) + 2) q" and "length (contents q) < cap q"
  shows "fst (fifo_run push pop q (Push x # replicate (Suc (length (contents q))) Pop))
    = Pushed True # map (\<lambda>y. Popped (Some y)) (contents q @ [x])"
    (is "fst (fifo_run push pop q ?ops) = _")
proof -
  have drain: "fst (fifo_run (spec_push c) spec_pop ys (replicate (length ys) Pop))
      = map (\<lambda>y. Popped (Some y)) ys" for c and ys :: "'a list"
    by (induction ys) (auto simp: spec_pop_def split: prod.splits)
  obtain rs q' where r: "fifo_run push pop q ?ops = (rs, q')"
    by (cases "fifo_run push pop q ?ops")
  have "inv (length ?ops + 0) q" using assms(1) by (simp add: numeral_2_eq_2)
  from run_refines [OF this r]
  have "rs = fst (fifo_run (spec_push (cap q)) spec_pop (contents q) ?ops)" by simp
  also have "\<dots> = Pushed True # map (\<lambda>y. Popped (Some y)) (contents q @ [x])"
    using drain [of "cap q" "contents q @ [x]"] assms(2)
    by (auto simp: spec_push_def simp del: fifo_run.simps(3) replicate.simps split: prod.splits)
  finally show ?thesis using r by simp
qed

end

end
