(* ===== verification/Packet_Ring.thy ===== *)
theory Packet_Ring
  imports Packet_Core Ring_Index Bounded_Fifo
begin

text \<open>
  The single-producer single-consumer ring buffer of \<^verbatim>\<open>core/packet_ring.hpp\<close>: its state, every
  operation, the invariant they keep, and the proof that the ring is a bounded FIFO queue.
  The positions are 64-bit counters that only grow; the slot of position \<open>p\<close> is \<open>p AND mask\<close>.
\<close>

section \<open>State and operations\<close>

record packet_ring =
  ring_capacity :: size_type
  ring_mask :: size_type
  write_pos :: size_type
  read_pos :: size_type
  packets :: "Packet list"

definition PacketRing :: "size_type \<Rightarrow> packet_ring" where
  "PacketRing c =
     (let cap = round_up_power_of_two c in
      \<lparr>ring_capacity = cap, ring_mask = cap - 1, write_pos = 0, read_pos = 0,
       packets = map Packet_reset (replicate (unat cap) Packet_default)\<rparr>)"

definition ring_try_push :: "Packet \<Rightarrow> packet_ring \<Rightarrow> bool \<times> packet_ring" where
  "ring_try_push packet r =
     (let write = write_pos r; read = read_pos r in
      if write - read \<ge> ring_capacity r then (False, r)
      else (True, r\<lparr>packets := (packets r)[unat (write AND ring_mask r) := packet],
                    write_pos := write + 1\<rparr>))"

definition ring_try_push_batch :: "Packet list \<Rightarrow> packet_ring \<Rightarrow> size_type \<times> packet_ring" where
  "ring_try_push_batch batch r =
     (let write = write_pos r; read = read_pos r;
          available = ring_capacity r - (write - read);
          to_push = min (of_nat (length batch)) available in
      if to_push = 0 then (0, r)
      else (to_push,
        r\<lparr>packets := fold (\<lambda>i ps. ps[unat ((write + of_nat i) AND ring_mask r) := batch ! i])
                      [0..<unat to_push] (packets r),
          write_pos := write + to_push\<rparr>))"

definition ring_try_pop :: "packet_ring \<Rightarrow> Packet option \<times> packet_ring" where
  "ring_try_pop r =
     (let read = read_pos r; write = write_pos r in
      if read \<ge> write then (None, r)
      else
        let i = unat (read AND ring_mask r); packet = packets r ! i in
        (Some packet, r\<lparr>packets := (packets r)[i := Packet_reset packet], read_pos := read + 1\<rparr>))"

text \<open>
  The batch pop copies slot after slot into the caller's span and resets each slot behind it.
\<close>

definition ring_try_pop_batch ::
    "Packet list \<Rightarrow> packet_ring \<Rightarrow> size_type \<times> Packet list \<times> packet_ring" where
  "ring_try_pop_batch out r =
     (let read = read_pos r; write = write_pos r;
          available = write - read;
          to_pop = min (of_nat (length out)) available in
      if to_pop = 0 then (0, out, r)
      else
        let (out', ps') =
              fold (\<lambda>i (out, ps).
                      let j = unat ((read + of_nat i) AND ring_mask r)
                      in (out[i := ps ! j], ps[j := Packet_reset (ps ! j)]))
                [0..<unat to_pop] (out, packets r)
        in (to_pop, out', r\<lparr>packets := ps', read_pos := read + to_pop\<rparr>))"

definition ring_empty :: "packet_ring \<Rightarrow> bool" where
  "ring_empty r \<longleftrightarrow> read_pos r \<ge> write_pos r"

definition ring_size :: "packet_ring \<Rightarrow> size_type" where
  "ring_size r = (if write_pos r \<ge> read_pos r then write_pos r - read_pos r else 0)"

definition ring_available :: "packet_ring \<Rightarrow> size_type" where
  "ring_available r = ring_capacity r - ring_size r"

section \<open>Invariant and abstraction\<close>

text \<open>
  \<open>ring_inv n r\<close>: the capacity is a power of two with the matching mask and slot vector, the
  consumer is behind the producer by at most the capacity, the free slots are reset, and the
  producer can advance \<open>n\<close> more times without wrapping its 64-bit counter.
\<close>

definition ring_slot :: "packet_ring \<Rightarrow> nat \<Rightarrow> nat" where
  "ring_slot r p = p mod unat (ring_capacity r)"

definition ring_inv :: "nat \<Rightarrow> packet_ring \<Rightarrow> bool" where
  "ring_inv n r \<longleftrightarrow>
     (\<exists>k<64. unat (ring_capacity r) = 2 ^ k) \<and>
     ring_mask r = ring_capacity r - 1 \<and>
     length (packets r) = unat (ring_capacity r) \<and>
     unat (read_pos r) \<le> unat (write_pos r) \<and>
     unat (write_pos r) \<le> unat (read_pos r) + unat (ring_capacity r) \<and>
     (\<forall>p. unat (write_pos r) \<le> p \<and> p < unat (read_pos r) + unat (ring_capacity r) \<longrightarrow>
        packets r ! ring_slot r p = Packet_default) \<and>
     unat (write_pos r) + n < 2 ^ 64"

definition ring_contents :: "packet_ring \<Rightarrow> Packet list" where
  "ring_contents r =
     map (\<lambda>p. packets r ! ring_slot r p) [unat (read_pos r)..<unat (write_pos r)]"

section \<open>Single-packet operations\<close>

lemma ring_inv_capacity_pos: "ring_inv n r \<Longrightarrow> 0 < unat (ring_capacity r)"
  by (auto simp: ring_inv_def)

lemma ring_inv_mono: "ring_inv n r \<Longrightarrow> m \<le> n \<Longrightarrow> ring_inv m r"
  by (auto simp: ring_inv_def)

lemma ring_slot_less: "ring_inv n r \<Longrightarrow> ring_slot r p < length (packets r)"
  using ring_inv_capacity_pos [of n r] by (simp add: ring_slot_def) (simp add: ring_inv_def)

lemma ring_index:
  assumes "ring_inv n r"
  shows "unat (p AND ring_mask r) = ring_slot r (unat p)"
proof -
  from assms obtain k where k: "unat (ring_capacity r) = 2 ^ k" by (auto simp: ring_inv_def)
  have "ring_capacity r \<noteq> 0" using ring_inv_capacity_pos [OF assms] by auto
  then have "unat (ring_mask r) = 2 ^ k - 1"
    using assms k by (simp add: ring_inv_def unat_minus_one)
  from unat_and_mask_pow2 [OF this] show ?thesis by (simp add: ring_slot_def k)
qed

lemma ring_slot_distinct:
  assumes "p \<noteq> q" and "lo \<le> p" "p < lo + unat (ring_capacity r)"
    and "lo \<le> q" "q < lo + unat (ring_capacity r)"
  shows "ring_slot r p \<noteq> ring_slot r q"
  unfolding ring_slot_def using assms by (rule mod_window_distinct)

lemma ring_used:
  assumes "ring_inv n r"
  shows "unat (write_pos r - read_pos r) = unat (write_pos r) - unat (read_pos r)"
  using assms by (intro unat_sub_le) (simp add: ring_inv_def)

lemma length_ring_contents [simp]:
  "length (ring_contents r) = unat (write_pos r) - unat (read_pos r)"
  by (simp add: ring_contents_def)

lemma ring_full_iff:
  assumes "ring_inv n r"
  shows "write_pos r - read_pos r \<ge> ring_capacity r \<longleftrightarrow>
    length (ring_contents r) = unat (ring_capacity r)"
  using assms by (auto simp: word_le_nat_alt ring_used ring_inv_def)

lemma ring_push_room:
  fixes x :: Packet
  assumes inv: "ring_inv (Suc n) r" and room: "length (ring_contents r) < unat (ring_capacity r)"
  defines "r' \<equiv> r\<lparr>packets := (packets r)[ring_slot r (unat (write_pos r)) := x],
                  write_pos := write_pos r + 1\<rparr>"
  shows "ring_try_push x r = (True, r')"
    and "ring_contents r' = ring_contents r @ [x]"
    and "ring_inv n r'"
proof -
  let ?w = "unat (write_pos r)" and ?rd = "unat (read_pos r)" and ?c = "unat (ring_capacity r)"
  have w': "unat (write_pos r') = Suc ?w"
    using inv by (simp add: r'_def ring_inv_def unat_Suc_no_wrap)
  have slots: "ring_slot r' = ring_slot r" by (simp add: r'_def ring_slot_def fun_eq_iff)
  have keep: "packets r' ! ring_slot r p = packets r ! ring_slot r p"
    if "p \<noteq> ?w" "?rd \<le> p" "p < ?rd + ?c" for p
  proof -
    have "?rd \<le> ?w" "?w < ?rd + ?c" using inv room by (auto simp: ring_inv_def)
    with that have "ring_slot r p \<noteq> ring_slot r ?w" by (intro ring_slot_distinct)
    then show ?thesis by (simp add: r'_def)
  qed
  have new: "packets r' ! ring_slot r ?w = x"
    using ring_slot_less [OF inv] by (simp add: r'_def)
  have "\<not> write_pos r - read_pos r \<ge> ring_capacity r"
    using ring_full_iff [OF inv] room by simp
  then show "ring_try_push x r = (True, r')"
    by (simp add: ring_try_push_def Let_def ring_index [OF inv] r'_def)
  have rd': "read_pos r' = read_pos r" by (simp add: r'_def)
  have "map (\<lambda>p. packets r' ! ring_slot r p) [?rd..<?w] = map (\<lambda>p. packets r ! ring_slot r p) [?rd..<?w]"
    using room by (intro map_cong_upt keep) auto
  then show "ring_contents r' = ring_contents r @ [x]"
    using inv by (simp add: ring_contents_def w' slots rd' new ring_inv_def)
  have free: "packets r' ! ring_slot r p = Packet_default" if "Suc ?w \<le> p" "p < ?rd + ?c" for p
    using keep [of p] that inv by (auto simp: ring_inv_def)
  show "ring_inv n r'"
    using inv room free unfolding ring_inv_def w' slots rd' by (auto simp: r'_def)
qed

lemma ring_push_full:
  assumes "ring_inv n r" and "length (ring_contents r) = unat (ring_capacity r)"
  shows "ring_try_push x r = (False, r)"
  using assms ring_full_iff by (simp add: ring_try_push_def Let_def)

lemma ring_pop_empty:
  assumes "ring_inv n r" and "ring_contents r = []"
  shows "ring_try_pop r = (None, r)"
  using assms by (auto simp: ring_try_pop_def ring_contents_def word_le_nat_alt)

lemma ring_pop_nonempty:
  assumes inv: "ring_inv n r" and ne: "ring_contents r = x # xs"
  defines "r' \<equiv> r\<lparr>packets := (packets r)[ring_slot r (unat (read_pos r)) := Packet_default],
                  read_pos := read_pos r + 1\<rparr>"
  shows "ring_try_pop r = (Some x, r')"
    and "ring_contents r' = xs"
    and "ring_inv n r'"
proof -
  let ?w = "unat (write_pos r)" and ?rd = "unat (read_pos r)" and ?c = "unat (ring_capacity r)"
  have lt: "?rd < ?w" using ne by (cases "?rd < ?w") (auto simp: ring_contents_def)
  have rd': "unat (read_pos r') = Suc ?rd"
    using inv lt by (simp add: r'_def ring_inv_def unat_Suc_no_wrap)
  have slots: "ring_slot r' = ring_slot r" by (simp add: r'_def ring_slot_def fun_eq_iff)
  have wr': "write_pos r' = write_pos r" by (simp add: r'_def)
  have keep: "packets r' ! ring_slot r p = packets r ! ring_slot r p"
    if "?rd < p" "p < ?rd + ?c" for p
    using that ring_slot_distinct [of p ?rd ?rd r] by (simp add: r'_def)
  have x: "packets r ! ring_slot r ?rd = x"
    and xs: "map (\<lambda>p. packets r ! ring_slot r p) [Suc ?rd..<?w] = xs"
    using ne lt by (auto simp: ring_contents_def upt_conv_Cons)
  show "ring_try_pop r = (Some x, r')"
    using lt x by (simp add: ring_try_pop_def Let_def ring_index [OF inv] r'_def word_le_nat_alt)
  have "map (\<lambda>p. packets r' ! ring_slot r p) [Suc ?rd..<?w] = xs"
    unfolding xs [symmetric] using inv by (intro map_cong_upt keep) (auto simp: ring_inv_def)
  then show "ring_contents r' = xs" by (simp add: ring_contents_def rd' slots wr')
  have free: "packets r' ! ring_slot r p = Packet_default" if "?w \<le> p" "p < Suc ?rd + ?c" for p
  proof (cases "p = ?rd + ?c")
    case True
    then have "ring_slot r p = ring_slot r ?rd" by (simp add: ring_slot_def)
    then show ?thesis using ring_slot_less [OF inv] by (simp add: r'_def)
  next
    case False
    with keep [of p] that lt inv show ?thesis by (auto simp: ring_inv_def)
  qed
  show "ring_inv n r'"
    using inv lt free unfolding ring_inv_def rd' slots wr' by (auto simp: r'_def)
qed

lemma PacketRing_sel:
  "ring_capacity (PacketRing c) = round_up_power_of_two c"
  "write_pos (PacketRing c) = 0" "read_pos (PacketRing c) = 0"
  by (simp_all add: PacketRing_def Let_def)

lemma PacketRing_inv:
  assumes "unat c \<le> 2 ^ 63" and "n < 2 ^ 64"
  shows "ring_inv n (PacketRing c)" and "ring_contents (PacketRing c) = []"
proof -
  from assms(1) obtain k where k: "k < 64" "unat (round_up_power_of_two c) = 2 ^ k"
    by (rule round_up_is_power)
  then show "ring_inv n (PacketRing c)" "ring_contents (PacketRing c) = []"
    using assms(2)
    by (auto simp: ring_inv_def ring_contents_def PacketRing_def Let_def ring_slot_def)
qed

section \<open>The ring is a bounded FIFO queue\<close>

lemma ring_contents_le_capacity:
  "ring_inv n r \<Longrightarrow> length (ring_contents r) \<le> unat (ring_capacity r)"
  by (auto simp: ring_inv_def)

lemma ring_push_spec:
  assumes inv: "ring_inv (Suc n) r" and push: "ring_try_push x r = (ok, r')"
  shows "(ok, ring_contents r') = spec_push (unat (ring_capacity r)) x (ring_contents r)"
    and "ring_inv n r'" and "ring_capacity r' = ring_capacity r"
proof -
  consider "length (ring_contents r) < unat (ring_capacity r)"
    | "length (ring_contents r) = unat (ring_capacity r)"
    using ring_contents_le_capacity [OF inv] by linarith
  then have "(ok, ring_contents r') = spec_push (unat (ring_capacity r)) x (ring_contents r)
    \<and> ring_inv n r' \<and> ring_capacity r' = ring_capacity r"
  proof cases
    case 1
    from ring_push_room [OF inv 1, of x] push 1 show ?thesis by (auto simp: spec_push_def)
  next
    case 2
    from ring_push_full [OF inv 2, of x] push 2 ring_inv_mono [OF inv, of n] show ?thesis
      by (auto simp: spec_push_def)
  qed
  then show "(ok, ring_contents r') = spec_push (unat (ring_capacity r)) x (ring_contents r)"
    "ring_inv n r'" "ring_capacity r' = ring_capacity r" by auto
qed

lemma ring_pop_spec:
  assumes inv: "ring_inv n r" and pop: "ring_try_pop r = (x, r')"
  shows "(x, ring_contents r') = spec_pop (ring_contents r)"
    and "ring_inv n r'" and "ring_capacity r' = ring_capacity r"
proof -
  have "(x, ring_contents r') = spec_pop (ring_contents r)
    \<and> ring_inv n r' \<and> ring_capacity r' = ring_capacity r"
  proof (cases "ring_contents r")
    case Nil
    from ring_pop_empty [OF inv Nil] pop Nil inv show ?thesis by (auto simp: spec_pop_def)
  next
    case (Cons y ys)
    from ring_pop_nonempty [OF inv Cons] pop Cons show ?thesis by (auto simp: spec_pop_def)
  qed
  then show "(x, ring_contents r') = spec_pop (ring_contents r)"
    "ring_inv n r'" "ring_capacity r' = ring_capacity r" by auto
qed

interpretation pring: bounded_fifo ring_contents "\<lambda>r. unat (ring_capacity r)" ring_inv
    ring_try_push ring_try_pop
proof
  fix n q x ok q' r
  show "ring_inv n q \<Longrightarrow> length (ring_contents q) \<le> unat (ring_capacity q)"
    by (rule ring_contents_le_capacity)
  show "ring_inv (Suc n) q \<Longrightarrow> ring_try_push x q = (ok, q') \<Longrightarrow>
      ring_inv n q' \<and> unat (ring_capacity q') = unat (ring_capacity q)"
    using ring_push_spec by metis
  show "ring_inv (Suc n) q \<Longrightarrow> ring_try_push x q = (ok, q') \<Longrightarrow>
      (ok, ring_contents q') = spec_push (unat (ring_capacity q)) x (ring_contents q)"
    by (rule ring_push_spec)
  show "ring_inv (Suc n) q \<Longrightarrow> ring_try_pop q = (r, q') \<Longrightarrow>
      ring_inv n q' \<and> unat (ring_capacity q') = unat (ring_capacity q)"
    using ring_pop_spec ring_inv_mono by (metis le_SucI le_refl)
  show "ring_inv (Suc n) q \<Longrightarrow> ring_try_pop q = (r, q') \<Longrightarrow>
      (r, ring_contents q') = spec_pop (ring_contents q)"
    by (rule ring_pop_spec)
qed

section \<open>Queries\<close>

lemma ring_size_spec: "ring_inv n r \<Longrightarrow> unat (ring_size r) = length (ring_contents r)"
  by (auto simp: ring_size_def word_le_nat_alt ring_used ring_inv_def)

lemma ring_empty_spec: "ring_inv n r \<Longrightarrow> ring_empty r \<longleftrightarrow> ring_contents r = []"
  by (auto simp: ring_empty_def word_le_nat_alt ring_contents_def)

lemma ring_available_spec:
  assumes "ring_inv n r"
  shows "unat (ring_available r) = unat (ring_capacity r) - length (ring_contents r)"
  using ring_contents_le_capacity [OF assms] ring_size_spec [OF assms]
  by (simp add: ring_available_def unat_sub_le)

section \<open>Batch operations\<close>

text \<open>
  The loops of the batch operations, as functions of the number of packets they move. A batch
  push does what pushing the packets one after the other does, and likewise for pop.
\<close>

definition push_loop :: "Packet list \<Rightarrow> packet_ring \<Rightarrow> nat \<Rightarrow> packet_ring" where
  "push_loop batch r m =
     r\<lparr>packets := fold (\<lambda>i ps. ps[unat ((write_pos r + of_nat i) AND ring_mask r) := batch ! i])
                   [0..<m] (packets r),
       write_pos := write_pos r + of_nat m\<rparr>"

lemma push_loop_0: "push_loop batch r 0 = r"
  by (simp add: push_loop_def)

lemma push_loop_Suc:
  assumes "ring_inv (Suc n) (push_loop batch r m)"
    and "length (ring_contents (push_loop batch r m)) < unat (ring_capacity r)"
  shows "ring_try_push (batch ! m) (push_loop batch r m) = (True, push_loop batch r (Suc m))"
    and "ring_contents (push_loop batch r (Suc m)) = ring_contents (push_loop batch r m) @ [batch ! m]"
    and "ring_inv n (push_loop batch r (Suc m))"
proof -
  let ?r1 = "push_loop batch r m"
  have "ring_capacity ?r1 = ring_capacity r" "ring_mask ?r1 = ring_mask r"
    and w: "write_pos ?r1 = write_pos r + of_nat m" by (simp_all add: push_loop_def)
  with assms have room: "length (ring_contents ?r1) < unat (ring_capacity ?r1)"
    and idx: "ring_slot ?r1 (unat (write_pos ?r1)) = unat ((write_pos r + of_nat m) AND ring_mask r)"
    using ring_index [OF assms(1), of "write_pos ?r1"] by simp_all
  have "push_loop batch r (Suc m) =
      ?r1\<lparr>packets := (packets ?r1)[unat ((write_pos r + of_nat m) AND ring_mask r) := batch ! m],
          write_pos := write_pos ?r1 + 1\<rparr>"
    by (simp add: push_loop_def ac_simps)
  with ring_push_room [OF assms(1) room, of "batch ! m", unfolded idx]
  show "ring_try_push (batch ! m) ?r1 = (True, push_loop batch r (Suc m))"
    "ring_contents (push_loop batch r (Suc m)) = ring_contents ?r1 @ [batch ! m]"
    "ring_inv n (push_loop batch r (Suc m))" by simp_all
qed

lemma push_loop_spec:
  assumes "ring_inv (m + n) r" and "m \<le> length batch"
    and "length (ring_contents r) + m \<le> unat (ring_capacity r)"
  shows "ring_contents (push_loop batch r m) = ring_contents r @ take m batch
    \<and> ring_inv n (push_loop batch r m)
    \<and> fold (\<lambda>x r. snd (ring_try_push x r)) (take m batch) r = push_loop batch r m"
  using assms
proof (induction m arbitrary: n)
  case 0
  then show ?case by (simp add: push_loop_0)
next
  case (Suc m)
  then have "ring_inv (m + Suc n) r" "m \<le> length batch"
    "length (ring_contents r) + m \<le> unat (ring_capacity r)" by simp_all
  from Suc.IH [OF this] have IH: "ring_contents (push_loop batch r m) = ring_contents r @ take m batch"
    "ring_inv (Suc n) (push_loop batch r m)"
    "fold (\<lambda>x r. snd (ring_try_push x r)) (take m batch) r = push_loop batch r m" by simp_all
  have "length (ring_contents (push_loop batch r m)) < unat (ring_capacity r)"
    using Suc.prems(2,3) by (simp add: IH(1))
  from push_loop_Suc [OF IH(2) this] Suc.prems(2) show ?case
    by (simp add: take_Suc_conv_app_nth IH(1,3))
qed

definition pop_loop :: "Packet list \<Rightarrow> packet_ring \<Rightarrow> nat \<Rightarrow> Packet list \<times> packet_ring" where
  "pop_loop out r m =
     (let (out', ps') =
        fold (\<lambda>i (out, ps). let j = unat ((read_pos r + of_nat i) AND ring_mask r)
                            in (out[i := ps ! j], ps[j := Packet_reset (ps ! j)]))
          [0..<m] (out, packets r)
      in (out', r\<lparr>packets := ps', read_pos := read_pos r + of_nat m\<rparr>))"

lemma pop_loop_Suc:
  assumes "pop_loop out r m = (out', r')" and "ring_inv n r'" and "ring_contents r' = x # xs"
  shows "ring_try_pop r' = (Some x, snd (pop_loop out r (Suc m)))"
    and "pop_loop out r (Suc m) = (out'[m := x], snd (pop_loop out r (Suc m)))"
    and "ring_contents (snd (pop_loop out r (Suc m))) = xs"
    and "ring_inv n (snd (pop_loop out r (Suc m)))"
proof -
  obtain ps' where f: "fold (\<lambda>i (out, ps). let j = unat ((read_pos r + of_nat i) AND ring_mask r)
        in (out[i := ps ! j], ps[j := Packet_reset (ps ! j)])) [0..<m] (out, packets r) = (out', ps')"
    and r': "r' = r\<lparr>packets := ps', read_pos := read_pos r + of_nat m\<rparr>"
    using assms(1) unfolding pop_loop_def by (auto split: prod.splits)
  let ?j = "unat ((read_pos r + of_nat m) AND ring_mask r)"
  have idx: "ring_slot r' (unat (read_pos r')) = ?j"
    using ring_index [OF assms(2), of "read_pos r'"] by (simp add: r')
  have x: "ps' ! ?j = x"
    using assms(3) idx by (cases "unat (read_pos r') < unat (write_pos r')")
      (auto simp: ring_contents_def upt_conv_Cons r')
  have suc: "pop_loop out r (Suc m) = (out'[m := x],
      r'\<lparr>packets := (packets r')[ring_slot r' (unat (read_pos r')) := Packet_default],
         read_pos := read_pos r' + 1\<rparr>)"
    unfolding idx unfolding pop_loop_def using f x by (simp add: r' ac_simps Let_def)
  from ring_pop_nonempty [OF assms(2,3)] suc
  show "ring_try_pop r' = (Some x, snd (pop_loop out r (Suc m)))"
    "pop_loop out r (Suc m) = (out'[m := x], snd (pop_loop out r (Suc m)))"
    "ring_contents (snd (pop_loop out r (Suc m))) = xs"
    "ring_inv n (snd (pop_loop out r (Suc m)))" by simp_all
qed

lemma pop_loop_spec:
  assumes "ring_inv n r" and "m \<le> length out" and "m \<le> length (ring_contents r)"
  shows "\<exists>r'. pop_loop out r m = (take m (ring_contents r) @ drop m out, r')
    \<and> ring_contents r' = drop m (ring_contents r) \<and> ring_inv n r'"
  using assms
proof (induction m)
  case 0
  then show ?case by (simp add: pop_loop_def)
next
  case (Suc m)
  then obtain r' where IH: "pop_loop out r m = (take m (ring_contents r) @ drop m out, r')"
    "ring_contents r' = drop m (ring_contents r)" "ring_inv n r'" by auto
  have c: "ring_contents r' = ring_contents r ! m # drop (Suc m) (ring_contents r)"
    using Suc.prems(3) by (simp add: IH(2) Cons_nth_drop_Suc)
  have "(take m (ring_contents r) @ drop m out)[m := ring_contents r ! m]
      = take (Suc m) (ring_contents r) @ drop (Suc m) out"
    using Suc.prems(2,3) by (simp add: list_update_append take_Suc_conv_app_nth
        Cons_nth_drop_Suc [symmetric])
  with pop_loop_Suc [OF IH(1,3) c] show ?case by metis
qed

lemma ring_try_push_batch_eq:
  assumes inv: "ring_inv n r" and len: "length batch < 2 ^ 64"
  defines "k \<equiv> min (length batch) (unat (ring_capacity r) - length (ring_contents r))"
  shows "ring_try_push_batch batch r = (of_nat k, push_loop batch r k)"
proof -
  let ?to_push = "min (of_nat (length batch)) (ring_capacity r - (write_pos r - read_pos r))"
  have "unat (ring_capacity r - (write_pos r - read_pos r))
      = unat (ring_capacity r) - length (ring_contents r)"
    using ring_contents_le_capacity [OF inv] by (simp add: unat_sub_le ring_used [OF inv])
  then have k: "unat ?to_push = k"
    using len by (simp add: k_def min_def word_le_nat_alt unat_of_nat_small)
  then have "?to_push = of_nat k" by (simp flip: k)
  with k show ?thesis
    by (cases "k = 0") (auto simp: ring_try_push_batch_def Let_def push_loop_def)
qed

lemma ring_try_pop_batch_eq:
  assumes inv: "ring_inv n r" and len: "length out < 2 ^ 64"
  defines "k \<equiv> min (length out) (length (ring_contents r))"
  shows "ring_try_pop_batch out r = (of_nat k, pop_loop out r k)"
proof -
  let ?to_pop = "min (of_nat (length out)) (write_pos r - read_pos r)"
  have k: "unat ?to_pop = k"
    using len by (simp add: k_def min_def word_le_nat_alt unat_of_nat_small ring_used [OF inv])
  then have "?to_pop = of_nat k" by (simp flip: k)
  with k show ?thesis
    by (cases "k = 0") (auto simp: ring_try_pop_batch_def Let_def pop_loop_def split: prod.splits)
qed

section \<open>Properties\<close>

text \<open>
  \<^bold>\<open>C6\<close>. A ring built for \<open>c\<close> packets behaves, for every sequence of pushes and pops, as a FIFO
  list bounded by the rounded-up capacity: the same results in the same order, and what is left
  in the ring is what is left in the list. The sequence may be of any length below \<open>2 ^ 64\<close>, the
  range of the position counters.
\<close>

theorem ring_is_fifo:
  assumes "unat c \<le> 2 ^ 63" and "length ops < 2 ^ 64"
  shows "map_prod id ring_contents (fifo_run ring_try_push ring_try_pop (PacketRing c) ops)
    = fifo_run (spec_push (unat (round_up_power_of_two c))) spec_pop [] ops"
proof -
  obtain rs r where r: "fifo_run ring_try_push ring_try_pop (PacketRing c) ops = (rs, r)"
    by (cases "fifo_run ring_try_push ring_try_pop (PacketRing c) ops")
  have inv: "ring_inv (length ops + 0) (PacketRing c)" and nil: "ring_contents (PacketRing c) = []"
    using PacketRing_inv [OF assms(1), of "length ops"] assms(2) by simp_all
  from pring.run_refines [OF inv r] nil show ?thesis by (simp add: r PacketRing_sel)
qed

text \<open>A ring for two packets: the third push is refused, and the packets leave in order.\<close>

theorem ring_is_fifo_witness:
  "fst (fifo_run ring_try_push ring_try_pop (PacketRing 2)
      [Push (mk_Packet 10 1 0), Push (mk_Packet 20 1 0), Push (mk_Packet 30 1 0), Pop, Pop, Pop])
    = [Pushed True, Pushed True, Pushed False,
       Popped (Some (mk_Packet 10 1 0)), Popped (Some (mk_Packet 20 1 0)), Popped None]"
    (is "fst (fifo_run _ _ _ ?ops) = _")
proof -
  have "round_up_power_of_two 2 = 2" by code_simp
  with ring_is_fifo [of 2 ?ops] show ?thesis
    by (auto simp: spec_push_def spec_pop_def map_prod_def split: prod.splits)
qed

text \<open>
  The capacity of a ring built for \<open>c > 0\<close> packets is the least power of two that is at
  least \<open>c\<close>: a power of two, no smaller than \<open>c\<close> and smaller than \<open>2 * c\<close>.
\<close>

theorem ring_capacity_power_of_two:
  assumes "0 < c" and "unat c \<le> 2 ^ 63"
  shows "\<exists>k<64. unat (ring_capacity (PacketRing c)) = 2 ^ k \<and> unat c \<le> 2 ^ k \<and> 2 ^ k < 2 * unat c"
proof -
  from assms(1) have "c \<noteq> 0" by simp
  then show ?thesis using assms(2) unfolding PacketRing_sel
    by (rule round_up_power_of_two_spec) blast
qed

theorem ring_capacity_power_of_two_witness:
  "\<exists>k<64. unat (ring_capacity (PacketRing 9)) = 2 ^ k \<and> 9 \<le> (2::nat) ^ k \<and> (2::nat) ^ k < 2 * 9"
  using ring_capacity_power_of_two [of 9] by simp

text \<open>
  \<^bold>\<open>C17\<close>. A batch push moves as many packets as fit: with \<open>k\<close> the smaller of the batch size and
  the free space, it returns \<open>k\<close>, appends the first \<open>k\<close> packets in order, and leaves exactly the
  ring that \<open>k\<close> single pushes leave.
\<close>

theorem ring_push_batch_correct:
  assumes "ring_inv (length batch + n) r"
  defines "k \<equiv> min (length batch) (unat (ring_capacity r) - length (ring_contents r))"
  shows "fst (ring_try_push_batch batch r) = of_nat k
    \<and> fold (\<lambda>x r. snd (ring_try_push x r)) (take k batch) r = snd (ring_try_push_batch batch r)
    \<and> ring_contents (snd (ring_try_push_batch batch r)) = ring_contents r @ take k batch
    \<and> ring_inv n (snd (ring_try_push_batch batch r))"
proof -
  have len: "length batch < 2 ^ 64" and k: "k \<le> length batch"
    and room: "length (ring_contents r) + k \<le> unat (ring_capacity r)"
    and inv: "ring_inv (k + n) r"
    using assms(1) ring_contents_le_capacity [OF assms(1)] ring_inv_mono [OF assms(1), of "k + n"]
    by (auto simp: k_def ring_inv_def)
  show ?thesis
    using push_loop_spec [OF inv k room] ring_try_push_batch_eq [OF assms(1) len]
    by (simp add: k_def)
qed

theorem ring_push_batch_correct_witness:
  "ring_contents (snd (ring_try_push_batch
      [mk_Packet 10 1 0, mk_Packet 20 1 0, mk_Packet 30 1 0] (PacketRing 2)))
    = [mk_Packet 10 1 0, mk_Packet 20 1 0]"
proof -
  have "round_up_power_of_two 2 = 2" by code_simp
  with ring_push_batch_correct [of "[mk_Packet 10 1 0, mk_Packet 20 1 0, mk_Packet 30 1 0]" 0
      "PacketRing 2"] PacketRing_inv [of 2 3]
  show ?thesis by (simp add: PacketRing_sel numeral_3_eq_3)
qed

text \<open>
  A batch pop into a span of any size returns the number \<open>k\<close> of packets it moved, the
  smaller of the span and the ring's size; the span's first \<open>k\<close> entries are the oldest packets in
  order, its other entries are untouched, and the ring keeps the rest.
\<close>

theorem ring_pop_batch_correct:
  assumes "ring_inv n r" and "length out < 2 ^ 64"
  defines "k \<equiv> min (length out) (length (ring_contents r))"
  shows "\<exists>r'. ring_try_pop_batch out r = (of_nat k, take k (ring_contents r) @ drop k out, r')
    \<and> ring_contents r' = drop k (ring_contents r) \<and> ring_inv n r'"
  using pop_loop_spec [OF assms(1), of k out] ring_try_pop_batch_eq [OF assms(1,2)]
  by (auto simp: k_def)

theorem ring_pop_batch_correct_witness:
  "fst (ring_try_pop_batch [Packet_default] (snd (ring_try_push (mk_Packet 10 1 0) (PacketRing 2)))) = 1
   \<and> fst (snd (ring_try_pop_batch [Packet_default] (snd (ring_try_push (mk_Packet 10 1 0) (PacketRing 2)))))
     = [mk_Packet 10 1 0]"
proof -
  have cap: "round_up_power_of_two 2 = 2" by code_simp
  have fresh: "ring_inv 1 (PacketRing 2)" "ring_contents (PacketRing 2) = []"
    using PacketRing_inv [of 2 1] by simp_all
  let ?r = "snd (ring_try_push (mk_Packet 10 1 0) (PacketRing 2))"
  have "ring_contents ?r = [mk_Packet 10 1 0]" "ring_inv 0 ?r"
    using ring_push_room [of 0 "PacketRing 2" "mk_Packet 10 1 0"] fresh cap
    by (simp_all add: PacketRing_sel)
  with ring_pop_batch_correct [of 0 ?r "[Packet_default]"] show ?thesis by auto
qed

text \<open>Popping makes the ring shorter: the loops that drain it end.\<close>

lemma ring_try_pop_less:
  "ring_try_pop r = (Some pkt, r') \<Longrightarrow> unat (write_pos r') - unat (read_pos r') < unat (write_pos r) - unat (read_pos r)"
  by (auto simp: ring_try_pop_def Let_def word_le_nat_alt unat_Suc_less word_less_nat_alt not_le split: if_splits)

end
