(* ===== verification/Mpsc_Queue.thy ===== *)
theory Mpsc_Queue
  imports Ring_Index Bounded_Fifo
begin

text \<open>
  The multi-producer single-consumer queue of \<^verbatim>\<open>core/mpsc_queue.hpp\<close>, twice: the operations run
  to completion by one thread, and the same operations cut into their atomic actions (each load,
  compare-exchange and store of \<^verbatim>\<open>head_\<close>, \<^verbatim>\<open>tail_\<close> and a slot is one step) and interleaved by an
  arbitrary scheduler. Steps are sequentially consistent and the access to a slot is one step:
  the memory orders of the source and the data race on the non-atomic slots are outside the model.
\<close>

section \<open>State and sequential operations\<close>

record 'a mpsc_queue =
  mq_capacity :: size_type
  mq_mask :: size_type
  mq_head :: size_type
  mq_tail :: size_type
  mq_buffer :: "'a option list"

definition MpscQueue :: "size_type \<Rightarrow> 'a mpsc_queue" where
  "MpscQueue capacity =
     (let cap = round_up_power_of_two capacity in
      \<lparr>mq_capacity = cap, mq_mask = cap - 1, mq_head = 0, mq_tail = 0,
       mq_buffer = replicate (unat cap) None\<rparr>)"

definition mpsc_try_push :: "'a \<Rightarrow> 'a mpsc_queue \<Rightarrow> bool \<times> 'a mpsc_queue" where
  "mpsc_try_push v q =
     (let tail = mq_tail q; head = mq_head q in
      if tail - head \<ge> mq_capacity q then (False, q)
      else (True, q\<lparr>mq_tail := tail + 1,
                    mq_buffer := (mq_buffer q)[unat (tail AND mq_mask q) := Some v]\<rparr>))"

definition mpsc_try_pop :: "'a mpsc_queue \<Rightarrow> 'a option \<times> 'a mpsc_queue" where
  "mpsc_try_pop q =
     (let head = mq_head q; tail = mq_tail q in
      if head \<ge> tail then (None, q)
      else
        let index = unat (head AND mq_mask q) in
        case mq_buffer q ! index of
          None \<Rightarrow> (None, q)
        | Some v \<Rightarrow> (Some v, q\<lparr>mq_buffer := (mq_buffer q)[index := None], mq_head := head + 1\<rparr>))"

definition mpsc_empty :: "'a mpsc_queue \<Rightarrow> bool" where
  "mpsc_empty q \<longleftrightarrow> mq_head q \<ge> mq_tail q"

definition mpsc_size :: "'a mpsc_queue \<Rightarrow> size_type" where
  "mpsc_size q = (if mq_tail q \<ge> mq_head q then mq_tail q - mq_head q else 0)"

section \<open>Concurrent execution\<close>

text \<open>
  Where a producer stands inside \<^verbatim>\<open>try_push\<close>, with its local \<^verbatim>\<open>tail\<close> and the value it pushes: before
  the load of \<^verbatim>\<open>head_\<close>, before the compare-exchange, before the write of the claimed slot.
\<close>

datatype 'a prod_pc =
    PIdle
  | PLoadHead size_type 'a
  | PCas size_type 'a
  | PWrite size_type 'a

text \<open>
  Where the consumer stands inside \<^verbatim>\<open>try_pop\<close>, with its local \<^verbatim>\<open>head\<close>: before the load of
  \<^verbatim>\<open>tail_\<close>, before the look at the slot, before the slot is cleared, before the store of \<^verbatim>\<open>head_\<close>.
\<close>

datatype 'a cons_pc =
    CIdle
  | CLoadTail size_type
  | CSlot size_type
  | CClear size_type 'a
  | CStore size_type 'a

text \<open>
  The queue, the producers by number, the consumer, and two history variables: the values in the
  order in which their slots were claimed, and the values the consumer has returned.
\<close>

record 'a mpsc_state =
  mq :: "'a mpsc_queue"
  prods :: "nat \<Rightarrow> 'a prod_pc"
  cons :: "'a cons_pc"
  claims :: "'a list"
  popped :: "'a list"

definition mpsc_init :: "size_type \<Rightarrow> 'a mpsc_state" where
  "mpsc_init c = \<lparr>mq = MpscQueue c, prods = (\<lambda>_. PIdle), cons = CIdle, claims = [], popped = []\<rparr>"

definition slot_of :: "'a mpsc_queue \<Rightarrow> size_type \<Rightarrow> nat" where
  "slot_of q p = unat (p AND mq_mask q)"

inductive mpsc_step :: "'a mpsc_state \<Rightarrow> 'a mpsc_state \<Rightarrow> bool" where
  push_load_tail:
    "prods s i = PIdle \<Longrightarrow>
     mpsc_step s (s\<lparr>prods := (prods s)(i := PLoadHead (mq_tail (mq s)) v)\<rparr>)"
| push_full:
    "prods s i = PLoadHead t v \<Longrightarrow> t - mq_head (mq s) \<ge> mq_capacity (mq s) \<Longrightarrow>
     mpsc_step s (s\<lparr>prods := (prods s)(i := PIdle)\<rparr>)"
| push_has_room:
    "prods s i = PLoadHead t v \<Longrightarrow> \<not> t - mq_head (mq s) \<ge> mq_capacity (mq s) \<Longrightarrow>
     mpsc_step s (s\<lparr>prods := (prods s)(i := PCas t v)\<rparr>)"
| push_cas_ok:
    "prods s i = PCas t v \<Longrightarrow> mq_tail (mq s) = t \<Longrightarrow>
     mpsc_step s (s\<lparr>mq := (mq s)\<lparr>mq_tail := t + 1\<rparr>,
                    prods := (prods s)(i := PWrite t v), claims := claims s @ [v]\<rparr>)"
| push_cas_fail:
    "prods s i = PCas t v \<Longrightarrow>
     mpsc_step s (s\<lparr>prods := (prods s)(i := PLoadHead (mq_tail (mq s)) v)\<rparr>)"
| push_write:
    "prods s i = PWrite t v \<Longrightarrow>
     mpsc_step s (s\<lparr>mq := (mq s)\<lparr>mq_buffer := (mq_buffer (mq s))[slot_of (mq s) t := Some v]\<rparr>,
                    prods := (prods s)(i := PIdle)\<rparr>)"
| pop_load_head:
    "cons s = CIdle \<Longrightarrow> mpsc_step s (s\<lparr>cons := CLoadTail (mq_head (mq s))\<rparr>)"
| pop_empty:
    "cons s = CLoadTail h \<Longrightarrow> h \<ge> mq_tail (mq s) \<Longrightarrow> mpsc_step s (s\<lparr>cons := CIdle\<rparr>)"
| pop_has_item:
    "cons s = CLoadTail h \<Longrightarrow> \<not> h \<ge> mq_tail (mq s) \<Longrightarrow> mpsc_step s (s\<lparr>cons := CSlot h\<rparr>)"
| pop_unwritten:
    "cons s = CSlot h \<Longrightarrow> mq_buffer (mq s) ! slot_of (mq s) h = None \<Longrightarrow>
     mpsc_step s (s\<lparr>cons := CIdle\<rparr>)"
| pop_take:
    "cons s = CSlot h \<Longrightarrow> mq_buffer (mq s) ! slot_of (mq s) h = Some v \<Longrightarrow>
     mpsc_step s (s\<lparr>cons := CClear h v\<rparr>)"
| pop_clear:
    "cons s = CClear h v \<Longrightarrow>
     mpsc_step s (s\<lparr>mq := (mq s)\<lparr>mq_buffer := (mq_buffer (mq s))[slot_of (mq s) h := None]\<rparr>,
                    cons := CStore h v\<rparr>)"
| pop_store_head:
    "cons s = CStore h v \<Longrightarrow>
     mpsc_step s (s\<lparr>mq := (mq s)\<lparr>mq_head := h + 1\<rparr>, cons := CIdle, popped := popped s @ [v]\<rparr>)"

inductive mpsc_reachable :: "size_type \<Rightarrow> 'a mpsc_state \<Rightarrow> bool" for c where
  mpsc_start: "mpsc_reachable c (mpsc_init c)"
| mpsc_next: "mpsc_reachable c s \<Longrightarrow> mpsc_step s s' \<Longrightarrow> mpsc_reachable c s'"

section \<open>The invariant of concurrent execution\<close>

text \<open>
  Tickets are counted from 0: the value pushed with ticket \<open>p\<close> is \<open>claims ! p\<close>, the next ticket is
  \<open>length claims\<close> (the value of \<^verbatim>\<open>tail_\<close>), and the consumer has taken tickets below \<open>length popped\<close>
  (the value of \<^verbatim>\<open>head_\<close>).
\<close>

definition buf_at :: "'a mpsc_state \<Rightarrow> nat \<Rightarrow> 'a option" where
  "buf_at s p = mq_buffer (mq s) ! (p mod unat (mq_capacity (mq s)))"

definition writing :: "'a mpsc_state \<Rightarrow> nat \<Rightarrow> bool" where
  "writing s p \<longleftrightarrow> (\<exists>i t v. prods s i = PWrite t v \<and> unat t = p)"

definition shape_inv :: "'a mpsc_state \<Rightarrow> bool" where
  "shape_inv s \<longleftrightarrow>
     (\<exists>k<64. unat (mq_capacity (mq s)) = 2 ^ k) \<and>
     mq_mask (mq s) = mq_capacity (mq s) - 1 \<and>
     length (mq_buffer (mq s)) = unat (mq_capacity (mq s)) \<and>
     unat (mq_tail (mq s)) = length (claims s) \<and>
     unat (mq_head (mq s)) = length (popped s) \<and>
     length (popped s) \<le> length (claims s) \<and>
     length (claims s) \<le> length (popped s) + unat (mq_capacity (mq s)) \<and>
     popped s = take (length (popped s)) (claims s)"

definition prod_inv :: "'a mpsc_state \<Rightarrow> nat \<Rightarrow> bool" where
  "prod_inv s i \<longleftrightarrow>
     (case prods s i of
        PIdle \<Rightarrow> True
      | PLoadHead t v \<Rightarrow> unat t \<le> length (claims s)
      | PCas t v \<Rightarrow> unat t \<le> length (claims s) \<and>
                    unat t < length (popped s) + unat (mq_capacity (mq s))
      | PWrite t v \<Rightarrow> length (popped s) \<le> unat t \<and> unat t < length (claims s) \<and>
                      claims s ! unat t = v \<and> buf_at s (unat t) = None)"

definition cons_inv :: "'a mpsc_state \<Rightarrow> bool" where
  "cons_inv s \<longleftrightarrow>
     (case cons s of
        CIdle \<Rightarrow> True
      | CLoadTail h \<Rightarrow> h = mq_head (mq s)
      | CSlot h \<Rightarrow> h = mq_head (mq s) \<and> length (popped s) < length (claims s)
      | CClear h v \<Rightarrow> h = mq_head (mq s) \<and> length (popped s) < length (claims s) \<and>
                      buf_at s (length (popped s)) = Some v
      | CStore h v \<Rightarrow> h = mq_head (mq s) \<and> length (popped s) < length (claims s) \<and>
                      buf_at s (length (popped s)) = None \<and> \<not> writing s (length (popped s)) \<and>
                      claims s ! length (popped s) = v)"

definition taken :: "'a mpsc_state \<Rightarrow> nat \<Rightarrow> bool" where
  "taken s p \<longleftrightarrow> (\<exists>h v. cons s = CStore h v) \<and> p = length (popped s)"

definition slots_inv :: "'a mpsc_state \<Rightarrow> bool" where
  "slots_inv s \<longleftrightarrow>
     (\<forall>p. length (popped s) \<le> p \<and> p < length (claims s) \<longrightarrow>
        buf_at s p = (if writing s p \<or> taken s p then None else Some (claims s ! p))) \<and>
     (\<forall>p. length (claims s) \<le> p \<and> p < length (popped s) + unat (mq_capacity (mq s)) \<longrightarrow>
        buf_at s p = None) \<and>
     (\<forall>i j t v t' v'. prods s i = PWrite t v \<longrightarrow> prods s j = PWrite t' v' \<longrightarrow> t = t' \<longrightarrow> i = j)"

definition mpsc_inv :: "'a mpsc_state \<Rightarrow> bool" where
  "mpsc_inv s \<longleftrightarrow> shape_inv s \<and> (\<forall>i. prod_inv s i) \<and> cons_inv s \<and> slots_inv s"

lemmas mpsc_inv_defs = mpsc_inv_def shape_inv_def prod_inv_def cons_inv_def slots_inv_def

lemma mpsc_invD:
  assumes "mpsc_inv s"
  shows "shape_inv s" "prod_inv s i" "cons_inv s" "slots_inv s"
  using assms by (auto simp: mpsc_inv_def)

lemma shape_cap_pos: "shape_inv s \<Longrightarrow> 0 < unat (mq_capacity (mq s))"
  by (auto simp: shape_inv_def)

lemma slot_of_eq:
  assumes "shape_inv s"
  shows "slot_of (mq s) p = unat p mod unat (mq_capacity (mq s))"
proof -
  from assms obtain k where k: "unat (mq_capacity (mq s)) = 2 ^ k" by (auto simp: shape_inv_def)
  have "mq_capacity (mq s) \<noteq> 0" using shape_cap_pos [OF assms] by auto
  then have "unat (mq_mask (mq s)) = 2 ^ k - 1"
    using assms k by (simp add: shape_inv_def unat_minus_one)
  from unat_and_mask_pow2 [OF this] show ?thesis by (simp add: slot_of_def k)
qed

text \<open>Writing one slot changes the view of exactly one ticket of a window as wide as the buffer.\<close>

lemma buf_at_update:
  assumes "shape_inv s" and "mq s' = (mq s)\<lparr>mq_buffer := (mq_buffer (mq s))[slot_of (mq s) t := x]\<rparr>"
    and "lo \<le> unat t" "unat t < lo + unat (mq_capacity (mq s))"
    and "lo \<le> p" "p < lo + unat (mq_capacity (mq s))"
  shows "buf_at s' p = (if p = unat t then x else buf_at s p)"
proof -
  have "unat t mod unat (mq_capacity (mq s)) < length (mq_buffer (mq s))"
    using assms(1) shape_cap_pos [OF assms(1)] by (simp add: shape_inv_def)
  moreover have "p mod unat (mq_capacity (mq s)) \<noteq> unat t mod unat (mq_capacity (mq s))"
    if "p \<noteq> unat t"
    using that assms(3-6) by (intro mod_window_distinct [of p "unat t" lo]) auto
  ultimately show ?thesis
    by (auto simp: buf_at_def assms(2) slot_of_eq [OF assms(1)])
qed

lemma buf_at_cong [simp]:
  "buf_at (s\<lparr>prods := f\<rparr>) = buf_at s" "buf_at (s\<lparr>cons := c\<rparr>) = buf_at s"
  "buf_at (s\<lparr>mq := (mq s)\<lparr>mq_head := h\<rparr>, cons := c, popped := ps\<rparr>) = buf_at s"
  "buf_at (s\<lparr>mq := (mq s)\<lparr>mq_tail := t\<rparr>, prods := f, claims := cs\<rparr>) = buf_at s"
  by (simp_all add: buf_at_def fun_eq_iff)

lemma writing_cong [simp]:
  "writing (s\<lparr>cons := c\<rparr>) = writing s"
  "writing (s\<lparr>mq := q\<rparr>) = writing s"
  "writing (s\<lparr>mq := q, cons := c, popped := ps\<rparr>) = writing s"
  by (simp_all add: writing_def fun_eq_iff)

lemma prod_move_inv:
  assumes inv: "mpsc_inv s" and "\<And>t v. prods s i \<noteq> PWrite t v" and "\<And>t v. pc \<noteq> PWrite t v"
    and "prod_inv (s\<lparr>prods := (prods s)(i := pc)\<rparr>) i"
  shows "mpsc_inv (s\<lparr>prods := (prods s)(i := pc)\<rparr>)" (is "mpsc_inv ?s'")
proof -
  have w: "writing ?s' = writing s"
    using assms(2,3) by (auto simp: writing_def fun_eq_iff) metis+
  have "prod_inv ?s' j" for j
    using assms(4) mpsc_invD(2) [OF inv, of j]
    by (cases "j = i"; cases "prods s j") (auto simp: prod_inv_def)
  moreover have "slots_inv ?s'"
    using mpsc_invD(4) [OF inv] assms(3) unfolding slots_inv_def w
    by (auto simp: taken_def split: if_splits)
  moreover have "cons_inv ?s'"
    using mpsc_invD(3) [OF inv] by (auto simp: cons_inv_def w split: cons_pc.splits)
  ultimately show ?thesis
    using mpsc_invD(1) [OF inv] by (simp add: mpsc_inv_def shape_inv_def)
qed

lemma push_has_room_inv:
  assumes inv: "mpsc_inv s" and pc: "prods s i = PLoadHead t v"
    and room: "\<not> t - mq_head (mq s) \<ge> mq_capacity (mq s)"
  shows "mpsc_inv (s\<lparr>prods := (prods s)(i := PCas t v)\<rparr>)"
proof (rule prod_move_inv [OF inv])
  have "unat t < length (popped s) + unat (mq_capacity (mq s))"
  proof (cases "length (popped s) \<le> unat t")
    case True
    then have "unat (t - mq_head (mq s)) = unat t - length (popped s)"
      using mpsc_invD(1) [OF inv] by (simp add: unat_sub_le shape_inv_def)
    with room True show ?thesis by (simp add: word_le_nat_alt)
  qed (use shape_cap_pos mpsc_invD(1) [OF inv] in auto)
  then show "prod_inv (s\<lparr>prods := (prods s)(i := PCas t v)\<rparr>) i"
    using mpsc_invD(2) [OF inv, of i] pc by (simp add: prod_inv_def)
qed (simp_all add: pc)

lemma push_cas_ok_inv:
  assumes inv: "mpsc_inv s" and pc: "prods s i = PCas t v" and t: "mq_tail (mq s) = t"
    and nowrap: "Suc (length (claims s)) < 2 ^ 64"
  shows "mpsc_inv (s\<lparr>mq := (mq s)\<lparr>mq_tail := t + 1\<rparr>,
      prods := (prods s)(i := PWrite t v), claims := claims s @ [v]\<rparr>)" (is "mpsc_inv ?s'")
proof -
  note sh = mpsc_invD(1) [OF inv] and sl = mpsc_invD(4) [OF inv]
  have ut: "unat t = length (claims s)" using sh t by (auto simp: shape_inv_def)
  have room: "length (claims s) < length (popped s) + unat (mq_capacity (mq s))"
    using mpsc_invD(2) [OF inv, of i] pc by (simp add: prod_inv_def ut)
  have below: "unat t' < length (claims s)" if "prods s j = PWrite t' v'" for j t' v'
    using mpsc_invD(2) [OF inv, of j] that by (simp add: prod_inv_def)
  then have new: "prods s j \<noteq> PWrite t v'" for j v' using ut by (metis less_irrefl)
  have w: "writing ?s' p \<longleftrightarrow> writing s p \<or> p = length (claims s)" for p
  proof
    show "writing ?s' p \<Longrightarrow> writing s p \<or> p = length (claims s)"
      by (auto simp: writing_def ut split: if_splits)
    assume "writing s p \<or> p = length (claims s)"
    then show "writing ?s' p"
    proof
      assume "writing s p"
      then obtain j t' v' where "prods s j = PWrite t' v'" "unat t' = p" by (auto simp: writing_def)
      moreover from this pc have "j \<noteq> i" by auto
      ultimately show ?thesis by (auto simp: writing_def intro!: exI [of _ j])
    qed (auto simp: writing_def ut intro!: exI [of _ i])
  qed
  have free: "buf_at s (length (claims s)) = None"
    using sl room by (simp add: slots_inv_def)
  have "shape_inv ?s'"
    using sh room nowrap by (auto simp: shape_inv_def ut unat_Suc_no_wrap)
  moreover have "prod_inv ?s' j" for j
    using mpsc_invD(2) [OF inv, of j] sh free
    by (cases "j = i") (auto simp: prod_inv_def ut nth_append shape_inv_def split: prod_pc.splits)
  moreover have "cons_inv ?s'"
    using mpsc_invD(3) [OF inv] by (auto simp: cons_inv_def w nth_append split: cons_pc.splits)
  moreover have "slots_inv ?s'"
    using sl free ut new unfolding slots_inv_def w
    by (auto simp: taken_def nth_append less_Suc_eq)
  ultimately show ?thesis by (simp add: mpsc_inv_def)
qed

lemma push_write_inv:
  assumes inv: "mpsc_inv s" and pc: "prods s i = PWrite t v"
  shows "mpsc_inv (s\<lparr>mq := (mq s)\<lparr>mq_buffer := (mq_buffer (mq s))[slot_of (mq s) t := Some v]\<rparr>,
      prods := (prods s)(i := PIdle)\<rparr>)" (is "mpsc_inv ?s'")
proof -
  note sh = mpsc_invD(1) [OF inv] and sl = mpsc_invD(4) [OF inv]
  have t: "length (popped s) \<le> unat t" "unat t < length (claims s)" "claims s ! unat t = v"
    "buf_at s (unat t) = None"
    using mpsc_invD(2) [OF inv, of i] pc by (simp_all add: prod_inv_def)
  have bnd: "length (claims s) \<le> length (popped s) + unat (mq_capacity (mq s))"
    using sh by (simp add: shape_inv_def)
  have b: "buf_at ?s' p = (if p = unat t then Some v else buf_at s p)"
    if "length (popped s) \<le> p" "p < length (popped s) + unat (mq_capacity (mq s))" for p
    using t bnd that by (intro buf_at_update [OF sh]) auto
  have uniq: "j = i" if "prods s j = PWrite t v'" for j v'
    using sl pc that by (auto simp: slots_inv_def)
  have other: "unat t' \<noteq> unat t" if "j \<noteq> i" "prods s j = PWrite t' v'" for j t' v'
    using uniq [of j v'] that by (auto simp: word_unat_eq_iff)
  have wt: "writing s (unat t)" using pc by (auto simp: writing_def)
  then have notk: "length (popped s) \<noteq> unat t" if "cons s = CStore h x" for h x
    using mpsc_invD(3) [OF inv] that by (auto simp: cons_inv_def)
  have w: "writing ?s' p \<longleftrightarrow> writing s p \<and> p \<noteq> unat t" for p
  proof
    assume "writing ?s' p"
    then obtain j t' v' where j: "j \<noteq> i" "prods s j = PWrite t' v'" "unat t' = p"
      by (auto simp: writing_def split: if_splits)
    with other [of j t' v'] show "writing s p \<and> p \<noteq> unat t" by (auto simp: writing_def)
  next
    assume a: "writing s p \<and> p \<noteq> unat t"
    then obtain j t' v' where j: "prods s j = PWrite t' v'" "unat t' = p"
      by (auto simp: writing_def)
    with a pc have "j \<noteq> i" by auto
    with j show "writing ?s' p" by (auto simp: writing_def intro!: exI [of _ j])
  qed
  have "shape_inv ?s'" using sh by (simp add: shape_inv_def)
  moreover have "prod_inv ?s' j" for j
  proof (cases "j = i")
    case False
    then show ?thesis using mpsc_invD(2) [OF inv, of j] bnd other [of j]
      by (cases "prods s j") (simp_all add: prod_inv_def b del: buf_at_cong)
  qed (simp add: prod_inv_def)
  moreover have "cons_inv ?s'"
    using mpsc_invD(3) [OF inv] t bnd wt
    by (cases "cons s") (auto simp: cons_inv_def w b simp del: buf_at_cong)
  moreover have "slots_inv ?s'"
    using sl t bnd notk unfolding slots_inv_def w
    by (auto simp: taken_def b simp del: buf_at_cong)
  ultimately show ?thesis by (simp add: mpsc_inv_def)
qed

lemma pop_clear_inv:
  assumes inv: "mpsc_inv s" and pc: "cons s = CClear h v"
  shows "mpsc_inv (s\<lparr>mq := (mq s)\<lparr>mq_buffer := (mq_buffer (mq s))[slot_of (mq s) h := None]\<rparr>,
      cons := CStore h v\<rparr>)" (is "mpsc_inv ?s'")
proof -
  note sh = mpsc_invD(1) [OF inv] and sl = mpsc_invD(4) [OF inv]
  have h: "h = mq_head (mq s)" "length (popped s) < length (claims s)"
    "buf_at s (length (popped s)) = Some v"
    using mpsc_invD(3) [OF inv] pc by (simp_all add: cons_inv_def)
  have uh: "unat h = length (popped s)" using sh h by (simp add: shape_inv_def)
  have bnd: "length (claims s) \<le> length (popped s) + unat (mq_capacity (mq s))"
    using sh by (simp add: shape_inv_def)
  have b: "buf_at ?s' p = (if p = length (popped s) then None else buf_at s p)"
    if "length (popped s) \<le> p" "p < length (popped s) + unat (mq_capacity (mq s))" for p
    using h bnd that unfolding uh [symmetric] by (intro buf_at_update [OF sh]) auto
  have nw: "\<not> writing s (length (popped s))" and v: "claims s ! length (popped s) = v"
    using sl h by (auto simp: slots_inv_def split: if_splits)
  have "shape_inv ?s'" using sh by (simp add: shape_inv_def)
  moreover have "prod_inv ?s' j" for j
    using mpsc_invD(2) [OF inv, of j] bnd
    by (cases "prods s j") (auto simp: prod_inv_def b simp del: buf_at_cong)
  moreover have "cons_inv ?s'"
    using h(2) nw v bnd b [of "length (popped s)"] by (simp add: cons_inv_def h(1) writing_def)
  moreover have "slots_inv ?s'"
    using sl bnd nw h(2) unfolding slots_inv_def
    by (auto simp: taken_def pc b simp del: buf_at_cong)
  ultimately show ?thesis by (simp add: mpsc_inv_def)
qed

lemma pop_store_head_inv:
  assumes inv: "mpsc_inv s" and pc: "cons s = CStore h v"
  shows "mpsc_inv (s\<lparr>mq := (mq s)\<lparr>mq_head := h + 1\<rparr>, cons := CIdle, popped := popped s @ [v]\<rparr>)"
    (is "mpsc_inv ?s'")
proof -
  note sh = mpsc_invD(1) [OF inv] and sl = mpsc_invD(4) [OF inv]
  have h: "h = mq_head (mq s)" "length (popped s) < length (claims s)"
    "buf_at s (length (popped s)) = None" "\<not> writing s (length (popped s))"
    "claims s ! length (popped s) = v"
    using mpsc_invD(3) [OF inv] pc by (simp_all add: cons_inv_def)
  have uh: "unat h = length (popped s)" and tl: "unat (mq_tail (mq s)) = length (claims s)"
    using sh h by (simp_all add: shape_inv_def)
  have "Suc (unat h) < 2 ^ LENGTH(64)"
    using h(2) unat_less_2p64 [of "mq_tail (mq s)"] by (simp add: uh tl)
  then have uh1: "unat (h + 1) = Suc (length (popped s))"
    by (simp add: unat_Suc_no_wrap uh)
  have nw: "unat t \<noteq> length (popped s)" if "prods s j = PWrite t v'" for j t v'
    using h(4) that by (auto simp: writing_def)
  have wrap: "buf_at s (length (popped s) + unat (mq_capacity (mq s))) = None"
    using h(3) by (simp add: buf_at_def)
  have "shape_inv ?s'"
    using sh h uh1 by (auto simp: shape_inv_def take_Suc_conv_app_nth)
  moreover have "prod_inv ?s' j" for j
    using mpsc_invD(2) [OF inv, of j] nw [of j]
    by (cases "prods s j") (auto simp: prod_inv_def Suc_le_eq le_less)
  moreover have "cons_inv ?s'" by (simp add: cons_inv_def)
  moreover have "slots_inv ?s'"
    using sl wrap unfolding slots_inv_def by (auto simp: taken_def less_Suc_eq)
  ultimately show ?thesis by (simp add: mpsc_inv_def)
qed

lemma cons_move_inv:
  assumes inv: "mpsc_inv s" and "\<And>h v. cons s \<noteq> CStore h v" "\<And>h v. pc \<noteq> CStore h v"
    and "cons_inv (s\<lparr>cons := pc\<rparr>)"
  shows "mpsc_inv (s\<lparr>cons := pc\<rparr>)"
proof -
  have "prod_inv (s\<lparr>cons := pc\<rparr>) j" for j
    using mpsc_invD(2) [OF inv, of j] by (cases "prods s j") (auto simp: prod_inv_def)
  moreover have "slots_inv (s\<lparr>cons := pc\<rparr>)"
    using mpsc_invD(4) [OF inv] assms(2,3) by (auto simp: slots_inv_def taken_def)
  ultimately show ?thesis
    using mpsc_invD(1) [OF inv] assms(4) by (simp add: mpsc_inv_def shape_inv_def)
qed

theorem mpsc_step_inv:
  assumes "mpsc_step s s'" and inv: "mpsc_inv s" and "length (claims s') < 2 ^ 64"
  shows "mpsc_inv s'"
  using assms(1,3)
proof cases
  case (push_load_tail i v)
  then show ?thesis using mpsc_invD(1) [OF inv]
    by (auto intro!: prod_move_inv [OF inv] simp: prod_inv_def shape_inv_def)
next
  case (push_full i t v)
  then show ?thesis by (auto intro!: prod_move_inv [OF inv] simp: prod_inv_def)
next
  case (push_cas_fail i t v)
  then show ?thesis using mpsc_invD(1) [OF inv]
    by (auto intro!: prod_move_inv [OF inv] simp: prod_inv_def shape_inv_def)
next
  case (pop_has_item h)
  then show ?thesis using mpsc_invD(1,3) [OF inv]
    by (auto intro!: cons_move_inv [OF inv] simp: cons_inv_def shape_inv_def word_le_nat_alt)
next
  case (pop_take h v)
  then show ?thesis using mpsc_invD(1,3) [OF inv]
    by (auto intro!: cons_move_inv [OF inv] simp: cons_inv_def shape_inv_def buf_at_def
        slot_of_eq [OF mpsc_invD(1) [OF inv]])
next
  case (push_cas_ok i t v)
  then show ?thesis using push_cas_ok_inv [OF inv, of i t v] assms(3) by simp
next
  case (pop_unwritten h)
  then show ?thesis by (auto intro!: cons_move_inv [OF inv] simp: cons_inv_def)
next
  case (pop_empty h)
  then show ?thesis by (auto intro!: cons_move_inv [OF inv] simp: cons_inv_def)
next
  case pop_load_head
  then show ?thesis by (auto intro!: cons_move_inv [OF inv] simp: cons_inv_def)
qed (simp_all add: push_has_room_inv push_write_inv pop_clear_inv pop_store_head_inv inv)

lemma claims_mono: "mpsc_step s s' \<Longrightarrow> length (claims s) \<le> length (claims s')"
  by (induction rule: mpsc_step.induct) auto

lemma capacity_const: "mpsc_step s s' \<Longrightarrow> mq_capacity (mq s') = mq_capacity (mq s)"
  by (induction rule: mpsc_step.induct) auto

lemma mpsc_init_inv:
  assumes "unat c \<le> 2 ^ 63"
  shows "mpsc_inv (mpsc_init c)"
proof -
  from assms obtain k where k: "k < 64" "unat (round_up_power_of_two c) = 2 ^ k"
    by (rule round_up_is_power)
  then show ?thesis
    by (auto simp: mpsc_inv_defs mpsc_init_def MpscQueue_def Let_def buf_at_def)
qed

lemma mpsc_reachable_inv:
  assumes "mpsc_reachable c s" and "unat c \<le> 2 ^ 63" and "length (claims s) < 2 ^ 64"
  shows "mpsc_inv s"
  using assms(1,3)
proof (induction rule: mpsc_reachable.induct)
  case mpsc_start
  then show ?case using mpsc_init_inv [OF assms(2)] by simp
next
  case (mpsc_next s s')
  then show ?case using claims_mono [of s s'] mpsc_step_inv by force
qed

lemma mpsc_reachable_capacity:
  "mpsc_reachable c s \<Longrightarrow> mq_capacity (mq s) = round_up_power_of_two c"
  by (induction rule: mpsc_reachable.induct)
    (auto simp: capacity_const mpsc_init_def MpscQueue_def Let_def)

lemma mpsc_reachable_steps: "mpsc_step\<^sup>*\<^sup>* s s' \<Longrightarrow> mpsc_reachable c s \<Longrightarrow> mpsc_reachable c s'"
  by (induction rule: rtranclp_induct) (auto intro: mpsc_next)

section \<open>An operation that runs alone\<close>

text \<open>
  The sequential operations are the runs of the steps in which nobody else moves.
\<close>

lemma mpsc_solo_push:
  assumes idle: "prods s i = PIdle" and push: "mpsc_try_push v (mq s) = (ok, q')"
  shows "mpsc_step\<^sup>*\<^sup>* s (s\<lparr>mq := q', claims := claims s @ (if ok then [v] else [])\<rparr>)"
proof -
  let ?t = "mq_tail (mq s)"
  let ?s1 = "s\<lparr>prods := (prods s)(i := PLoadHead ?t v)\<rparr>"
  have s1: "mpsc_step s ?s1" using idle by (rule push_load_tail)
  show ?thesis
  proof (cases "?t - mq_head (mq s) \<ge> mq_capacity (mq s)")
    case True
    with push have q: "\<not> ok" "q' = mq s" by (auto simp: mpsc_try_push_def Let_def)
    have "mpsc_step ?s1 (?s1\<lparr>prods := (prods ?s1)(i := PIdle)\<rparr>)"
      by (rule push_full) (use True in auto)
    moreover have "?s1\<lparr>prods := (prods ?s1)(i := PIdle)\<rparr> = s" using idle by (simp add: fun_upd_idem)
    ultimately show ?thesis using s1 q by (simp add: rtranclp.rtrancl_refl)
  next
    case False
    let ?s2 = "?s1\<lparr>prods := (prods ?s1)(i := PCas ?t v)\<rparr>"
    let ?s3 = "?s2\<lparr>mq := (mq ?s2)\<lparr>mq_tail := ?t + 1\<rparr>,
      prods := (prods ?s2)(i := PWrite ?t v), claims := claims ?s2 @ [v]\<rparr>"
    let ?s4 = "?s3\<lparr>mq := (mq ?s3)\<lparr>mq_buffer := (mq_buffer (mq ?s3))[slot_of (mq ?s3) ?t := Some v]\<rparr>,
      prods := (prods ?s3)(i := PIdle)\<rparr>"
    have "mpsc_step ?s1 ?s2" by (rule push_has_room) (use False in auto)
    moreover have "mpsc_step ?s2 ?s3" by (rule push_cas_ok) auto
    moreover have "mpsc_step ?s3 ?s4" by (rule push_write) auto
    moreover have "?s4 = s\<lparr>mq := q', claims := claims s @ (if ok then [v] else [])\<rparr>"
      using False push idle
      by (auto simp: mpsc_try_push_def Let_def slot_of_def fun_upd_idem)
    ultimately show ?thesis
      using s1 by (metis (no_types, lifting) r_into_rtranclp rtranclp.rtrancl_into_rtrancl)
  qed
qed

lemma mpsc_solo_pop:
  assumes idle: "cons s = CIdle" and pop: "mpsc_try_pop (mq s) = (r, q')"
  shows "mpsc_step\<^sup>*\<^sup>* s (s\<lparr>mq := q', popped := popped s @ (case r of None \<Rightarrow> [] | Some v \<Rightarrow> [v])\<rparr>)"
proof -
  let ?h = "mq_head (mq s)"
  let ?s1 = "s\<lparr>cons := CLoadTail ?h\<rparr>"
  have same: "s\<lparr>cons := CIdle\<rparr> = s" using idle by simp
  have s1: "mpsc_step s ?s1" using idle by (rule pop_load_head)
  consider (empty) "?h \<ge> mq_tail (mq s)"
    | (unwritten) "\<not> ?h \<ge> mq_tail (mq s)" "mq_buffer (mq s) ! slot_of (mq s) ?h = None"
    | (item) v where "\<not> ?h \<ge> mq_tail (mq s)" "mq_buffer (mq s) ! slot_of (mq s) ?h = Some v"
    by fastforce
  then show ?thesis
  proof cases
    case empty
    with pop have q: "r = None" "q' = mq s" by (auto simp: mpsc_try_pop_def Let_def)
    have "mpsc_step ?s1 (?s1\<lparr>cons := CIdle\<rparr>)" by (rule pop_empty) (use empty in auto)
    with s1 q same show ?thesis by simp
  next
    case unwritten
    with pop have q: "r = None" "q' = mq s"
      by (auto simp: mpsc_try_pop_def Let_def slot_of_def)
    let ?s2 = "?s1\<lparr>cons := CSlot ?h\<rparr>"
    have "mpsc_step ?s1 ?s2" by (rule pop_has_item) (use unwritten in auto)
    moreover have "mpsc_step ?s2 (?s2\<lparr>cons := CIdle\<rparr>)" by (rule pop_unwritten) (use unwritten in auto)
    ultimately show ?thesis using s1 q same by simp
  next
    case item
    let ?s2 = "?s1\<lparr>cons := CSlot ?h\<rparr>"
    let ?s3 = "?s2\<lparr>cons := CClear ?h v\<rparr>"
    let ?s4 = "?s3\<lparr>mq := (mq ?s3)\<lparr>mq_buffer := (mq_buffer (mq ?s3))[slot_of (mq ?s3) ?h := None]\<rparr>,
      cons := CStore ?h v\<rparr>"
    let ?s5 = "?s4\<lparr>mq := (mq ?s4)\<lparr>mq_head := ?h + 1\<rparr>, cons := CIdle, popped := popped ?s4 @ [v]\<rparr>"
    have "mpsc_step ?s1 ?s2" by (rule pop_has_item) (use item in auto)
    moreover have "mpsc_step ?s2 ?s3" by (rule pop_take) (use item in auto)
    moreover have "mpsc_step ?s3 ?s4" by (rule pop_clear) auto
    moreover have "mpsc_step ?s4 ?s5" by (rule pop_store_head) auto
    moreover have "?s5 = s\<lparr>mq := q', popped := popped s @ (case r of None \<Rightarrow> [] | Some v \<Rightarrow> [v])\<rparr>"
    proof -
      have "r = Some v"
        "q' = (mq s)\<lparr>mq_buffer := (mq_buffer (mq s))[slot_of (mq s) ?h := None], mq_head := ?h + 1\<rparr>"
        using item pop by (simp_all add: mpsc_try_pop_def Let_def slot_of_def)
      with idle show ?thesis by (simp add: slot_of_def)
    qed
    ultimately show ?thesis
      using s1 by (metis (no_types, lifting) r_into_rtranclp rtranclp.rtrancl_into_rtrancl)
  qed
qed

section \<open>The queue used by one thread is a bounded FIFO queue\<close>

definition mpsc_quiet :: "'a mpsc_state \<Rightarrow> bool" where
  "mpsc_quiet s \<longleftrightarrow> prods s = (\<lambda>_. PIdle) \<and> cons s = CIdle"

definition mpsc_seq_inv :: "nat \<Rightarrow> 'a mpsc_queue \<Rightarrow> bool" where
  "mpsc_seq_inv n q \<longleftrightarrow>
     (\<exists>s. mq s = q \<and> mpsc_quiet s \<and> mpsc_inv s \<and> length (claims s) + n < 2 ^ 64)"

definition mpsc_contents :: "'a mpsc_queue \<Rightarrow> 'a list" where
  "mpsc_contents q =
     map (\<lambda>p. the (mq_buffer q ! (p mod unat (mq_capacity q)))) [unat (mq_head q)..<unat (mq_tail q)]"

lemma mpsc_steps_inv:
  assumes "mpsc_step\<^sup>*\<^sup>* s s'" and "mpsc_inv s" and "length (claims s') < 2 ^ 64"
  shows "mpsc_inv s'"
  using assms(1,3)
proof (induction rule: rtranclp_induct)
  case (step s1 s2)
  then show ?case using claims_mono [OF step(2)] mpsc_step_inv [OF step(2)] by simp
qed (use assms(2) in simp)

lemma quiet_not_busy: "mpsc_quiet s \<Longrightarrow> \<not> writing s p \<and> \<not> taken s p"
  by (auto simp: mpsc_quiet_def writing_def taken_def)

lemma quiet_contents:
  assumes inv: "mpsc_inv s" and "mpsc_quiet s"
  shows "mpsc_contents (mq s) = drop (length (popped s)) (claims s)"
proof (rule nth_equalityI)
  show "length (mpsc_contents (mq s)) = length (drop (length (popped s)) (claims s))"
    using mpsc_invD(1) [OF inv] by (simp add: mpsc_contents_def shape_inv_def)
next
  fix k assume "k < length (mpsc_contents (mq s))"
  then have k: "length (popped s) + k < length (claims s)"
    using mpsc_invD(1) [OF inv] by (simp add: mpsc_contents_def shape_inv_def)
  with mpsc_invD(4) [OF inv] quiet_not_busy [OF assms(2)]
  have "buf_at s (length (popped s) + k) = Some (claims s ! (length (popped s) + k))"
    by (simp add: slots_inv_def)
  moreover have "unat (mq_head (mq s)) = length (popped s)" "unat (mq_tail (mq s)) = length (claims s)"
    using mpsc_invD(1) [OF inv] by (simp_all add: shape_inv_def)
  moreover have "[length (popped s)..<length (claims s)] ! k = length (popped s) + k"
    using k by (rule nth_upt)
  ultimately show "mpsc_contents (mq s) ! k = drop (length (popped s)) (claims s) ! k"
    using k by (simp add: mpsc_contents_def buf_at_def)
qed

lemma mpsc_push_spec:
  assumes "mpsc_seq_inv (Suc n) q" and push: "mpsc_try_push v q = (ok, q')"
  shows "(ok, mpsc_contents q') = spec_push (unat (mq_capacity q)) v (mpsc_contents q)
    \<and> mpsc_seq_inv n q' \<and> unat (mq_capacity q') = unat (mq_capacity q)"
proof -
  from assms(1) obtain s where s: "mq s = q" "mpsc_quiet s" and inv: "mpsc_inv s"
    and len: "length (claims s) + Suc n < 2 ^ 64" by (auto simp: mpsc_seq_inv_def)
  let ?s' = "s\<lparr>mq := q', claims := claims s @ (if ok then [v] else [])\<rparr>"
  note sh = mpsc_invD(1) [OF inv]
  have "mpsc_step\<^sup>*\<^sup>* s ?s'"
    using s push by (intro mpsc_solo_push [of _ 0]) (auto simp: mpsc_quiet_def)
  then have inv': "mpsc_inv ?s'" using inv by (rule mpsc_steps_inv) (use len in simp)
  have quiet': "mpsc_quiet ?s'" using s(2) by (simp add: mpsc_quiet_def)
  have "unat (mq_tail q - mq_head q) = length (claims s) - length (popped s)"
    using sh s(1) by (auto simp: shape_inv_def unat_sub_le)
  then have "ok \<longleftrightarrow> length (mpsc_contents q) < unat (mq_capacity q)"
    using push quiet_contents [OF inv s(2)] s(1)
    by (auto simp: mpsc_try_push_def Let_def word_le_nat_alt not_le split: if_splits)
  moreover have "mpsc_contents q' = mpsc_contents q @ (if ok then [v] else [])"
    using quiet_contents [OF inv s(2)] quiet_contents [OF inv' quiet'] s(1) sh
    by (simp add: shape_inv_def)
  moreover have "mpsc_seq_inv n q'"
    unfolding mpsc_seq_inv_def using inv' quiet' len by (intro exI [of _ ?s']) simp
  moreover have "mq_capacity q' = mq_capacity q"
    using push by (auto simp: mpsc_try_push_def Let_def split: if_splits)
  ultimately show ?thesis by (auto simp: spec_push_def)
qed

lemma mpsc_pop_spec:
  assumes "mpsc_seq_inv n q" and pop: "mpsc_try_pop q = (r, q')"
  shows "(r, mpsc_contents q') = spec_pop (mpsc_contents q)
    \<and> mpsc_seq_inv n q' \<and> unat (mq_capacity q') = unat (mq_capacity q)"
proof -
  from assms(1) obtain s where s: "mq s = q" "mpsc_quiet s" and inv: "mpsc_inv s"
    and len: "length (claims s) + n < 2 ^ 64" by (auto simp: mpsc_seq_inv_def)
  let ?s' = "s\<lparr>mq := q', popped := popped s @ (case r of None \<Rightarrow> [] | Some v \<Rightarrow> [v])\<rparr>"
  note sh = mpsc_invD(1) [OF inv]
  have "mpsc_step\<^sup>*\<^sup>* s ?s'" using s pop by (intro mpsc_solo_pop) (auto simp: mpsc_quiet_def)
  then have inv': "mpsc_inv ?s'" using inv by (rule mpsc_steps_inv) (use len in simp)
  have quiet': "mpsc_quiet ?s'" using s(2) by (simp add: mpsc_quiet_def)
  have r: "r = (if length (popped s) < length (claims s)
                then Some (claims s ! length (popped s)) else None)"
  proof (cases "length (popped s) < length (claims s)")
    case True
    with mpsc_invD(4) [OF inv] quiet_not_busy [OF s(2)]
    have "buf_at s (length (popped s)) = Some (claims s ! length (popped s))"
      by (simp add: slots_inv_def)
    with True pop s(1) sh slot_of_eq [OF sh, of "mq_head q"] show ?thesis
      by (auto simp: mpsc_try_pop_def Let_def buf_at_def slot_of_def shape_inv_def word_le_nat_alt)
  next
    case False
    with pop s(1) sh show ?thesis
      by (auto simp: mpsc_try_pop_def Let_def shape_inv_def word_le_nat_alt)
  qed
  have "(r, mpsc_contents q') = spec_pop (mpsc_contents q)"
    using quiet_contents [OF inv s(2)] quiet_contents [OF inv' quiet'] s(1) r
      Cons_nth_drop_Suc [of "length (popped s)" "claims s"]
    by (auto simp: spec_pop_def split: list.splits)
  moreover have "mpsc_seq_inv n q'"
    unfolding mpsc_seq_inv_def using inv' quiet' len by (intro exI [of _ ?s']) simp
  moreover have "mq_capacity q' = mq_capacity q"
    using pop by (auto simp: mpsc_try_pop_def Let_def split: if_splits option.splits)
  ultimately show ?thesis by simp
qed

lemma mpsc_seq_inv_mono: "mpsc_seq_inv (Suc n) q \<Longrightarrow> mpsc_seq_inv n q"
  by (auto simp: mpsc_seq_inv_def)

interpretation mpsc: bounded_fifo mpsc_contents "\<lambda>q. unat (mq_capacity q)" mpsc_seq_inv
    mpsc_try_push mpsc_try_pop
proof
  fix n q x ok q' r
  show "mpsc_seq_inv n q \<Longrightarrow> length (mpsc_contents q) \<le> unat (mq_capacity q)"
    by (auto simp: mpsc_seq_inv_def mpsc_contents_def mpsc_inv_def shape_inv_def)
  show "mpsc_seq_inv (Suc n) q \<Longrightarrow> mpsc_try_push x q = (ok, q') \<Longrightarrow>
      mpsc_seq_inv n q' \<and> unat (mq_capacity q') = unat (mq_capacity q)"
    using mpsc_push_spec [of n q x ok q'] by simp
  show "mpsc_seq_inv (Suc n) q \<Longrightarrow> mpsc_try_push x q = (ok, q') \<Longrightarrow>
      (ok, mpsc_contents q') = spec_push (unat (mq_capacity q)) x (mpsc_contents q)"
    using mpsc_push_spec [of n q x ok q'] by simp
  show "mpsc_seq_inv (Suc n) q \<Longrightarrow> mpsc_try_pop q = (r, q') \<Longrightarrow>
      mpsc_seq_inv n q' \<and> unat (mq_capacity q') = unat (mq_capacity q)"
    using mpsc_pop_spec [of n q r q'] mpsc_seq_inv_mono [of n q] by simp
  show "mpsc_seq_inv (Suc n) q \<Longrightarrow> mpsc_try_pop q = (r, q') \<Longrightarrow>
      (r, mpsc_contents q') = spec_pop (mpsc_contents q)"
    using mpsc_pop_spec [of "Suc n" q r q'] by simp
qed

lemma MpscQueue_seq_inv:
  assumes "unat c \<le> 2 ^ 63" and "n < 2 ^ 64"
  shows "mpsc_seq_inv n (MpscQueue c)" and "mpsc_contents (MpscQueue c) = []"
proof -
  show "mpsc_seq_inv n (MpscQueue c)"
    unfolding mpsc_seq_inv_def using mpsc_init_inv [OF assms(1)] assms(2)
    by (intro exI [of _ "mpsc_init c"]) (simp add: mpsc_init_def mpsc_quiet_def)
qed (simp add: mpsc_contents_def MpscQueue_def Let_def)

section \<open>Correctness under every interleaving\<close>

text \<open>
  \<^bold>\<open>C4\<close>. Under every interleaving of any number of producers with the consumer (fewer than
  \<open>2 ^ 64\<close> pushes in all), the values the consumer has returned are exactly the oldest values, in
  the order in which \<^verbatim>\<open>try_push\<close> claimed their slots: nothing is lost, duplicated, reordered or made
  up. At most a capacity of values is waiting, and a producer that writes finds its slot empty, so
  no value is overwritten; no two producers ever write the same position.\<close>

theorem mpsc_fifo_interleaved:
  assumes "mpsc_reachable c s" and "unat c \<le> 2 ^ 63" and "length (claims s) < 2 ^ 64"
  shows "popped s = take (length (popped s)) (claims s) \<and>
    length (claims s) - length (popped s) \<le> unat (round_up_power_of_two c) \<and>
    (\<forall>i t v. prods s i = PWrite t v \<longrightarrow>
           mq_buffer (mq s) ! slot_of (mq s) t = None \<and> claims s ! unat t = v \<and>
           (\<forall>j t' v'. prods s j = PWrite t' v' \<longrightarrow> slot_of (mq s) t' = slot_of (mq s) t \<longrightarrow> j = i))"
proof (rule conjI [OF _ conjI])
  note inv = mpsc_reachable_inv [OF assms] and cap = mpsc_reachable_capacity [OF assms(1)]
  note sh = mpsc_invD(1) [OF inv] and sl = mpsc_invD(4) [OF inv]
  show "popped s = take (length (popped s)) (claims s)"
    and "length (claims s) - length (popped s) \<le> unat (round_up_power_of_two c)"
    using sh cap by (auto simp: shape_inv_def)
  have pw: "buf_at s (unat t) = None \<and> claims s ! unat t = v \<and>
      length (popped s) \<le> unat t \<and> unat t < length (popped s) + unat (mq_capacity (mq s))"
    if "prods s i = PWrite t v" for i t v
    using mpsc_invD(2) [OF inv, of i] sh that by (auto simp: prod_inv_def shape_inv_def)
  have "t = t'" if "prods s i = PWrite t v" "prods s j = PWrite t' v'"
    "slot_of (mq s) t' = slot_of (mq s) t" for i j t v t' v'
    using pw [OF that(1)] pw [OF that(2)] that(3)
      mod_window_distinct [of "unat t" "unat t'" "length (popped s)" "unat (mq_capacity (mq s))"]
    by (auto simp: slot_of_eq [OF sh] word_unat_eq_iff)
  then show "\<forall>i t v. prods s i = PWrite t v \<longrightarrow>
           mq_buffer (mq s) ! slot_of (mq s) t = None \<and> claims s ! unat t = v \<and>
           (\<forall>j t' v'. prods s j = PWrite t' v' \<longrightarrow> slot_of (mq s) t' = slot_of (mq s) t \<longrightarrow> j = i)"
    using pw sl by (simp add: slot_of_eq [OF sh] buf_at_def slots_inv_def)
qed

text \<open>
  The consumer is never stuck behind a finished push: in every reachable state in which it
  is between two calls and the oldest waiting value has been written, one more call of
  \<^verbatim>\<open>try_pop\<close> that is not interrupted returns that value.\<close>

theorem mpsc_pop_progress:
  assumes "mpsc_reachable c s" and "unat c \<le> 2 ^ 63" and "length (claims s) < 2 ^ 64"
    and "cons s = CIdle" and "length (popped s) < length (claims s)"
    and "\<forall>i t v. prods s i = PWrite t v \<longrightarrow> unat t \<noteq> length (popped s)"
  shows "\<exists>q'. mpsc_try_pop (mq s) = (Some (claims s ! length (popped s)), q') \<and>
    mpsc_step\<^sup>*\<^sup>* s (s\<lparr>mq := q', popped := popped s @ [claims s ! length (popped s)]\<rparr>)"
proof -
  note inv = mpsc_reachable_inv [OF assms(1-3)]
  note sh = mpsc_invD(1) [OF inv]
  have "buf_at s (length (popped s)) = Some (claims s ! length (popped s))"
    using mpsc_invD(4) [OF inv] assms(4-6)
    by (auto simp: slots_inv_def writing_def taken_def)
  then obtain q' where q': "mpsc_try_pop (mq s) = (Some (claims s ! length (popped s)), q')"
    using sh assms(5) slot_of_eq [OF sh, of "mq_head (mq s)"]
    by (auto simp: mpsc_try_pop_def Let_def buf_at_def slot_of_def shape_inv_def word_le_nat_alt)
  from mpsc_solo_pop [OF assms(4) q'] q' show ?thesis by auto
qed

text \<open>A run in which producer 0 stops after its load of \<^verbatim>\<open>tail_\<close> while producer 1 and the consumer go on.\<close>

definition stale_start :: "nat mpsc_state" where
  "stale_start = (mpsc_init 1)\<lparr>prods := (\<lambda>_. PIdle)(0 := PLoadHead 0 7)\<rparr>"

definition stale_full :: "nat mpsc_state" where
  "stale_full = stale_start\<lparr>mq := (MpscQueue 1)\<lparr>mq_head := 1, mq_tail := 1\<rparr>,
     claims := [5], popped := [5]\<rparr>"

definition stale_pushed :: "nat mpsc_state" where
  "stale_pushed = stale_start\<lparr>mq := (MpscQueue 1)\<lparr>mq_tail := 1, mq_buffer := [Some 5]\<rparr>, claims := [5]\<rparr>"

lemmas stale_defs = stale_start_def stale_full_def stale_pushed_def mpsc_init_def MpscQueue_def
  round_up_power_of_two_def Let_def

lemma stale_start_reachable: "mpsc_reachable 1 stale_start"
proof -
  have "mpsc_step (mpsc_init 1) stale_start"
    using push_load_tail [of "mpsc_init 1" 0 "7 :: nat"] by (simp add: stale_defs)
  then show ?thesis using mpsc_next mpsc_start by metis
qed

lemma stale_pushed_reachable: "mpsc_reachable 1 stale_pushed"
proof -
  have "mpsc_try_push 5 (mq stale_start) = (True, mq stale_pushed)"
    by (simp add: stale_defs mpsc_try_push_def)
  with mpsc_solo_push [of stale_start 1 5 True "mq stale_pushed"]
  have "mpsc_step\<^sup>*\<^sup>* stale_start stale_pushed" by (simp add: stale_defs)
  then show ?thesis using stale_start_reachable by (rule mpsc_reachable_steps)
qed

lemma stale_full_reachable: "mpsc_reachable 1 stale_full"
proof -
  have "mpsc_try_pop (mq stale_pushed) = (Some 5, mq stale_full)"
    by (simp add: stale_defs mpsc_try_pop_def)
  with mpsc_solo_pop [of stale_pushed "Some 5" "mq stale_full"]
  have "mpsc_step\<^sup>*\<^sup>* stale_pushed stale_full" by (simp add: stale_defs)
  then show ?thesis using stale_pushed_reachable by (rule mpsc_reachable_steps)
qed

text \<open>
  \<^verbatim>\<open>try_push\<close> can report a full queue although the queue is empty: a producer that loaded
  \<^verbatim>\<open>tail_\<close> before another producer and the consumer moved on computes \<^verbatim>\<open>tail - head\<close> with a head
  ahead of its tail, which wraps to a huge number.\<close>

theorem mpsc_spurious_full:
  "\<exists>(s :: nat mpsc_state) i t v s'. mpsc_reachable 1 s \<and> prods s i = PLoadHead t v \<and>
     mpsc_empty (mq s) \<and> length (claims s) = length (popped s) \<and>
     t - mq_head (mq s) \<ge> mq_capacity (mq s) \<and>
     s' = s\<lparr>prods := (prods s)(i := PIdle)\<rparr> \<and> mpsc_step s s'"
proof -
  have pc: "prods stale_full 0 = PLoadHead 0 7" and
    full: "0 - mq_head (mq stale_full) \<ge> mq_capacity (mq stale_full)"
    by (simp_all add: stale_defs)
  moreover have "mpsc_empty (mq stale_full)" "length (claims stale_full) = length (popped stale_full)"
    by (simp_all add: stale_defs mpsc_empty_def)
  ultimately show ?thesis using stale_full_reachable push_full [OF pc full] by blast
qed

theorem mpsc_fifo_interleaved_witness:
  "popped stale_full = take (length (popped stale_full)) (claims stale_full)
   \<and> length (claims stale_pushed) - length (popped stale_pushed) \<le> unat (round_up_power_of_two 1)"
  using mpsc_fifo_interleaved [OF stale_full_reachable]
    mpsc_fifo_interleaved [OF stale_pushed_reachable]
  by (simp add: stale_full_def stale_pushed_def)

theorem mpsc_pop_progress_witness:
  "\<exists>q'. mpsc_try_pop (mq stale_pushed) = (Some 5, q') \<and>
    mpsc_step\<^sup>*\<^sup>* stale_pushed (stale_pushed\<lparr>mq := q', popped := [5]\<rparr>)"
  using mpsc_pop_progress [OF stale_pushed_reachable]
  by (simp add: stale_pushed_def stale_start_def mpsc_init_def)

text \<open>
  Used without interleaving, a fresh \<^verbatim>\<open>MpscQueue\<close> returns for every sequence of
  \<^verbatim>\<open>try_push\<close> and \<^verbatim>\<open>try_pop\<close> what a list bounded by the rounded-up capacity returns, and ends with
  that list as its contents.\<close>

theorem mpsc_is_fifo:
  fixes ops :: "'a fifo_op list"
  assumes "unat c \<le> 2 ^ 63" and "length ops < 2 ^ 64"
  shows "map_prod id mpsc_contents (fifo_run mpsc_try_push mpsc_try_pop (MpscQueue c) ops)
    = fifo_run (spec_push (unat (round_up_power_of_two c))) spec_pop [] ops"
proof -
  let ?q = "MpscQueue c :: 'a mpsc_queue"
  obtain rs q' where r: "fifo_run mpsc_try_push mpsc_try_pop ?q ops = (rs, q')"
    by (cases "fifo_run mpsc_try_push mpsc_try_pop ?q ops")
  have inv: "mpsc_seq_inv (length ops + 0) ?q" and nil: "mpsc_contents ?q = []"
    and cap: "mq_capacity ?q = round_up_power_of_two c"
    using MpscQueue_seq_inv [OF assms(1), of "length ops"] assms(2)
    by (simp_all add: MpscQueue_def Let_def)
  from mpsc.run_refines [OF inv r] show ?thesis by (simp add: r nil cap)
qed

theorem mpsc_is_fifo_witness:
  "fst (fifo_run mpsc_try_push mpsc_try_pop (MpscQueue 2) [Push (4 :: nat), Push 5, Push 6, Pop, Pop, Pop])
   = [Pushed True, Pushed True, Pushed False, Popped (Some 4), Popped (Some 5), Popped None]"
    (is "fst (fifo_run _ _ _ ?ops) = _")
proof -
  have "round_up_power_of_two 2 = 2" by code_simp
  with mpsc_is_fifo [of 2 ?ops] show ?thesis
    by (auto simp: spec_push_def spec_pop_def map_prod_def split: prod.splits)
qed

end
