(* ===== verification/Block_Pool.thy ===== *)
theory Block_Pool
  imports Usn_Prelude
begin

text \<open>
  The contract of a pool of equal blocks, which \<^verbatim>\<open>MemoryPool\<close> and \<^verbatim>\<open>ZeroCopyMemoryPool\<close> both keep,
  and what any client that frees only what it holds can rely on. An operation that has undefined
  behaviour in C++ (an index outside a vector) is \<open>None\<close>. The theory also holds the lemmas on the
  index-linked free list that both implementations use.
\<close>

section \<open>Blocks of a region\<close>

definition blocks :: "ptr \<Rightarrow> nat \<Rightarrow> nat \<Rightarrow> ptr set" where
  "blocks base bs n = (\<lambda>i. base + i * bs) ` {..<n}"

lemma inj_blocks: "0 < bs \<Longrightarrow> inj_on (\<lambda>i. base + i * bs) A" for base bs :: nat
  by (auto simp: inj_on_def)

lemma card_blocks: "0 < bs \<Longrightarrow> card (blocks base bs n) = n"
  by (simp add: blocks_def card_image inj_blocks)

lemma block_in: "i < n \<Longrightarrow> base + i * bs \<in> blocks base bs n"
  by (auto simp: blocks_def)

lemma blocks_apart:
  assumes "a \<in> blocks base bs n" "b \<in> blocks base bs n" "a \<noteq> b"
  shows "a + bs \<le> b \<or> b + bs \<le> a"
proof -
  from assms obtain i j where ij: "a = base + i * bs" "b = base + j * bs" "i \<noteq> j"
    by (auto simp: blocks_def)
  then consider "Suc i \<le> j" | "Suc j \<le> i" by linarith
  then show ?thesis
  proof cases
    case 1
    then have "Suc i * bs \<le> j * bs" by (rule mult_le_mono1)
    then show ?thesis by (simp add: ij)
  next
    case 2
    then have "Suc j * bs \<le> i * bs" by (rule mult_le_mono1)
    then show ?thesis by (simp add: ij)
  qed
qed

lemma blocks_inside:
  assumes "a \<in> blocks base bs n"
  shows "base \<le> a \<and> a + bs \<le> base + n * bs"
proof -
  from assms obtain i where i: "i < n" "a = base + i * bs" unfolding blocks_def by auto
  from i(1) have "Suc i \<le> n" by simp
  then have "Suc i * bs \<le> n * bs" by (rule mult_le_mono1)
  then show ?thesis by (simp add: i(2))
qed

lemma distinct_without_nth:
  assumes "distinct xs" "k < length xs"
  shows "distinct (take k xs @ drop (Suc k) xs)"
    and "set (take k xs @ drop (Suc k) xs) = set xs - {xs ! k}"
proof -
  have "distinct (take k xs @ xs ! k # drop (Suc k) xs)"
    and "set xs = set (take k xs @ xs ! k # drop (Suc k) xs)"
    using assms by (simp_all flip: id_take_nth_drop)
  then show "distinct (take k xs @ drop (Suc k) xs)"
    and "set (take k xs @ drop (Suc k) xs) = set xs - {xs ! k}"
    by (simp, auto)
qed

section \<open>The contract\<close>

text \<open>
  A client holds blocks and either asks for one more or frees one of those it holds (by its place
  in the list; a place that does not exist is skipped).
\<close>

datatype pool_op = Alloc | Free nat

fun pool_run :: "('p \<Rightarrow> (ptr \<times> 'p) option) \<Rightarrow> (ptr \<Rightarrow> 'p \<Rightarrow> 'p option) \<Rightarrow>
    'p \<Rightarrow> ptr list \<Rightarrow> pool_op list \<Rightarrow> ('p \<times> ptr list) option" where
  "pool_run alloc dealloc p held [] = Some (p, held)"
| "pool_run alloc dealloc p held (Alloc # ops) =
     (case alloc p of
        None \<Rightarrow> None
      | Some (b, p') \<Rightarrow> pool_run alloc dealloc p' (if b = nullptr then held else b # held) ops)"
| "pool_run alloc dealloc p held (Free k # ops) =
     (if k < length held then
        case dealloc (held ! k) p of
          None \<Rightarrow> None
        | Some p' \<Rightarrow> pool_run alloc dealloc p' (take k held @ drop (Suc k) held) ops
      else pool_run alloc dealloc p held ops)"

text \<open>
  \<open>inv p free live\<close>: the pool will hand out \<open>free\<close>, in this order, and has handed out \<open>live\<close>.
\<close>

locale block_pool =
  fixes alloc :: "'p \<Rightarrow> (ptr \<times> 'p) option"
    and dealloc :: "ptr \<Rightarrow> 'p \<Rightarrow> 'p option"
    and inv :: "'p \<Rightarrow> ptr list \<Rightarrow> ptr set \<Rightarrow> bool"
    and base :: "'p \<Rightarrow> ptr"
    and bsize :: "'p \<Rightarrow> nat"
    and count :: "'p \<Rightarrow> nat"
  assumes geometry: "inv p free live \<Longrightarrow> 0 < base p \<and> 0 < bsize p \<and> distinct free \<and>
      set free \<inter> live = {} \<and> set free \<union> live = blocks (base p) (bsize p) (count p)"
    and alloc_empty: "inv p [] live \<Longrightarrow> alloc p = Some (nullptr, p)"
    and alloc_block: "inv p (b # free) live \<Longrightarrow> \<exists>p'. alloc p = Some (b, p') \<and>
      inv p' free (insert b live) \<and> base p' = base p \<and> bsize p' = bsize p \<and> count p' = count p"
    and dealloc_live: "inv p free live \<Longrightarrow> b \<in> live \<Longrightarrow> \<exists>p'. dealloc b p = Some p' \<and>
      inv p' (b # free) (live - {b}) \<and> base p' = base p \<and> bsize p' = bsize p \<and> count p' = count p"
begin

lemma not_null: "inv p free live \<Longrightarrow> b \<in> set free \<union> live \<Longrightarrow> b \<noteq> nullptr"
  using geometry [of p free live] by (auto simp: blocks_def)

lemma conservation:
  assumes "inv p free (set held)" "distinct held"
  shows "length free + length held = count p"
proof -
  note g = geometry [OF assms(1)]
  then have "card (set free \<union> set held) = count p" by (simp add: card_blocks)
  moreover have "card (set free \<union> set held) = length free + length held"
    using g assms(2) by (subst card_Un_disjoint) (simp_all add: distinct_card)
  ultimately show ?thesis by simp
qed

lemma alloc_null_iff:
  assumes "inv p free (set held)" "distinct held"
  shows "\<exists>b p'. alloc p = Some (b, p') \<and> (b = nullptr \<longleftrightarrow> length held = count p)"
proof (cases free)
  case Nil
  then show ?thesis using alloc_empty assms conservation [OF assms] by auto
next
  case (Cons b fs)
  then obtain p' where "alloc p = Some (b, p')" using alloc_block assms(1) by blast
  moreover have "b \<noteq> nullptr" using not_null [OF assms(1), of b] Cons by simp
  ultimately show ?thesis using conservation [OF assms] Cons by auto
qed

text \<open>Taking a block and giving it back leaves the pool ready to hand out the same block.\<close>

lemma borrow:
  assumes "inv p (b # free) live"
  obtains p' p'' where "alloc p = Some (b, p')" "dealloc b p' = Some p''" "inv p'' (b # free) live" "b \<noteq> nullptr"
proof -
  obtain p' where p': "alloc p = Some (b, p')" "inv p' free (insert b live)"
    using alloc_block [OF assms] by blast
  obtain p'' where p'': "dealloc b p' = Some p''" "inv p'' (b # free) (insert b live - {b})"
    using dealloc_live [OF p'(2), of b] by blast
  have "b \<notin> live" "b \<noteq> nullptr" using geometry [OF assms] not_null [OF assms] by auto
  then show ?thesis using p' p'' that [of p' p''] by simp
qed

text \<open>Every such client runs without undefined behaviour and never holds a block twice.\<close>

lemma run_ok:
  assumes "inv p free (set held)" and "distinct held"
  shows "\<exists>p' held' free'. pool_run alloc dealloc p held ops = Some (p', held') \<and>
    inv p' free' (set held') \<and> distinct held' \<and>
    base p' = base p \<and> bsize p' = bsize p \<and> count p' = count p"
  using assms
proof (induction ops arbitrary: p free held)
  case (Cons op ops)
  show ?case
  proof (cases op)
    case Alloc
    show ?thesis
    proof (cases free)
      case Nil
      then show ?thesis using Alloc Cons alloc_empty by auto
    next
      case (Cons b fs)
      with alloc_block [of p b fs "set held"] Cons.prems(1) obtain p1 where
        p1: "alloc p = Some (b, p1)" "inv p1 fs (set (b # held))"
          "base p1 = base p" "bsize p1 = bsize p" "count p1 = count p" by auto
      have "b \<noteq> nullptr" "b \<notin> set held"
        using not_null [OF Cons.prems(1)] geometry [OF Cons.prems(1)] Cons by auto
      with Cons.IH [OF p1(2)] Cons.prems(2) p1 Alloc show ?thesis by simp
    qed
  next
    case (Free k)
    show ?thesis
    proof (cases "k < length held")
      case True
      note d = distinct_without_nth [OF Cons.prems(2) True]
      from dealloc_live Cons.prems(1) True obtain p1 where
        p1: "dealloc (held ! k) p = Some p1" "inv p1 (held ! k # free) (set held - {held ! k})"
          "base p1 = base p" "bsize p1 = bsize p" "count p1 = count p" by (metis nth_mem)
      with Cons.IH [of p1 "held ! k # free" "take k held @ drop (Suc k) held"] d Free True
      show ?thesis by simp
    qed (use Free Cons in auto)
  qed
qed auto

end

section \<open>A free list linked by indices\<close>

text \<open>\<open>chain fl nf is\<close>: starting at \<open>nf\<close>, the list \<open>fl\<close> links the blocks \<open>is\<close> and then ends.\<close>

fun chain :: "size_type list \<Rightarrow> size_type \<Rightarrow> nat list \<Rightarrow> bool" where
  "chain fl nf [] \<longleftrightarrow> nf = SIZE_MAX"
| "chain fl nf (i # is) \<longleftrightarrow> nf = of_nat i \<and> i < length fl \<and> chain fl (fl ! i) is"

lemma chain_update: "i \<notin> set is \<Longrightarrow> chain (fl[i := x]) nf is \<longleftrightarrow> chain fl nf is"
  by (induction "is" arbitrary: nf) auto

lemma chain_bound: "chain fl nf is \<Longrightarrow> i \<in> set is \<Longrightarrow> i < length fl"
  by (induction "is" arbitrary: nf) auto

lemma unat_index: "i < n \<Longrightarrow> n < 2 ^ 64 \<Longrightarrow> unat (of_nat i :: size_type) = i"
  by (simp add: unat_of_nat_small)

lemma unat_SIZE_MAX [simp]: "unat (SIZE_MAX :: size_type) = 2 ^ 64 - 1"
  by (simp add: unsigned_minus_1_eq_mask mask_eq_exp_minus_1)

lemma index_not_max:
  assumes "i < n" "n < 2 ^ 64"
  shows "(of_nat i :: size_type) \<noteq> SIZE_MAX"
proof
  assume "(of_nat i :: size_type) = SIZE_MAX"
  then have "i = 2 ^ 64 - 1" using unat_index [OF assms] by simp
  then show False using assms by simp
qed

text \<open>The list that both constructors build links all blocks in order.\<close>

definition linked :: "nat \<Rightarrow> size_type list" where
  "linked n = map (\<lambda>i. of_nat (Suc i)) [0..<n - 1] @ [SIZE_MAX]"

lemma init_free_list:
  assumes "0 < n"
  shows "(fold (\<lambda>i fl. fl[i := of_nat i + 1]) [0..<n - 1] (replicate n (0 :: size_type)))
    [n - 1 := SIZE_MAX] = linked n"
proof -
  have "fold (\<lambda>i fl. fl[i := of_nat i + 1]) [0..<k] (replicate n (0 :: size_type))
      = map (\<lambda>i. of_nat (Suc i)) [0..<k] @ replicate (n - k) 0" if "k < n" for k
    using that
  proof (induction k)
    case (Suc k)
    then have "replicate (n - k) (0 :: size_type) = 0 # replicate (n - Suc k) 0"
      by (metis Suc_diff_Suc Suc_lessD replicate_Suc)
    with Suc show ?case by (simp add: list_update_append ac_simps)
  qed simp
  from this [of "n - 1"] assms show ?thesis by (simp add: linked_def list_update_append)
qed

lemma linked_chain:
  assumes "0 < n"
  shows "chain (linked n) 0 [0..<n]"
proof -
  have "chain (linked n) (of_nat k) [k..<n]" if "k < n" for k
    using that
  proof (induction "n - k" arbitrary: k)
    case (Suc d)
    show ?case
    proof (cases "Suc k = n")
      case True
      then have "[k..<n] = [k]" by (simp add: upt_conv_Cons)
      then show ?thesis using True by (auto simp: linked_def nth_append)
    next
      case False
      then have "linked n ! k = of_nat (Suc k)" using Suc by (auto simp: linked_def nth_append)
      moreover have "chain (linked n) (of_nat (Suc k)) [Suc k..<n]"
        using Suc False by (intro Suc.hyps(1)) auto
      ultimately show ?thesis using Suc.prems by (simp add: upt_conv_Cons linked_def)
    qed
  qed simp
  from this [of 0] assms show ?thesis by simp
qed

end
