(* ===== verification/Memory_Pool.thy ===== *)
theory Memory_Pool
  imports Block_Pool
begin

text \<open>
  \<^verbatim>\<open>MemoryPool\<close> of \<^verbatim>\<open>core/memory_pool.hpp\<close>: one vector of bytes cut into equal blocks, and a free
  list of block indices. The address of the vector's storage is an argument of the constructor.
  Undefined behaviour (an index outside \<^verbatim>\<open>free_list_\<close>, a division by zero) is \<open>None\<close>.
\<close>

section \<open>State and operations\<close>

record memory_pool =
  mp_block_size :: size_type
  mp_num_blocks :: size_type
  mp_data :: ptr
  mp_size :: size_type
  mp_free_list :: "size_type list"
  mp_next_free :: size_type

text \<open>
  With no blocks at all the loop bound \<^verbatim>\<open>num_blocks - 1\<close> wraps and the constructor writes outside
  \<^verbatim>\<open>free_list_\<close>.
\<close>

definition MemoryPool :: "ptr \<Rightarrow> size_type \<Rightarrow> size_type \<Rightarrow> memory_pool option" where
  "MemoryPool storage block_size num_blocks =
     (if num_blocks = 0 then None
      else Some \<lparr>mp_block_size = block_size, mp_num_blocks = num_blocks, mp_data = storage,
                 mp_size = block_size * num_blocks,
                 mp_free_list =
                   (fold (\<lambda>i fl. fl[i := of_nat i + 1]) [0..<unat num_blocks - 1]
                      (replicate (unat num_blocks) 0))[unat num_blocks - 1 := SIZE_MAX],
                 mp_next_free = 0\<rparr>)"

definition mp_allocate :: "memory_pool \<Rightarrow> (ptr \<times> memory_pool) option" where
  "mp_allocate p =
     (if mp_next_free p = SIZE_MAX then Some (nullptr, p)
      else
        let index = mp_next_free p in
        if unat index < length (mp_free_list p) then
          Some (mp_data p + unat (index * mp_block_size p),
                p\<lparr>mp_next_free := mp_free_list p ! unat index\<rparr>)
        else None)"

definition mp_deallocate :: "ptr \<Rightarrow> memory_pool \<Rightarrow> memory_pool option" where
  "mp_deallocate q p =
     (if q < mp_data p \<or> q \<ge> mp_data p + unat (mp_size p) then Some p
      else if mp_block_size p = 0 then None
      else
        let index = of_nat (q - mp_data p) div mp_block_size p in
        if unat index < length (mp_free_list p) then
          Some (p\<lparr>mp_free_list := (mp_free_list p)[unat index := mp_next_free p],
                  mp_next_free := index\<rparr>)
        else None)"

function mp_available_loop :: "memory_pool \<Rightarrow> size_type \<Rightarrow> size_type \<Rightarrow> size_type option" where
  "mp_available_loop p count current =
     (if current \<noteq> SIZE_MAX \<and> count < mp_num_blocks p then
        if unat current < length (mp_free_list p)
        then mp_available_loop p (count + 1) (mp_free_list p ! unat current)
        else None
      else Some count)"
  by pat_completeness auto

termination
proof (relation "measure (\<lambda>(p, count, current). unat (mp_num_blocks p) - unat count)")
  fix p :: memory_pool and count current :: size_type
  assume "current \<noteq> SIZE_MAX \<and> count < mp_num_blocks p"
  then have "unat count < unat (mp_num_blocks p)" "unat (count + 1) = Suc (unat count)"
    by (auto simp: word_less_nat_alt intro: unat_Suc_less)
  then show "((p, count + 1, mp_free_list p ! unat current), p, count, current)
      \<in> measure (\<lambda>(p, count, current). unat (mp_num_blocks p) - unat count)" by simp
qed simp

declare mp_available_loop.simps [simp del]

definition mp_available :: "memory_pool \<Rightarrow> size_type option" where
  "mp_available p = mp_available_loop p 0 (mp_next_free p)"

section \<open>Invariant\<close>

definition mp_block :: "memory_pool \<Rightarrow> nat \<Rightarrow> ptr" where
  "mp_block p i = mp_data p + i * unat (mp_block_size p)"

definition mp_shape :: "memory_pool \<Rightarrow> bool" where
  "mp_shape p \<longleftrightarrow>
     0 < mp_data p \<and> 0 < unat (mp_block_size p) \<and> length (mp_free_list p) = unat (mp_num_blocks p) \<and>
     unat (mp_block_size p) * unat (mp_num_blocks p) < 2 ^ 64 \<and>
     mp_size p = mp_block_size p * mp_num_blocks p"

definition mp_inv :: "memory_pool \<Rightarrow> ptr list \<Rightarrow> ptr set \<Rightarrow> bool" where
  "mp_inv p free live \<longleftrightarrow> mp_shape p \<and>
     (\<exists>is. chain (mp_free_list p) (mp_next_free p) is \<and> distinct is \<and>
           free = map (mp_block p) is \<and> live = mp_block p ` ({..<unat (mp_num_blocks p)} - set is))"

lemma mp_shape_size: "mp_shape p \<Longrightarrow> unat (mp_size p) = unat (mp_num_blocks p) * unat (mp_block_size p)"
  by (simp add: mp_shape_def unat_mult_no_wrap mult.commute)

text \<open>The address computed for a block and the index computed back from it do not wrap.\<close>

lemma mp_block_offset:
  assumes sh: "mp_shape p" and i: "i < unat (mp_num_blocks p)"
  shows "mp_data p + unat (of_nat i * mp_block_size p) = mp_block p i"
    and "mp_data p \<le> mp_block p i" and "mp_block p i < mp_data p + unat (mp_size p)"
    and "unat (of_nat (mp_block p i - mp_data p) div mp_block_size p) = i"
proof -
  have le: "i * unat (mp_block_size p) < unat (mp_num_blocks p) * unat (mp_block_size p)"
    using sh i by (simp add: mp_shape_def)
  moreover have "unat (mp_num_blocks p) * unat (mp_block_size p) < 2 ^ 64"
    using sh by (simp add: mp_shape_def mult.commute)
  ultimately have lt: "i * unat (mp_block_size p) < 2 ^ 64" by (rule less_trans)
  have ui: "unat (of_nat i :: size_type) = i"
    by (rule unat_index [OF i]) simp
  show "mp_data p + unat (of_nat i * mp_block_size p) = mp_block p i"
    using lt ui by (simp add: mp_block_def unat_mult_no_wrap)
  show "mp_data p \<le> mp_block p i" "mp_block p i < mp_data p + unat (mp_size p)"
    using le by (simp_all add: mp_block_def mp_shape_size [OF sh])
  show "unat (of_nat (mp_block p i - mp_data p) div mp_block_size p) = i"
    using sh lt ui by (simp add: mp_block_def unat_div unat_mult_no_wrap mp_shape_def)
qed

lemma mp_block_inj: "mp_shape p \<Longrightarrow> mp_block p i = mp_block p j \<longleftrightarrow> i = j"
  by (simp add: mp_block_def mp_shape_def)

lemma mp_block_cong [simp]:
  "mp_block (p\<lparr>mp_next_free := x\<rparr>) = mp_block p"
  "mp_block (p\<lparr>mp_free_list := fl\<rparr>) = mp_block p"
  by (simp_all add: mp_block_def fun_eq_iff)

lemma mp_blocks_image: "mp_block p ` {..<n} = blocks (mp_data p) (unat (mp_block_size p)) n"
  by (simp add: mp_block_def blocks_def)

lemma mp_invE:
  assumes "mp_inv p free live"
  obtains "is" where "mp_shape p" "chain (mp_free_list p) (mp_next_free p) is" "distinct is"
    "free = map (mp_block p) is" "live = mp_block p ` ({..<unat (mp_num_blocks p)} - set is)"
    "\<And>i. i \<in> set is \<Longrightarrow> i < unat (mp_num_blocks p)"
proof -
  from assms obtain "is" where c: "mp_shape p" "chain (mp_free_list p) (mp_next_free p) is" "distinct is"
    "free = map (mp_block p) is" "live = mp_block p ` ({..<unat (mp_num_blocks p)} - set is)"
    unfolding mp_inv_def by blast
  with chain_bound [OF c(2)] show thesis by (intro that [of "is"]) (auto simp: mp_shape_def)
qed

lemma MemoryPool_inv:
  assumes "MemoryPool storage bs n = Some p" and "0 < storage" "0 < bs"
    and "unat bs * unat n < 2 ^ 64"
  shows "mp_inv p (map (mp_block p) [0..<unat n]) {}"
    and "mp_data p = storage \<and> mp_block_size p = bs \<and> mp_num_blocks p = n"
proof -
  have n: "0 < unat n" using assms(1) by (auto simp: MemoryPool_def unat_gt_0 split: if_splits)
  show "mp_data p = storage \<and> mp_block_size p = bs \<and> mp_num_blocks p = n"
    using assms(1) by (auto simp: MemoryPool_def split: if_splits)
  have p: "p = \<lparr>mp_block_size = bs, mp_num_blocks = n, mp_data = storage, mp_size = bs * n,
      mp_free_list = linked (unat n), mp_next_free = 0\<rparr>"
    using assms(1) init_free_list [OF n] by (auto simp: MemoryPool_def split: if_splits)
  have "mp_shape p"
    using assms(2-4) n by (simp add: p mp_shape_def linked_def word_less_nat_alt)
  moreover have "chain (mp_free_list p) (mp_next_free p) [0..<unat n]"
    using linked_chain [OF n] by (simp add: p)
  ultimately show "mp_inv p (map (mp_block p) [0..<unat n]) {}"
    by (auto simp: mp_inv_def p intro!: exI [of _ "[0..<unat n]"])
qed

lemma mp_alloc_empty: "mp_inv p [] live \<Longrightarrow> mp_allocate p = Some (nullptr, p)"
  by (auto simp: mp_inv_def mp_allocate_def)

lemma mp_alloc_block:
  assumes "mp_inv p (b # free) live"
  shows "\<exists>p'. mp_allocate p = Some (b, p') \<and> mp_inv p' free (insert b live) \<and>
    mp_data p' = mp_data p \<and> mp_block_size p' = mp_block_size p \<and> mp_num_blocks p' = mp_num_blocks p"
proof -
  from assms obtain i "is" where c: "mp_shape p" "chain (mp_free_list p) (mp_next_free p) (i # is)"
    "distinct (i # is)" "b = mp_block p i" "free = map (mp_block p) is"
    "live = mp_block p ` ({..<unat (mp_num_blocks p)} - set (i # is))"
    "i < unat (mp_num_blocks p)"
    by (elim mp_invE) (auto simp: Cons_eq_map_conv)
  have ui: "unat (of_nat i :: size_type) = i" "(of_nat i :: size_type) \<noteq> SIZE_MAX"
    using unat_index [OF c(7)] index_not_max [OF c(7)] by simp_all
  let ?p' = "p\<lparr>mp_next_free := mp_free_list p ! i\<rparr>"
  have "mp_allocate p = Some (b, ?p')"
    using c ui mp_block_offset(1) [OF c(1,7)] by (simp add: mp_allocate_def Let_def)
  moreover have "mp_inv ?p' free (insert b live)"
    using c unfolding mp_inv_def by (auto simp: mp_shape_def intro!: exI [of _ "is"])
  ultimately show ?thesis by auto
qed

lemma mp_dealloc_live:
  assumes "mp_inv p free live" and "b \<in> live"
  shows "\<exists>p'. mp_deallocate b p = Some p' \<and> mp_inv p' (b # free) (live - {b}) \<and>
    mp_data p' = mp_data p \<and> mp_block_size p' = mp_block_size p \<and> mp_num_blocks p' = mp_num_blocks p"
proof -
  from assms(1) obtain "is" where c: "mp_shape p" "chain (mp_free_list p) (mp_next_free p) is"
    "distinct is" "free = map (mp_block p) is"
    "live = mp_block p ` ({..<unat (mp_num_blocks p)} - set is)"
    by (elim mp_invE)
  from assms(2) c(5) obtain i where i: "b = mp_block p i" "i < unat (mp_num_blocks p)" "i \<notin> set is"
    by auto
  let ?p' = "p\<lparr>mp_free_list := (mp_free_list p)[i := mp_next_free p], mp_next_free := of_nat i\<rparr>"
  note off = mp_block_offset [OF c(1) i(2)]
  have "(of_nat (b - mp_data p) div mp_block_size p :: size_type) = of_nat i"
    using off(4) unat_index [OF i(2)] by (simp add: i(1) word_unat_eq_iff)
  then have "mp_deallocate b p = Some ?p'"
    using c(1) i off(2,3) unat_index [OF i(2)]
    by (auto simp: mp_deallocate_def mp_shape_def)
  moreover have "mp_inv ?p' (b # free) (live - {b})"
    using c i mp_block_inj [OF c(1)] unfolding mp_inv_def
    by (auto simp: mp_shape_def chain_update intro!: exI [of _ "i # is"])
  ultimately show ?thesis by auto
qed

interpretation mpool: block_pool mp_allocate mp_deallocate mp_inv mp_data
    "\<lambda>p. unat (mp_block_size p)" "\<lambda>p. unat (mp_num_blocks p)"
proof
  fix p free live b
  show "0 < mp_data p \<and> 0 < unat (mp_block_size p) \<and> distinct free \<and> set free \<inter> live = {} \<and>
      set free \<union> live = blocks (mp_data p) (unat (mp_block_size p)) (unat (mp_num_blocks p))"
    if inv: "mp_inv p free live"
  proof -
    from inv obtain "is" where c: "mp_shape p" "distinct is" "free = map (mp_block p) is"
      "live = mp_block p ` ({..<unat (mp_num_blocks p)} - set is)"
      "\<And>i. i \<in> set is \<Longrightarrow> i < unat (mp_num_blocks p)" by (elim mp_invE) auto
    then have "set free \<union> live = mp_block p ` {..<unat (mp_num_blocks p)}" by auto
    moreover have "distinct free" "set free \<inter> live = {}"
      using c mp_block_inj [OF c(1)] by (auto simp: distinct_map inj_on_def)
    ultimately show ?thesis using c(1) by (simp add: mp_blocks_image mp_shape_def)
  qed
  show "mp_inv p [] live \<Longrightarrow> mp_allocate p = Some (nullptr, p)" by (rule mp_alloc_empty)
qed (use mp_alloc_block mp_dealloc_live in fastforce)+

section \<open>Correctness\<close>

lemma mp_available_loop_chain:
  assumes "chain (mp_free_list p) current is" "length (mp_free_list p) = unat (mp_num_blocks p)"
    and "unat count + length is \<le> unat (mp_num_blocks p)"
  shows "mp_available_loop p count current = Some (count + of_nat (length is))"
  using assms
proof (induction "is" arbitrary: count current)
  case (Cons i "is")
  then have i: "i < unat (mp_num_blocks p)" "current = of_nat i" by auto
  have lt: "count < mp_num_blocks p" using Cons.prems(3) by (simp add: word_less_nat_alt)
  then have "unat (count + 1) = Suc (unat count)" by (rule unat_Suc_less)
  with Cons have "mp_available_loop p (count + 1) (mp_free_list p ! i)
      = Some (count + 1 + of_nat (length is))" by simp
  then show ?case using i lt unat_index [OF i(1)] index_not_max [OF i(1)] Cons.prems(2)
    by (simp add: mp_available_loop.simps [of p count] ac_simps)
qed (simp add: mp_available_loop.simps)

lemma mp_available_spec:
  assumes "mp_inv p free live"
  shows "mp_available p = Some (of_nat (length free))"
proof -
  from assms obtain "is" where c: "chain (mp_free_list p) (mp_next_free p) is" "mp_shape p"
    "distinct is" "free = map (mp_block p) is" "\<And>i. i \<in> set is \<Longrightarrow> i < unat (mp_num_blocks p)"
    by (elim mp_invE) auto
  have "length is \<le> unat (mp_num_blocks p)"
    using c(3,5) by (metis card_lessThan card_mono distinct_card finite_lessThan lessThan_iff subsetI)
  with mp_available_loop_chain [OF c(1), of 0] c show ?thesis
    by (simp add: mp_available_def mp_shape_def)
qed

text \<open>
  \<^bold>\<open>C13\<close>. A client of a fresh \<^verbatim>\<open>MemoryPool\<close> that frees only blocks it holds never runs into undefined
  behaviour. The blocks it holds at any time are distinct, lie inside the pool's storage and do
  not overlap; the next \<^verbatim>\<open>allocate\<close> returns \<^verbatim>\<open>nullptr\<close> exactly when it holds all of them, and
  \<^verbatim>\<open>available\<close> counts the others.\<close>

theorem memory_pool_safe:
  assumes "MemoryPool storage bs n = Some p" and "0 < storage" and "0 < bs"
    and "unat bs * unat n < 2 ^ 64"
  shows "\<exists>p' held. pool_run mp_allocate mp_deallocate p [] ops = Some (p', held) \<and> distinct held \<and>
    (\<forall>a\<in>set held. storage \<le> a \<and> a + unat bs \<le> storage + unat n * unat bs) \<and>
    (\<forall>a\<in>set held. \<forall>b\<in>set held. a \<noteq> b \<longrightarrow> a + unat bs \<le> b \<or> b + unat bs \<le> a) \<and>
    (\<exists>b p''. mp_allocate p' = Some (b, p'') \<and> (b = nullptr \<longleftrightarrow> length held = unat n)) \<and>
    mp_available p' = Some (n - of_nat (length held))"
proof -
  note new = MemoryPool_inv [OF assms]
  have "mp_inv p (map (mp_block p) [0..<unat n]) (set [])" using new(1) by simp
  from mpool.run_ok [OF this, of ops] new(2) obtain p' held free where
    run: "pool_run mp_allocate mp_deallocate p [] ops = Some (p', held)" "distinct held" and
    inv: "mp_inv p' free (set held)" and
    geo: "mp_data p' = storage" "unat (mp_block_size p') = unat bs" "unat (mp_num_blocks p') = unat n"
    by auto
  have len: "length free + length held = unat n"
    using mpool.conservation [OF inv run(2)] geo by simp
  have av: "mp_available p' = Some (n - of_nat (length held))"
  proof -
    have "n = of_nat (length free + length held)" by (simp add: len)
    then have "of_nat (length free) = n - of_nat (length held)" by simp
    then show ?thesis using mp_available_spec [OF inv] by simp
  qed
  have sub: "set held \<subseteq> blocks storage (unat bs) (unat n)"
    using mpool.geometry [OF inv] geo by auto
  show ?thesis
    using run av sub mpool.alloc_null_iff [OF inv run(2)] geo
      blocks_inside [of _ storage "unat bs" "unat n"] blocks_apart [of _ storage "unat bs" "unat n"]
    by (intro exI [of _ p'] exI [of _ held]) (simp add: subset_iff)
qed

theorem memory_pool_safe_witness:
  "\<exists>p p' held. MemoryPool 4096 64 2 = Some p \<and>
     pool_run mp_allocate mp_deallocate p [] [Alloc, Alloc, Alloc, Free 1, Alloc] = Some (p', held) \<and>
     distinct held \<and> mp_available p' = Some (2 - of_nat (length held))"
proof -
  obtain p where "MemoryPool 4096 64 2 = Some p" by (simp add: MemoryPool_def)
  with memory_pool_safe [OF this, of "[Alloc, Alloc, Alloc, Free 1, Alloc]"] show ?thesis by auto
qed

text \<open>
  Freeing the block that was allocated last restores the pool exactly, and a freed block is
  the next one to be handed out (the free list is a stack).\<close>

theorem memory_pool_lifo:
  assumes "mp_inv p (b # free) live"
  shows "(\<exists>p'. mp_allocate p = Some (b, p') \<and> mp_deallocate b p' = Some p) \<and>
    (c \<in> live \<longrightarrow> (\<exists>p' p''. mp_deallocate c p = Some p' \<and> mp_allocate p' = Some (c, p'') \<and>
           mp_inv p'' (b # free) live))"
proof (rule conjI [OF _ impI])
  from assms obtain i "is" where c: "mp_shape p" "chain (mp_free_list p) (mp_next_free p) (i # is)"
    "b = mp_block p i" "i < unat (mp_num_blocks p)"
    by (elim mp_invE) (auto simp: Cons_eq_map_conv)
  note off = mp_block_offset [OF c(1,4)] and ui = unat_index [OF c(4)] index_not_max [OF c(4)]
  have "(of_nat (b - mp_data p) div mp_block_size p :: size_type) = of_nat i"
    using off(4) ui by (simp add: c(3) word_unat_eq_iff)
  then show "\<exists>p'. mp_allocate p = Some (b, p') \<and> mp_deallocate b p' = Some p"
    using c ui off(1-3) by (auto simp: mp_allocate_def mp_deallocate_def mp_shape_def Let_def)
  assume live: "c \<in> live"
  from mp_dealloc_live [OF assms live] obtain p' where
    p': "mp_deallocate c p = Some p'" "mp_inv p' (c # b # free) (live - {c})" by auto
  from mp_alloc_block [OF p'(2)] live
  show "\<exists>p' p''. mp_deallocate c p = Some p' \<and> mp_allocate p' = Some (c, p'') \<and>
      mp_inv p'' (b # free) live" using p'(1) by (auto simp: insert_absorb)
qed

text \<open>
  Freeing a block twice links it to itself: from then on every \<^verbatim>\<open>allocate\<close> returns this same
  block, the rest of the free list is lost, and \<^verbatim>\<open>available\<close> reports a pool with all blocks free.\<close>

theorem memory_pool_double_free:
  assumes "mp_inv p free live" and "b \<in> live"
  shows "\<exists>p1 p2. mp_deallocate b p = Some p1 \<and> mp_deallocate b p1 = Some p2 \<and>
    mp_allocate p2 = Some (b, p2) \<and> mp_available p2 = Some (mp_num_blocks p)"
proof -
  from assms(1) obtain "is" where c: "mp_shape p"
    "live = mp_block p ` ({..<unat (mp_num_blocks p)} - set is)" by (elim mp_invE)
  with assms(2) obtain i where i: "b = mp_block p i" "i < unat (mp_num_blocks p)" by auto
  note off = mp_block_offset [OF c(1) i(2)] and ui = unat_index [OF i(2)] index_not_max [OF i(2)]
  have idx: "(of_nat (b - mp_data p) div mp_block_size p :: size_type) = of_nat i"
    using off(4) ui by (simp add: i(1) word_unat_eq_iff)
  define p2 where "p2 = p\<lparr>mp_free_list := (mp_free_list p)[i := of_nat i], mp_next_free := of_nat i\<rparr>"
  have sel: "mp_num_blocks p2 = mp_num_blocks p" "i < length (mp_free_list p2)"
    "mp_free_list p2 ! i = of_nat i"
    using c(1) i(2) by (simp_all add: p2_def mp_shape_def)
  have loop: "mp_available_loop p2 count (of_nat i) = Some (mp_num_blocks p)"
    if "count \<le> mp_num_blocks p" for count
    using that
  proof (induction "unat (mp_num_blocks p) - unat count" arbitrary: count)
    case 0
    then have "count = mp_num_blocks p" by (simp add: word_le_nat_alt word_unat_eq_iff)
    then show ?case by (simp add: mp_available_loop.simps p2_def)
  next
    case (Suc d)
    then have lt: "count < mp_num_blocks p" by (simp add: word_less_nat_alt)
    note s = unat_Suc_less [OF lt]
    have "mp_available_loop p2 (count + 1) (of_nat i) = Some (mp_num_blocks p)"
      using Suc.hyps(2) s lt by (intro Suc.hyps(1)) (auto simp: word_le_nat_alt word_less_nat_alt)
    then show ?case using lt ui sel by (simp add: mp_available_loop.simps [of p2 count])
  qed
  let ?p1 = "p\<lparr>mp_free_list := (mp_free_list p)[i := mp_next_free p], mp_next_free := of_nat i\<rparr>"
  have "mp_deallocate b p = Some ?p1" "mp_deallocate b ?p1 = Some p2"
    using c(1) i idx off(2,3) ui by (auto simp: mp_deallocate_def mp_shape_def p2_def Let_def)
  moreover have "mp_allocate p2 = Some (b, p2)"
    using c(1) i ui off(1) by (simp add: mp_allocate_def p2_def mp_shape_def Let_def)
  moreover have "mp_available p2 = Some (mp_num_blocks p)"
    using loop [of 0] by (simp add: mp_available_def p2_def)
  ultimately show ?thesis by auto
qed

text \<open>A pool of two blocks of which one is handed out.\<close>

definition sample_pool :: memory_pool where
  "sample_pool = \<lparr>mp_block_size = 64, mp_num_blocks = 2, mp_data = 4096, mp_size = 128,
     mp_free_list = [1, - 1], mp_next_free = 1\<rparr>"

lemma sample_pool_inv: "mp_inv sample_pool [4160] {4096}"
  unfolding mp_inv_def
  by (auto simp: sample_pool_def mp_shape_def mp_block_def lessThan_nat_numeral lessThan_Suc
      intro!: exI [of _ "[1]"])

theorem memory_pool_lifo_witness:
  "\<exists>p'. mp_allocate sample_pool = Some (4160, p') \<and> mp_deallocate 4160 p' = Some sample_pool"
  using memory_pool_lifo [OF sample_pool_inv] by blast

theorem memory_pool_double_free_witness:
  "\<exists>p1 p2. mp_deallocate 4096 sample_pool = Some p1 \<and> mp_deallocate 4096 p1 = Some p2 \<and>
    mp_allocate p2 = Some (4096, p2) \<and> mp_available p2 = Some 2"
  using memory_pool_double_free [OF sample_pool_inv, of 4096] by (simp add: sample_pool_def)

end
