(* ===== verification/Zero_Copy.thy ===== *)
theory Zero_Copy
  imports Memory_Pool
begin

text \<open>
  \<^verbatim>\<open>ZeroCopyBuffer\<close> and \<^verbatim>\<open>ZeroCopyMemoryPool\<close> of \<^verbatim>\<open>optimization/zero_copy.hpp\<close>. The kernel's
  \<^verbatim>\<open>mmap\<close> is an argument: given a size and whether huge pages are asked for it returns an address,
  or \<open>None\<close> for \<^verbatim>\<open>MAP_FAILED\<close>. The pool repeats the free list of \<^verbatim>\<open>MemoryPool\<close> over mapped memory
  and is shown to be the same pool.
\<close>

section \<open>Mapped buffers\<close>

record zc_buffer =
  zb_ptr :: ptr
  zb_size :: size_type
  zb_use_huge_pages :: bool

definition zc_create :: "(size_type \<Rightarrow> bool \<Rightarrow> ptr option) \<Rightarrow> size_type \<Rightarrow> bool \<Rightarrow> zc_buffer option" where
  "zc_create mmap sz use_huge_pages =
     (let mapped =
        (if use_huge_pages then
           (case mmap sz True of None \<Rightarrow> mmap sz False | Some q \<Rightarrow> Some q)
         else mmap sz False) in
      case mapped of
        None \<Rightarrow> None
      | Some q \<Rightarrow> Some \<lparr>zb_ptr = q, zb_size = sz, zb_use_huge_pages = use_huge_pages\<rparr>)"

text \<open>
  The system calls that \<^verbatim>\<open>create\<close>, the destructor and the hints make. \<^verbatim>\<open>prefetch\<close> computes a length that it does not use and
  takes the offset as it is. A buffer has an address other than zero, so the destructor always unmaps.
\<close>

datatype zc_call = Mmap size_type bool "ptr option" | Madvise ptr size_type | Munmap ptr size_type | Mlock ptr size_type
  | Munlock ptr size_type | Prefetch ptr

definition zc_create_calls :: "(size_type \<Rightarrow> bool \<Rightarrow> ptr option) \<Rightarrow> size_type \<Rightarrow> bool \<Rightarrow> zc_call list" where
  "zc_create_calls mmap sz use_huge_pages =
     (if use_huge_pages then
        Mmap sz True (mmap sz True) # (if mmap sz True = None then [Mmap sz False (mmap sz False)] else [])
      else [Mmap sz False (mmap sz False)]) @
     (case zc_create mmap sz use_huge_pages of None \<Rightarrow> [] | Some b \<Rightarrow> [Madvise (zb_ptr b) sz])"

definition zc_destroy :: "zc_buffer \<Rightarrow> zc_call list" where
  "zc_destroy b = (if zb_ptr b \<noteq> nullptr then [Munmap (zb_ptr b) (zb_size b)] else [])"

definition lock_memory :: "int \<Rightarrow> zc_buffer \<Rightarrow> bool \<times> zc_call list" where
  "lock_memory result b = (result = 0, [Mlock (zb_ptr b) (zb_size b)])"

definition unlock_memory :: "zc_buffer \<Rightarrow> zc_call list" where
  "unlock_memory b = [Munlock (zb_ptr b) (zb_size b)]"

definition prefetch :: "size_type \<Rightarrow> size_type \<Rightarrow> zc_buffer \<Rightarrow> zc_call list" where
  "prefetch offset len b = [Prefetch (zb_ptr b + unat offset)]"

text \<open>The regions mapped after some calls; \<open>None\<close> when something else than a mapped region is unmapped.\<close>

fun mapped_regions :: "(ptr \<times> size_type) set \<Rightarrow> zc_call list \<Rightarrow> (ptr \<times> size_type) set option" where
  "mapped_regions rs [] = Some rs"
| "mapped_regions rs (Mmap sz huge (Some q) # cs) = mapped_regions (insert (q, sz) rs) cs"
| "mapped_regions rs (Munmap q sz # cs) = (if (q, sz) \<in> rs then mapped_regions (rs - {(q, sz)}) cs else None)"
| "mapped_regions rs (_ # cs) = mapped_regions rs cs"

text \<open>
  A buffer owns exactly one mapping, whichever attempt succeeded, from \<^verbatim>\<open>create\<close> to its destruction, and a failed \<^verbatim>\<open>create\<close>
  leaves nothing mapped.\<close>

lemma zc_buffer_lifetime:
  assumes "\<forall>h. mmap sz h \<noteq> Some nullptr"
  shows "case zc_create mmap sz huge of
      None \<Rightarrow> mapped_regions {} (zc_create_calls mmap sz huge) = Some {}
    | Some b \<Rightarrow> mapped_regions {} (zc_create_calls mmap sz huge @ snd (lock_memory r b) @ prefetch offset len b @ unlock_memory b) = Some {(zb_ptr b, sz)} \<and>
        mapped_regions {} (zc_create_calls mmap sz huge @ zc_destroy b) = Some {}"
  using assms
  by (auto simp: zc_create_calls_def zc_create_def zc_destroy_def lock_memory_def unlock_memory_def prefetch_def Let_def split: option.splits)

section \<open>The pool\<close>

record zc_pool =
  zp_block_size :: size_type
  zp_num_blocks :: size_type
  zp_use_huge_pages :: bool
  zp_buffer :: zc_buffer
  zp_free_list :: "size_type list"
  zp_next_free :: size_type

datatype zc_result = ZcThrows | ZcUndefined | ZcPool zc_pool

definition ZeroCopyMemoryPool ::
    "(size_type \<Rightarrow> bool \<Rightarrow> ptr option) \<Rightarrow> size_type \<Rightarrow> size_type \<Rightarrow> bool \<Rightarrow> zc_result" where
  "ZeroCopyMemoryPool mmap block_size num_blocks use_huge_pages =
     (case zc_create mmap (block_size * num_blocks) use_huge_pages of
        None \<Rightarrow> ZcThrows
      | Some buffer \<Rightarrow>
          if num_blocks = 0 then ZcUndefined
          else ZcPool
            \<lparr>zp_block_size = block_size, zp_num_blocks = num_blocks,
             zp_use_huge_pages = use_huge_pages, zp_buffer = buffer,
             zp_free_list =
               (fold (\<lambda>i fl. fl[i := of_nat i + 1]) [0..<unat num_blocks - 1]
                  (replicate (unat num_blocks) 0))[unat num_blocks - 1 := SIZE_MAX],
             zp_next_free = 0\<rparr>)"

definition zp_allocate :: "zc_pool \<Rightarrow> (ptr \<times> zc_pool) option" where
  "zp_allocate z =
     (if zp_next_free z = SIZE_MAX then Some (nullptr, z)
      else
        let index = zp_next_free z in
        if unat index < length (zp_free_list z) then
          Some (zb_ptr (zp_buffer z) + unat (index * zp_block_size z),
                z\<lparr>zp_next_free := zp_free_list z ! unat index\<rparr>)
        else None)"

definition zp_deallocate :: "ptr \<Rightarrow> zc_pool \<Rightarrow> zc_pool option" where
  "zp_deallocate q z =
     (if q = nullptr \<or> q < zb_ptr (zp_buffer z) \<or>
         q \<ge> zb_ptr (zp_buffer z) + unat (zb_size (zp_buffer z)) then Some z
      else if zp_block_size z = 0 then None
      else
        let index = of_nat (q - zb_ptr (zp_buffer z)) div zp_block_size z in
        if unat index < length (zp_free_list z) then
          Some (z\<lparr>zp_free_list := (zp_free_list z)[unat index := zp_next_free z],
                  zp_next_free := index\<rparr>)
        else None)"

section \<open>It is a memory pool\<close>

definition as_memory_pool :: "zc_pool \<Rightarrow> memory_pool" where
  "as_memory_pool z =
     \<lparr>mp_block_size = zp_block_size z, mp_num_blocks = zp_num_blocks z,
      mp_data = zb_ptr (zp_buffer z), mp_size = zb_size (zp_buffer z),
      mp_free_list = zp_free_list z, mp_next_free = zp_next_free z\<rparr>"

definition zp_inv :: "zc_pool \<Rightarrow> ptr list \<Rightarrow> ptr set \<Rightarrow> bool" where
  "zp_inv z = mp_inv (as_memory_pool z)"

lemma as_memory_pool_sel [simp]:
  "mp_block_size (as_memory_pool z) = zp_block_size z"
  "mp_num_blocks (as_memory_pool z) = zp_num_blocks z"
  "mp_data (as_memory_pool z) = zb_ptr (zp_buffer z)"
  by (simp_all add: as_memory_pool_def)

lemma zp_allocate_view:
  "map_option (map_prod id as_memory_pool) (zp_allocate z) = mp_allocate (as_memory_pool z)"
  by (simp add: zp_allocate_def mp_allocate_def as_memory_pool_def Let_def)

lemma zp_deallocate_view:
  "0 < zb_ptr (zp_buffer z) \<Longrightarrow>
   map_option as_memory_pool (zp_deallocate q z) = mp_deallocate q (as_memory_pool z)"
  by (auto simp: zp_deallocate_def mp_deallocate_def as_memory_pool_def Let_def)

interpretation zpool: block_pool zp_allocate zp_deallocate zp_inv "\<lambda>z. zb_ptr (zp_buffer z)"
    "\<lambda>z. unat (zp_block_size z)" "\<lambda>z. unat (zp_num_blocks z)"
proof
  fix z free live b
  show "0 < zb_ptr (zp_buffer z) \<and> 0 < unat (zp_block_size z) \<and> distinct free \<and> set free \<inter> live = {} \<and>
      set free \<union> live = blocks (zb_ptr (zp_buffer z)) (unat (zp_block_size z)) (unat (zp_num_blocks z))"
    if "zp_inv z free live"
    using mpool.geometry [OF that [unfolded zp_inv_def]] by simp
  show "zp_allocate z = Some (nullptr, z)" if "zp_inv z [] live"
    using that by (auto simp: zp_inv_def mp_inv_def zp_allocate_def as_memory_pool_def)
  show "\<exists>z'. zp_allocate z = Some (b, z') \<and> zp_inv z' free (insert b live) \<and>
      zb_ptr (zp_buffer z') = zb_ptr (zp_buffer z) \<and> unat (zp_block_size z') = unat (zp_block_size z) \<and>
      unat (zp_num_blocks z') = unat (zp_num_blocks z)"
    if "zp_inv z (b # free) live"
    using mp_alloc_block [OF that [unfolded zp_inv_def]] zp_allocate_view [of z]
    by (auto simp: zp_inv_def map_option_eq_Some)
  show "\<exists>z'. zp_deallocate b z = Some z' \<and> zp_inv z' (b # free) (live - {b}) \<and>
      zb_ptr (zp_buffer z') = zb_ptr (zp_buffer z) \<and> unat (zp_block_size z') = unat (zp_block_size z) \<and>
      unat (zp_num_blocks z') = unat (zp_num_blocks z)"
    if inv: "zp_inv z free live" and live: "b \<in> live"
  proof -
    have "0 < zb_ptr (zp_buffer z)" using mpool.geometry [OF inv [unfolded zp_inv_def]] by simp
    from zp_deallocate_view [OF this, of b] mp_dealloc_live [OF inv [unfolded zp_inv_def] live]
    show ?thesis by (auto simp: zp_inv_def map_option_eq_Some)
  qed
qed

section \<open>Correctness\<close>

lemma zc_create_size: "zc_create mmap sz h = Some b \<Longrightarrow> zb_size b = sz"
  by (auto simp: zc_create_def Let_def split: option.splits if_splits)

lemma ZeroCopyMemoryPool_view:
  assumes "ZeroCopyMemoryPool mmap bs n h = ZcPool z"
  shows "MemoryPool (zb_ptr (zp_buffer z)) bs n = Some (as_memory_pool z)"
    and "zp_block_size z = bs" "zp_num_blocks z = n"
  using assms zc_create_size
  by (auto simp: ZeroCopyMemoryPool_def MemoryPool_def as_memory_pool_def
      split: option.splits if_splits)

text \<open>
  \<^bold>\<open>C18\<close>. The mmap-backed pool gives the guarantees of \<^verbatim>\<open>MemoryPool\<close>: a client that frees only
  blocks it holds meets no undefined behaviour, never holds overlapping blocks or blocks outside
  the mapping, and gets \<^verbatim>\<open>nullptr\<close> exactly when it holds every block.\<close>

theorem zero_copy_pool_safe:
  assumes "ZeroCopyMemoryPool mmap bs n h = ZcPool z" and "0 < zb_ptr (zp_buffer z)" and "0 < bs"
    and "unat bs * unat n < 2 ^ 64"
  shows "\<exists>z' held. pool_run zp_allocate zp_deallocate z [] ops = Some (z', held) \<and> distinct held \<and>
    (\<forall>a\<in>set held. zb_ptr (zp_buffer z) \<le> a \<and> a + unat bs \<le> zb_ptr (zp_buffer z) + unat n * unat bs) \<and>
    (\<forall>a\<in>set held. \<forall>b\<in>set held. a \<noteq> b \<longrightarrow> a + unat bs \<le> b \<or> b + unat bs \<le> a) \<and>
    (\<exists>b z''. zp_allocate z' = Some (b, z'') \<and> (b = nullptr \<longleftrightarrow> length held = unat n))"
proof -
  note view = ZeroCopyMemoryPool_view [OF assms(1)]
  have "zp_inv z (map (mp_block (as_memory_pool z)) [0..<unat n]) (set [])"
    using MemoryPool_inv(1) [OF view(1) assms(2-4)] by (simp add: zp_inv_def)
  from zpool.run_ok [OF this, of ops] view(2,3) obtain z' held free where
    run: "pool_run zp_allocate zp_deallocate z [] ops = Some (z', held)" "distinct held" and
    inv: "zp_inv z' free (set held)" and
    geo: "zb_ptr (zp_buffer z') = zb_ptr (zp_buffer z)" "unat (zp_block_size z') = unat bs"
      "unat (zp_num_blocks z') = unat n"
    by auto
  have sub: "set held \<subseteq> blocks (zb_ptr (zp_buffer z)) (unat bs) (unat n)"
    using zpool.geometry [OF inv] geo by auto
  show ?thesis
    using run sub zpool.alloc_null_iff [OF inv run(2)] geo
      blocks_inside [of _ "zb_ptr (zp_buffer z)" "unat bs" "unat n"]
      blocks_apart [of _ "zb_ptr (zp_buffer z)" "unat bs" "unat n"]
    by (intro exI [of _ z'] exI [of _ held]) (simp add: subset_iff)
qed

text \<open>A kernel without huge pages: the pool falls back to ordinary pages.\<close>

definition no_huge_mmap :: "size_type \<Rightarrow> bool \<Rightarrow> ptr option" where
  "no_huge_mmap sz huge = (if huge then None else Some 65536)"

theorem zero_copy_pool_safe_witness:
  "\<exists>z z' held. ZeroCopyMemoryPool no_huge_mmap 64 2 True = ZcPool z \<and>
     pool_run zp_allocate zp_deallocate z [] [Alloc, Alloc, Free 0] = Some (z', held) \<and> distinct held"
proof -
  obtain z where z: "ZeroCopyMemoryPool no_huge_mmap 64 2 True = ZcPool z"
    by (simp add: ZeroCopyMemoryPool_def zc_create_def no_huge_mmap_def Let_def)
  then have "0 < zb_ptr (zp_buffer z)"
    by (auto simp: ZeroCopyMemoryPool_def zc_create_def no_huge_mmap_def Let_def)
  from zero_copy_pool_safe [OF z this, of "[Alloc, Alloc, Free 0]"] z show ?thesis by auto
qed

text \<open>
  The constructor of the pool throws exactly when both the mapping it tries (huge pages first
  when they are asked for, ordinary pages after that) fail; and a buffer that fell back to
  ordinary pages still reports that it uses huge pages.\<close>

theorem zero_copy_huge_page_report:
  "(ZeroCopyMemoryPool mmap bs n h = ZcThrows \<longleftrightarrow>
     mmap (bs * n) False = None \<and> (if h then mmap (bs * n) True = None else True)) \<and>
   (\<exists>b. zc_create no_huge_mmap 4096 True = Some b \<and> zb_use_huge_pages b)"
  by (auto simp: ZeroCopyMemoryPool_def zc_create_def no_huge_mmap_def Let_def
      split: option.splits if_splits)

end
