(* ===== verification/Checksum.thy ===== *)
theory Checksum
  imports Usn_Prelude
begin

text \<open>
  The one's-complement checksum that \<^verbatim>\<open>TcpProtocol::calculate_checksum\<close> and
  \<^verbatim>\<open>UdpProtocol::calculate_checksum\<close> compute with the same code and a different protocol word, and
  its arithmetic: the 32-bit sum does not wrap for segments below 64 KiB, folding keeps the sum
  modulo 65535, and so two segments have the same checksum exactly when their sums agree modulo
  65535.
\<close>

section \<open>Computation\<close>

text \<open>The two halves of the sum as natural numbers.\<close>

lemma fold_halves:
  fixes s :: u32
  shows "unat (s AND 0xFFFF) = unat s mod 65536" and "unat (drop_bit 16 s) = unat s div 65536"
    and "unat ((s AND 0xFFFF) + drop_bit 16 s) = unat s mod 65536 + unat s div 65536"
proof -
  show lo: "unat (s AND 0xFFFF) = unat s mod 65536"
    using unat_and_mask_pow2 [of "0xFFFF :: u32" 16 s] by simp
  show hi: "unat (drop_bit 16 s) = unat s div 65536"
    by (simp add: drop_bit_eq_div unat_div)
  have "unat s div 65536 < 65536" using unat_less_2p32 [of s] by (simp add: div_less_iff_less_mult)
  then show "unat ((s AND 0xFFFF) + drop_bit 16 s) = unat s mod 65536 + unat s div 65536"
    using lo hi mod_less_divisor [of 65536 "unat s"] by (subst unat_add_no_wrap) auto
qed

function fold_carry :: "u32 \<Rightarrow> u32" where
  "fold_carry s =
     (if drop_bit 16 s \<noteq> 0 then fold_carry ((s AND 0xFFFF) + drop_bit 16 s) else s)"
  by pat_completeness auto

termination
proof (relation "measure unat")
  fix s :: u32
  assume "drop_bit 16 s \<noteq> 0"
  then have "unat s div 65536 \<noteq> 0" using fold_halves(2) [of s] by (metis unat_eq_zero)
  then have "unat s mod 65536 + unat s div 65536 < unat s"
    using div_mult_mod_eq [of "unat s" 65536] by linarith
  then show "((s AND 0xFFFF) + drop_bit 16 s, s) \<in> measure unat" by (simp add: fold_halves(3))
qed simp

declare fold_carry.simps [simp del]

text \<open>\<^verbatim>\<open>data_words[i]\<close>: the bytes are read as 16-bit words in host order.\<close>

definition data_word :: "u8 list \<Rightarrow> nat \<Rightarrow> u16" where
  "data_word bs i = of_le [bs ! (2 * i), bs ! (2 * i + 1)]"

definition inet_checksum :: "u16 \<Rightarrow> u8 list \<Rightarrow> u32 \<Rightarrow> u32 \<Rightarrow> u16" where
  "inet_checksum protocol bs src_ip dst_ip =
     (let sum = 0 :: u32;
          sum = sum + ucast (ntohs (ucast (drop_bit 16 src_ip)));
          sum = sum + ucast (ntohs (ucast (src_ip AND 0xFFFF)));
          sum = sum + ucast (ntohs (ucast (drop_bit 16 dst_ip)));
          sum = sum + ucast (ntohs (ucast (dst_ip AND 0xFFFF)));
          sum = sum + ucast (ntohs protocol);
          seg_len = htons (of_nat (length bs));
          sum = sum + ucast (ntohs seg_len);
          sum = fold (\<lambda>i sum. sum + ucast (ntohs (data_word bs i))) [0..<length bs div 2] sum;
          sum = (if length bs mod 2 \<noteq> 0
                 then sum + ucast (ntohs (push_bit 8 (ucast (bs ! (length bs - 1))))) else sum)
      in ucast (NOT (fold_carry sum)))"

section \<open>The sum as a natural number\<close>

definition word_value :: "u8 list \<Rightarrow> nat \<Rightarrow> nat" where
  "word_value bs i = 256 * unat (bs ! (2 * i)) + unat (bs ! (2 * i + 1))"

definition data_total :: "u8 list \<Rightarrow> nat" where
  "data_total bs =
     (\<Sum>i<length bs div 2. word_value bs i) +
     (if length bs mod 2 \<noteq> 0 then unat (bs ! (length bs - 1)) else 0)"

definition pseudo_total :: "u16 \<Rightarrow> nat \<Rightarrow> u32 \<Rightarrow> u32 \<Rightarrow> nat" where
  "pseudo_total protocol len src_ip dst_ip =
     unat (ntohs (ucast (drop_bit 16 src_ip))) + unat (ntohs (ucast (src_ip AND 0xFFFF))) +
     unat (ntohs (ucast (drop_bit 16 dst_ip))) + unat (ntohs (ucast (dst_ip AND 0xFFFF))) +
     unat (ntohs protocol) + len mod 65536"

lemma unat_of_le_2: "unat (of_le [a, b] :: u16) = unat a + 256 * unat b"
proof -
  have u: "unat (ucast c :: u16) = unat c" for c :: u8
    by (rule unat_ucast_up) simp
  have p: "unat (push_bit 8 (ucast b :: u16)) = 256 * unat b"
    using unat_less_2p8 [of b] u [of b]
    by (simp add: push_bit_eq_mult unat_mult_no_wrap del: push_bit_numeral)
  have "of_le [a, b] = (ucast a :: u16) + push_bit 8 (ucast b)"
    by (subst disjunctive_add) (auto simp: bit_simps dest: bit_imp_le_length)
  also have "unat \<dots> = unat (ucast a :: u16) + unat (push_bit 8 (ucast b :: u16))"
  proof (rule unat_add_no_wrap)
    have "unat a + 256 * unat b < 65536"
      using unat_less_2p8 [of a] unat_less_2p8 [of b] by linarith
    then show "unat (ucast a :: u16) + unat (push_bit 8 (ucast b :: u16)) < 2 ^ LENGTH(16)"
      by (simp only: u p) simp
  qed
  finally show ?thesis by (simp only: u p)
qed

lemma unat_data_word: "unat (ntohs (data_word bs i)) = word_value bs i"
  by (simp add: data_word_def htons_of_le unat_of_le_2 word_value_def del: of_le.simps)

lemma unat_last_byte: "unat (ntohs (push_bit 8 (ucast b))) = unat (b :: u8)"
proof -
  have "push_bit 8 (ucast b) = (of_le [0, b] :: u16)" by simp
  then show ?thesis by (simp add: htons_of_le unat_of_le_2 del: of_le.simps)
qed

lemma ucast32: "(ucast (w :: u16) :: u32) = of_nat (unat w)"
  by (simp add: word_unat_eq_iff unsigned_ucast_eq take_bit_eq_mod unat_of_nat)

lemma fold_words:
  "fold (\<lambda>i sum. sum + ucast (ntohs (data_word bs i))) [0..<n] (of_nat s)
     = (of_nat (s + (\<Sum>i<n. word_value bs i)) :: u32)"
  by (induction n) (simp_all add: ucast32 unat_data_word add.assoc)

lemma inet_checksum_total:
  "inet_checksum protocol bs src dst
     = ucast (NOT (fold_carry (of_nat (pseudo_total protocol (length bs) src dst + data_total bs))))"
proof -
  have len: "unat (of_nat (length bs) :: u16) = length bs mod 65536"
    by (simp add: unat_of_nat)
  have ps: "((((((0 + ucast (ntohs (ucast (drop_bit 16 src)))) + ucast (ntohs (ucast (src AND 0xFFFF))))
      + ucast (ntohs (ucast (drop_bit 16 dst)))) + ucast (ntohs (ucast (dst AND 0xFFFF))))
      + ucast (ntohs protocol)) + ucast (of_nat (length bs) :: u16))
      = (of_nat (pseudo_total protocol (length bs) src dst) :: u32)"
    unfolding pseudo_total_def ucast32 len by simp
  show ?thesis
    unfolding inet_checksum_def Let_def htons_htons ps fold_words
    by (simp add: data_total_def ucast32 unat_last_byte add.assoc)
qed

section \<open>Folding\<close>

lemma fold_carry_spec:
  "unat (fold_carry s) mod 65535 = unat s mod 65535 \<and> unat (fold_carry s) < 65536 \<and>
   (fold_carry s = 0 \<longleftrightarrow> s = 0)"
proof (induction s rule: fold_carry.induct)
  case (1 s)
  show ?case
  proof (cases "drop_bit 16 s \<noteq> 0")
    case True
    let ?t = "(s AND 0xFFFF) + drop_bit 16 s"
    have t: "unat ?t = unat s mod 65536 + unat s div 65536" by (rule fold_halves)
    have "unat s = unat s div 65536 * 65535 + unat ?t"
      using div_mult_mod_eq [of "unat s" 65536] unfolding t by linarith
    then have "unat s mod 65535 = unat ?t mod 65535"
      by (metis mod_mult_self3)
    moreover have "?t \<noteq> 0" "s \<noteq> 0"
      using True t fold_halves(2) [of s] by (auto simp: unat_eq_0)
    ultimately show ?thesis using 1 True by (simp add: fold_carry.simps [of s])
  next
    case False
    then have "unat s div 65536 = 0" using fold_halves(2) [of s] by simp
    then show ?thesis using False by (simp add: fold_carry.simps [of s] div_eq_0_iff)
  qed
qed

lemma checksum_value:
  "unat (ucast (NOT (fold_carry s)) :: u16) = 65535 - unat (fold_carry s)"
proof -
  have f: "unat (fold_carry s) < 65536" using fold_carry_spec by blast
  have "(ucast (NOT (fold_carry s)) :: u16) = NOT (ucast (fold_carry s))"
    by (rule bit_word_eqI) (simp add: bit_simps)
  moreover have "unat (ucast (fold_carry s) :: u16) = unat (fold_carry s)"
    using f by (intro unat_ucast_fits) simp
  ultimately show ?thesis by (simp add: unat_NOT)
qed

section \<open>Equal checksums and verification\<close>

lemma checksum_eq_iff:
  assumes "0 < a" "a < 2 ^ 32" "0 < b" "b < 2 ^ 32"
  shows "(ucast (NOT (fold_carry (of_nat a))) :: u16) = ucast (NOT (fold_carry (of_nat b)))
    \<longleftrightarrow> a mod 65535 = b mod 65535"
proof -
  let ?fa = "unat (fold_carry (of_nat a))" and ?fb = "unat (fold_carry (of_nat b))"
  have ua: "unat (of_nat a :: u32) = a" and ub: "unat (of_nat b :: u32) = b"
    using assms by (simp_all add: unat_of_nat)
  then have nz: "(of_nat a :: u32) \<noteq> 0" "(of_nat b :: u32) \<noteq> 0"
    using assms by (metis unat_0 less_irrefl)+
  from fold_carry_spec [of "of_nat a"] fold_carry_spec [of "of_nat b"] nz ua ub
  have fa: "?fa mod 65535 = a mod 65535" "0 < ?fa" "?fa < 65536"
    and fb: "?fb mod 65535 = b mod 65535" "0 < ?fb" "?fb < 65536"
    by (auto simp: unat_gt_0)
  have "(ucast (NOT (fold_carry (of_nat a))) :: u16) = ucast (NOT (fold_carry (of_nat b)))
      \<longleftrightarrow> 65535 - ?fa = 65535 - ?fb"
    by (simp only: word_unat_eq_iff checksum_value)
  also have "\<dots> \<longleftrightarrow> ?fa = ?fb" using fa fb by linarith
  also have "\<dots> \<longleftrightarrow> ?fa mod 65535 = ?fb mod 65535"
  proof
    assume "?fa mod 65535 = ?fb mod 65535"
    then show "?fa = ?fb" using mod_window_distinct [of ?fa ?fb 1 65535] fa fb by linarith
  qed simp
  finally show ?thesis using fa fb by simp
qed

lemma checksum_zero_iff:
  assumes "0 < a" "a < 2 ^ 32"
  shows "(ucast (NOT (fold_carry (of_nat a))) :: u16) = 0 \<longleftrightarrow> a mod 65535 = 0"
proof -
  have "fold_carry 65535 = 65535" by (simp add: fold_carry.simps)
  then have "(ucast (NOT (fold_carry (of_nat 65535))) :: u16) = 0" by simp
  with checksum_eq_iff [of a 65535] assms show ?thesis by simp
qed

lemma checksum_complement:
  assumes "0 < a" "a < 2 ^ 32"
  shows "(a + unat (ucast (NOT (fold_carry (of_nat a))) :: u16)) mod 65535 = 0"
proof -
  let ?f = "unat (fold_carry (of_nat a))"
  have "unat (of_nat a :: u32) = a" using assms by (simp add: unat_of_nat)
  with fold_carry_spec [of "of_nat a"] have f: "?f mod 65535 = a mod 65535" "?f < 65536" by auto
  then have "(a + (65535 - ?f)) mod 65535 = (?f + (65535 - ?f)) mod 65535"
    by (metis mod_add_left_eq)
  also have "\<dots> = 0" using f(2) by simp
  finally show ?thesis by (simp add: checksum_value)
qed

text \<open>Sums of segments below 64 KiB are positive and do not wrap.\<close>

lemma word_value_less: "word_value bs i < 65536"
  using unat_less_2p8 [of "bs ! (2 * i)"] unat_less_2p8 [of "bs ! (2 * i + 1)"]
  unfolding word_value_def by linarith

lemma data_total_bound:
  assumes "length bs < 65536"
  shows "data_total bs < 2 ^ 32 - 65536 * 8"
proof -
  have "(\<Sum>i<length bs div 2. word_value bs i) \<le> (\<Sum>i<length bs div 2. 65536)"
    by (intro sum_mono less_imp_le word_value_less)
  also have "\<dots> \<le> 32767 * 65536" using assms by simp
  finally have "(\<Sum>i<length bs div 2. word_value bs i) \<le> 32767 * 65536" .
  moreover have "(if length bs mod 2 \<noteq> 0 then unat (bs ! (length bs - 1)) else 0) < 256"
    by simp
  ultimately show ?thesis unfolding data_total_def by simp
qed

lemma pseudo_total_bound:
  "ntohs protocol \<noteq> 0 \<Longrightarrow> 0 < pseudo_total protocol len src dst"
  "pseudo_total protocol len src dst < 65536 * 6"
proof -
  have "unat (w :: u16) \<le> 65535" for w using unat_less_2p16 [of w] by linarith
  from this [of "ntohs (ucast (drop_bit 16 src))"] this [of "ntohs (ucast (src AND 0xFFFF))"]
    this [of "ntohs (ucast (drop_bit 16 dst))"] this [of "ntohs (ucast (dst AND 0xFFFF))"]
    this [of "ntohs protocol"] mod_less_divisor [of 65536 len]
  show "pseudo_total protocol len src dst < 65536 * 6" unfolding pseudo_total_def by linarith
qed (simp add: pseudo_total_def unat_gt_0)

lemma total_bounds:
  assumes "ntohs protocol \<noteq> 0" and "length bs < 65536"
  shows "0 < pseudo_total protocol (length bs) src dst + data_total bs"
    and "pseudo_total protocol (length bs) src dst + data_total bs < 2 ^ 32"
  using pseudo_total_bound(1) [OF assms(1), of "length bs" src dst] data_total_bound [OF assms(2)]
    pseudo_total_bound(2) [of protocol "length bs" src dst] by simp_all

text \<open>Writing one aligned word changes the sum by the difference of the two values.\<close>

lemma data_total_update:
  assumes "2 * k + 1 < length bs"
  shows "data_total (bs[2 * k := a, 2 * k + 1 := b]) + word_value bs k
    = data_total bs + 256 * unat a + unat b"
proof -
  let ?bs = "bs[2 * k := a, 2 * k + 1 := b]" and ?n = "length bs div 2"
  have k: "k < ?n" using assms by linarith
  have "i \<noteq> k \<Longrightarrow> word_value ?bs i = word_value bs i" for i
    by (auto simp: word_value_def nth_list_update; presburger)
  then have "(\<Sum>i\<in>{..<?n} - {k}. word_value ?bs i) = (\<Sum>i\<in>{..<?n} - {k}. word_value bs i)"
    by (intro sum.cong) auto
  moreover have "word_value ?bs k = 256 * unat a + unat b"
    using assms by (simp add: word_value_def)
  ultimately have "(\<Sum>i<?n. word_value ?bs i) + word_value bs k
      = (\<Sum>i<?n. word_value bs i) + 256 * unat a + unat b"
    using k by (simp add: sum.remove [of "{..<?n}" k])
  moreover have "?bs ! (length bs - 1) = bs ! (length bs - 1)" if "length bs mod 2 \<noteq> 0"
    using that k by (auto simp: nth_list_update; presburger)
  ultimately show ?thesis by (simp add: data_total_def)
qed

end
