(* ===== verification/Tcp_Protocol.thy ===== *)
theory Tcp_Protocol
  imports Packet_Core Checksum
begin

text \<open>
  TCP segments as \<^verbatim>\<open>protocol/tcp_protocol.hpp\<close> builds and parses them. The packed \<^verbatim>\<open>TcpHeader\<close> is
  21 bytes long (the two 4-bit fields take one byte of their own before \<^verbatim>\<open>flags\<close>), one more than
  the 20 bytes on the wire, and the code copies parts of the struct to and from the wire by byte
  offset; the model keeps the struct's layout and the offsets.
\<close>

section \<open>Types\<close>

datatype TcpState =
    CLOSED | LISTEN | SYN_SENT | SYN_RECEIVED | ESTABLISHED | FIN_WAIT_1 | FIN_WAIT_2
  | CLOSE_WAIT | CLOSING | LAST_ACK | TIME_WAIT

record TcpHeader =
  th_source_port :: u16
  th_dest_port :: u16
  th_seq_num :: u32
  th_ack_num :: u32
  th_data_offset :: u8
  th_reserved :: u8
  th_flags :: u16
  th_window :: u16
  th_checksum :: u16
  th_urgent_ptr :: u16

definition to_network_order :: "TcpHeader \<Rightarrow> TcpHeader" where
  "to_network_order h =
     h\<lparr>th_source_port := htons (th_source_port h), th_dest_port := htons (th_dest_port h),
       th_seq_num := htonl (th_seq_num h), th_ack_num := htonl (th_ack_num h),
       th_window := htons (th_window h), th_checksum := htons (th_checksum h),
       th_urgent_ptr := htons (th_urgent_ptr h)\<rparr>"

definition to_host_order :: "TcpHeader \<Rightarrow> TcpHeader" where
  "to_host_order h =
     h\<lparr>th_source_port := ntohs (th_source_port h), th_dest_port := ntohs (th_dest_port h),
       th_seq_num := ntohl (th_seq_num h), th_ack_num := ntohl (th_ack_num h),
       th_window := ntohs (th_window h), th_checksum := ntohs (th_checksum h),
       th_urgent_ptr := ntohs (th_urgent_ptr h)\<rparr>"

definition has_syn :: "TcpHeader \<Rightarrow> bool" where
  "has_syn h \<longleftrightarrow> th_flags h AND push_bit 1 1 \<noteq> 0"

definition has_ack :: "TcpHeader \<Rightarrow> bool" where
  "has_ack h \<longleftrightarrow> th_flags h AND push_bit 4 1 \<noteq> 0"

definition has_fin :: "TcpHeader \<Rightarrow> bool" where
  "has_fin h \<longleftrightarrow> th_flags h AND push_bit 0 1 \<noteq> 0"

definition has_rst :: "TcpHeader \<Rightarrow> bool" where
  "has_rst h \<longleftrightarrow> th_flags h AND push_bit 2 1 \<noteq> 0"

record TcpConnection =
  local_ip :: u32
  remote_ip :: u32
  local_port :: u16
  remote_port :: u16
  send_seq :: u32
  recv_seq :: u32
  send_ack :: u32
  recv_ack :: u32
  conn_state :: TcpState
  window_size :: u16
  recv_window :: u32
  peer_window :: u32

definition TcpConnection_default :: TcpConnection where
  "TcpConnection_default =
     \<lparr>local_ip = 0, remote_ip = 0, local_port = 0, remote_port = 0,
      send_seq = 0, recv_seq = 0, send_ack = 0, recv_ack = 0, conn_state = CLOSED,
      window_size = 65535, recv_window = 65535, peer_window = 65535\<rparr>"

text \<open>The struct in memory: 21 bytes, the bit-fields in byte 12, \<^verbatim>\<open>data_offset\<close> in its low half.\<close>

definition header_bytes :: "TcpHeader \<Rightarrow> u8 list" where
  "header_bytes h =
     le_bytes 2 (th_source_port h) @ le_bytes 2 (th_dest_port h) @ le_bytes 4 (th_seq_num h) @
     le_bytes 4 (th_ack_num h) @ [(th_data_offset h AND 0xF) OR push_bit 4 (th_reserved h)] @
     le_bytes 2 (th_flags h) @ le_bytes 2 (th_window h) @ le_bytes 2 (th_checksum h) @
     le_bytes 2 (th_urgent_ptr h)"

definition header_of_bytes :: "u8 list \<Rightarrow> TcpHeader" where
  "header_of_bytes bs =
     \<lparr>th_source_port = of_le [bs ! 0, bs ! 1], th_dest_port = of_le [bs ! 2, bs ! 3],
      th_seq_num = of_le [bs ! 4, bs ! 5, bs ! 6, bs ! 7],
      th_ack_num = of_le [bs ! 8, bs ! 9, bs ! 10, bs ! 11],
      th_data_offset = bs ! 12 AND 0xF, th_reserved = drop_bit 4 (bs ! 12),
      th_flags = of_le [bs ! 13, bs ! 14], th_window = of_le [bs ! 15, bs ! 16],
      th_checksum = of_le [bs ! 17, bs ! 18], th_urgent_ptr = of_le [bs ! 19, bs ! 20]\<rparr>"

section \<open>Creating segments\<close>

definition calculate_checksum :: "u8 list \<Rightarrow> u32 \<Rightarrow> u32 \<Rightarrow> u16" where
  "calculate_checksum data src_ip dst_ip = inet_checksum 0x0006 data src_ip dst_ip"

text \<open>The statements every \<^verbatim>\<open>create_\<close> function repeats: the header goes to the wire in four pieces.\<close>

definition put_header :: "TcpHeader \<Rightarrow> ptr \<Rightarrow> mem \<Rightarrow> mem" where
  "put_header header buffer m =
     (let header = to_network_order header;
          m = mem_write m buffer (take 12 (header_bytes header));
          m = m(buffer + 12 := push_bit 4 (th_data_offset header) OR
                               ucast (drop_bit 8 (th_flags header) AND 0xF));
          m = m(buffer + 13 := ucast (th_flags header AND 0xFF))
      in mem_write m (buffer + 14) (take 6 (drop 14 (header_bytes header))))"

definition put_checksum :: "ptr \<Rightarrow> nat \<Rightarrow> u32 \<Rightarrow> u32 \<Rightarrow> mem \<Rightarrow> mem" where
  "put_checksum buffer len src_ip dst_ip m =
     (let checksum = calculate_checksum (mem_read m buffer len) src_ip dst_ip
      in mem_write m (buffer + 16) (le_bytes 2 (htons checksum)))"

definition segment_header :: "u16 \<Rightarrow> u16 \<Rightarrow> u32 \<Rightarrow> u32 \<Rightarrow> u16 \<Rightarrow> u16 \<Rightarrow> TcpHeader" where
  "segment_header src_port dst_port seq ack flgs win =
     \<lparr>th_source_port = src_port, th_dest_port = dst_port, th_seq_num = seq, th_ack_num = ack,
      th_data_offset = 5, th_reserved = 0, th_flags = flgs, th_window = win,
      th_checksum = 0, th_urgent_ptr = 0\<rparr>"

definition create_syn ::
    "u16 \<Rightarrow> u16 \<Rightarrow> u32 \<Rightarrow> u32 \<Rightarrow> u32 \<Rightarrow> ptr \<Rightarrow> mem \<Rightarrow> Packet \<times> mem" where
  "create_syn src_port dst_port src_ip dst_ip seq out_buffer m =
     (let m = put_header (segment_header src_port dst_port seq 0 (push_bit 1 1) 65535) out_buffer m;
          m = put_checksum out_buffer 20 src_ip dst_ip m
      in (mk_Packet out_buffer 20 0, m))"

definition create_syn_ack :: "TcpConnection \<Rightarrow> u32 \<Rightarrow> u32 \<Rightarrow> ptr \<Rightarrow> mem \<Rightarrow> Packet \<times> mem" where
  "create_syn_ack conn seq ack out_buffer m =
     (let m = put_header (segment_header (local_port conn) (remote_port conn) seq ack
                            (push_bit 1 1 OR push_bit 4 1) (window_size conn)) out_buffer m;
          m = put_checksum out_buffer 20 (local_ip conn) (remote_ip conn) m
      in (mk_Packet out_buffer 20 0, m))"

definition create_ack :: "TcpConnection \<Rightarrow> u32 \<Rightarrow> ptr \<Rightarrow> mem \<Rightarrow> Packet \<times> mem" where
  "create_ack conn ack out_buffer m =
     (let m = put_header (segment_header (local_port conn) (remote_port conn) (send_seq conn) ack
                            (push_bit 4 1) (window_size conn)) out_buffer m;
          m = put_checksum out_buffer 20 (local_ip conn) (remote_ip conn) m
      in (mk_Packet out_buffer 20 0, m))"

definition create_data :: "TcpConnection \<Rightarrow> ptr \<Rightarrow> size_type \<Rightarrow> ptr \<Rightarrow> mem \<Rightarrow> Packet \<times> mem" where
  "create_data conn data len out_buffer m =
     (let total_len = 20 + len;
          m = put_header (segment_header (local_port conn) (remote_port conn) (send_seq conn)
                            (recv_seq conn) (push_bit 4 1 OR push_bit 3 1) (window_size conn)) out_buffer m;
          m = mem_write m (out_buffer + 20) (mem_read m data (unat len));
          m = put_checksum out_buffer (unat total_len) (local_ip conn) (remote_ip conn) m
      in (mk_Packet out_buffer total_len 0, m))"

definition create_fin :: "TcpConnection \<Rightarrow> ptr \<Rightarrow> mem \<Rightarrow> Packet \<times> mem" where
  "create_fin conn out_buffer m =
     (let m = put_header (segment_header (local_port conn) (remote_port conn) (send_seq conn)
                            (recv_seq conn) (push_bit 0 1 OR push_bit 4 1) (window_size conn)) out_buffer m;
          m = put_checksum out_buffer 20 (local_ip conn) (remote_ip conn) m
      in (mk_Packet out_buffer 20 0, m))"

section \<open>Parsing and validating segments\<close>

definition parse :: "mem \<Rightarrow> Packet \<Rightarrow> (TcpHeader \<times> ptr \<times> size_type) option" where
  "parse m packet =
     (if pkt_len packet < 20 then None
      else
        let data = pkt_data packet;
            header = header_of_bytes (mem_read m data 12 @ [0, 0] @ mem_read m (data + 14) 6 @ [0]);
            data_offset_byte = m (data + 12);
            header = header\<lparr>th_data_offset := drop_bit 4 data_offset_byte AND 0xF,
                             th_flags := push_bit 8 (ucast (data_offset_byte AND 0xF)) OR
                                         ucast (m (data + 13))\<rparr>;
            header = to_host_order header;
            header_len = ucast (th_data_offset header) * 4
        in if header_len < 20 \<or> header_len > pkt_len packet then None
           else Some (header, data + unat header_len, pkt_len packet - header_len))"

definition validate_checksum :: "mem \<Rightarrow> Packet \<Rightarrow> u32 \<Rightarrow> u32 \<Rightarrow> bool" where
  "validate_checksum m packet src_ip dst_ip =
     (if pkt_data packet = nullptr \<or> pkt_len packet < 20 then False
      else
        let tmp = pkt_bytes m packet;
            stored_net = of_le [tmp ! 16, tmp ! 17];
            stored = ntohs stored_net;
            tmp = tmp[16 := 0];
            tmp = tmp[17 := 0];
            calc = calculate_checksum tmp src_ip dst_ip
        in stored = calc)"

definition is_malformed_header :: "TcpHeader \<Rightarrow> bool" where
  "is_malformed_header h \<longleftrightarrow> (if th_data_offset h < 5 then True else has_syn h \<and> has_fin h)"

definition parse_and_validate ::
    "mem \<Rightarrow> Packet \<Rightarrow> u32 \<Rightarrow> u32 \<Rightarrow> (TcpHeader \<times> ptr \<times> size_type) option" where
  "parse_and_validate m packet src_ip dst_ip =
     (case parse m packet of
        None \<Rightarrow> None
      | Some (header, payload, payload_len) \<Rightarrow>
          if is_malformed_header header then None
          else if validate_checksum m packet src_ip dst_ip then Some (header, payload, payload_len)
          else None)"

section \<open>The bytes on the wire\<close>

definition wire_header :: "TcpHeader \<Rightarrow> u8 list" where
  "wire_header h =
     rev (le_bytes 2 (th_source_port h)) @ rev (le_bytes 2 (th_dest_port h)) @
     rev (le_bytes 4 (th_seq_num h)) @ rev (le_bytes 4 (th_ack_num h)) @
     [push_bit 4 (th_data_offset h) OR ucast (drop_bit 8 (th_flags h) AND 0xF),
      ucast (th_flags h AND 0xFF)] @
     [ucast (drop_bit 8 (th_flags h))] @ rev (le_bytes 2 (th_window h)) @
     rev (le_bytes 2 (th_checksum h)) @ [ucast (drop_bit 8 (th_urgent_ptr h))]"

lemma length_wire_header [simp]: "length (wire_header h) = 20"
  by (simp add: wire_header_def)

lemma mem_write_single: "mem_write m p [b] = m(p := b)"
  by (rule ext) (auto simp: mem_write_def)

lemma put_header_wire: "put_header h buffer m = mem_write m buffer (wire_header h)"
proof -
  let ?h = "to_network_order h"
  have "wire_header h = take 12 (header_bytes ?h) @
      [push_bit 4 (th_data_offset ?h) OR ucast (drop_bit 8 (th_flags ?h) AND 0xF)] @
      [ucast (th_flags ?h AND 0xFF)] @ take 6 (drop 14 (header_bytes ?h))"
    by (simp add: wire_header_def header_bytes_def to_network_order_def byte_simps)
  moreover have "length (take 12 (header_bytes ?h)) = 12" by (simp add: header_bytes_def)
  ultimately show ?thesis
    unfolding put_header_def Let_def mem_write_single [symmetric]
    by (simp only: mem_write_append) (simp add: ac_simps)
qed

section \<open>What a created segment parses to\<close>

lemma low_masks: "(0xF :: u16) = mask 4" "(0xFF :: u16) = mask 8" "(0xF :: u8) = mask 4"
  by (simp_all add: mask_eq_exp_minus_1)

lemma low_nibble:
  "(push_bit 4 d OR ucast (y AND mask 4)) AND mask 4 = (ucast (y AND mask 4 :: u16) :: u8)"
  by (rule bit_word_eqI) (auto simp: bit_simps)

lemma of_le_00: "of_le [0, 0] = (0 :: u16)"
  by simp

lemma to_host_order_upd:
  "to_host_order (h\<lparr>th_data_offset := d, th_flags := f\<rparr>) = (to_host_order h)\<lparr>th_data_offset := d, th_flags := f\<rparr>"
  by (simp add: to_host_order_def)

lemma parse_sealed:
  assumes w: "mem_read m buffer 20 = (wire_header (segment_header sp dp sq ak fl win))[16 := a, 17 := b]"
    and fl: "fl < 4096" and L: "20 \<le> L"
  shows "parse m (mk_Packet buffer L 0) =
    Some ((segment_header sp dp sq ak fl win)
            \<lparr>th_window := of_le [a, ucast (drop_bit 8 win)], th_checksum := of_le [0, b]\<rparr>,
          buffer + 20, L - 20)"
proof -
  let ?w = "(wire_header (segment_header sp dp sq ak fl win))[16 := a, 17 := b]"
  have at: "m (buffer + i) = ?w ! i" if "i < 20" for i
    using that w nth_mem_read [of i 20 m buffer] by simp
  have b12: "m (buffer + 12) = push_bit 4 5 OR ucast (drop_bit 8 fl AND 0xF)"
    and b13: "m (buffer + 13) = ucast (fl AND 0xFF)"
    using at [of 12] at [of 13] by (simp_all add: wire_header_def segment_header_def byte_simps)
  have small: "take_bit 12 fl = fl"
  proof (simp add: word_unat_eq_iff unsigned_take_bit_eq take_bit_nat_eq_self_iff)
    show "unat fl < 4096" using fl by (simp add: word_less_nat_alt)
  qed
  have x: "drop_bit 4 (ucast (drop_bit 8 fl AND mask 4) :: u8) = 0"
    by (rule bit_word_eqI) (auto simp: bit_simps)
  have off: "drop_bit 4 (m (buffer + 12)) AND 0xF = 5"
    unfolding b12 low_masks(1) drop_bit_or x by simp
  have nib: "m (buffer + 12) AND mask 4 = ucast (drop_bit 8 fl AND mask 4)"
    unfolding b12 low_masks(1) by (rule low_nibble)
  have fl': "push_bit 8 (ucast (m (buffer + 12) AND 0xF)) OR ucast (m (buffer + 13)) = fl"
    unfolding low_masks(3) nib b13 low_masks(2)
    by (subst (3) small [symmetric], rule bit_word_eqI) (auto simp: bit_simps)
  have "mem_read m buffer 12 = take 12 ?w" "mem_read m (buffer + 14) 6 = drop 14 ?w"
    using arg_cong [OF w, of "take 12"] arg_cong [OF w, of "drop 14"] by simp_all
  then have hdr: "to_host_order (header_of_bytes (mem_read m buffer 12 @ [0, 0] @
      mem_read m (buffer + 14) 6 @ [0])) =
    (segment_header sp dp sq ak (of_le [0, ucast (drop_bit 8 fl)]) win)\<lparr>th_data_offset := 0,
      th_window := of_le [a, ucast (drop_bit 8 win)], th_checksum := of_le [0, b]\<rparr>"
    by (simp add: header_of_bytes_def to_host_order_def segment_header_def wire_header_def
        byte_simps of_le_00 del: of_le.simps)
  then show ?thesis
    using L by (simp add: parse_def Let_def to_host_order_upd off fl' del: of_le.simps)
      (simp add: segment_header_def)
qed

text \<open>
  All five \<^verbatim>\<open>create_\<close> functions write a header and a payload and then seal the segment with its
  checksum.
\<close>

definition seal_segment :: "ptr \<Rightarrow> TcpHeader \<Rightarrow> u8 list \<Rightarrow> u32 \<Rightarrow> u32 \<Rightarrow> mem \<Rightarrow> mem" where
  "seal_segment buffer h ps src dst m =
     put_checksum buffer (20 + length ps) src dst
       (mem_write (mem_write m buffer (wire_header h)) (buffer + 20) ps)"

definition sealed_bytes :: "TcpHeader \<Rightarrow> u8 list \<Rightarrow> u32 \<Rightarrow> u32 \<Rightarrow> u8 list" where
  "sealed_bytes h ps src dst =
     (let c = calculate_checksum (wire_header h @ ps) src dst
      in (wire_header h @ ps)[16 := ucast (drop_bit 8 c), 17 := ucast c])"

lemma seal_bytes: "mem_read (seal_segment buffer h ps src dst m) buffer (20 + length ps) = sealed_bytes h ps src dst"
proof -
  let ?m = "mem_write (mem_write m buffer (wire_header h)) (buffer + 20) ps"
  have "?m = mem_write m buffer (wire_header h @ ps)" by (simp add: mem_write_append)
  then have "mem_read ?m buffer (20 + length ps) = wire_header h @ ps" by simp
  then show ?thesis
    using mem_read_write_2 [of 16 "20 + length ps" ?m buffer]
    by (simp add: seal_segment_def put_checksum_def Let_def sealed_bytes_def byte_simps)
qed

lemma seal_header_bytes:
  "mem_read (seal_segment buffer h ps src dst m) buffer 20 =
     (let c = calculate_checksum (wire_header h @ ps) src dst
      in (wire_header h)[16 := ucast (drop_bit 8 c), 17 := ucast c])"
  using arg_cong [OF seal_bytes [of buffer h ps src dst m], of "take 20"]
  by (simp add: sealed_bytes_def Let_def take_update_swap)

lemma seal_payload: "mem_read (seal_segment buffer h ps src dst m) (buffer + 20) (length ps) = ps"
  using arg_cong [OF seal_bytes [of buffer h ps src dst m], of "drop 20"]
  by (simp add: sealed_bytes_def Let_def)

lemma seal_frame:
  "a < buffer \<or> buffer + 20 + length ps \<le> a \<Longrightarrow> seal_segment buffer h ps src dst m a = m a"
  by (auto simp: seal_segment_def put_checksum_def Let_def mem_write_def)

lemma create_seal:
  "create_syn sp dp si di sq out m =
     (mk_Packet out 20 0, seal_segment out (segment_header sp dp sq 0 2 65535) [] si di m)"
  "create_syn_ack conn sq ak out m =
     (mk_Packet out 20 0, seal_segment out (segment_header (local_port conn) (remote_port conn) sq ak
        18 (window_size conn)) [] (local_ip conn) (remote_ip conn) m)"
  "create_ack conn ak out m =
     (mk_Packet out 20 0, seal_segment out (segment_header (local_port conn) (remote_port conn)
        (send_seq conn) ak 16 (window_size conn)) [] (local_ip conn) (remote_ip conn) m)"
  "create_fin conn out m =
     (mk_Packet out 20 0, seal_segment out (segment_header (local_port conn) (remote_port conn)
        (send_seq conn) (recv_seq conn) 17 (window_size conn)) [] (local_ip conn) (remote_ip conn) m)"
  by (simp_all add: create_syn_def create_syn_ack_def create_ack_def create_fin_def Let_def
      put_header_wire seal_segment_def)

lemma create_data_seal:
  assumes "unat len + 20 < 2 ^ 64" and "data + unat len \<le> out \<or> out + 20 \<le> data"
  shows "create_data conn data len out m =
     (mk_Packet out (20 + len) 0, seal_segment out (segment_header (local_port conn) (remote_port conn)
        (send_seq conn) (recv_seq conn) 24 (window_size conn)) (mem_read m data (unat len))
        (local_ip conn) (remote_ip conn) m)"
    and "unat (20 + len) = 20 + unat len"
proof -
  show n: "unat (20 + len) = 20 + unat len"
    using assms(1) by (subst unat_add_no_wrap) simp_all
  have "mem_read (mem_write m out (wire_header h)) data (unat len) = mem_read m data (unat len)" for h
    using assms(2) by (intro mem_read_write_disjoint) auto
  then show "create_data conn data len out m =
     (mk_Packet out (20 + len) 0, seal_segment out (segment_header (local_port conn) (remote_port conn)
        (send_seq conn) (recv_seq conn) 24 (window_size conn)) (mem_read m data (unat len))
        (local_ip conn) (remote_ip conn) m)"
    by (simp add: create_data_def Let_def put_header_wire seal_segment_def n)
qed

lemma parse_seal:
  assumes "fl < 4096" and "20 \<le> L"
  shows "parse (seal_segment buffer (segment_header sp dp sq ak fl win) ps src dst m) (mk_Packet buffer L 0) =
    (let c = calculate_checksum (wire_header (segment_header sp dp sq ak fl win) @ ps) src dst in
     Some ((segment_header sp dp sq ak fl win)
            \<lparr>th_window := of_le [ucast (drop_bit 8 c), ucast (drop_bit 8 win)],
             th_checksum := of_le [0, ucast c]\<rparr>,
          buffer + 20, L - 20))"
  unfolding Let_def
  by (rule parse_sealed [OF _ assms]) (simp add: seal_header_bytes Let_def)

lemma segment_header_sel [simp]:
  "th_source_port (segment_header sp dp sq ak fl win) = sp"
  "th_dest_port (segment_header sp dp sq ak fl win) = dp"
  "th_seq_num (segment_header sp dp sq ak fl win) = sq"
  "th_ack_num (segment_header sp dp sq ak fl win) = ak"
  "th_data_offset (segment_header sp dp sq ak fl win) = 5"
  "th_flags (segment_header sp dp sq ak fl win) = fl"
  "th_window (segment_header sp dp sq ak fl win) = win"
  "th_checksum (segment_header sp dp sq ak fl win) = 0"
  by (simp_all add: segment_header_def)

lemmas flag_defs = has_syn_def has_ack_def has_fin_def has_rst_def

section \<open>Correctness\<close>

text \<open>
  \<^bold>\<open>C10\<close>. A data segment that \<^verbatim>\<open>create_data\<close> builds parses back: ports, sequence and acknowledgement
  numbers are those of the connection, the flags are ACK and PSH, the payload is the caller's data,
  and no byte outside the 20 + \<open>len\<close> bytes of the output buffer has changed. The data must not
  overlap the output buffer, as \<^verbatim>\<open>memcpy\<close> requires.\<close>

theorem tcp_data_roundtrip:
  assumes "unat len + 20 < 2 ^ 64" and "data + unat len \<le> out \<or> out + 20 + unat len \<le> data"
    and "create_data conn data len out m = (pkt, m')"
  shows "(\<exists>h. parse m' pkt = Some (h, out + 20, len) \<and>
      th_source_port h = local_port conn \<and> th_dest_port h = remote_port conn \<and>
      th_seq_num h = send_seq conn \<and> th_ack_num h = recv_seq conn \<and> th_data_offset h = 5 \<and> th_flags h = 24 \<and>
      has_ack h \<and> \<not> has_syn h \<and> \<not> has_fin h \<and> \<not> has_rst h \<and> \<not> is_malformed_header h) \<and>
    mem_read m' (out + 20) (unat len) = mem_read m data (unat len) \<and>
    (\<forall>a. a < out \<or> out + 20 + unat len \<le> a \<longrightarrow> m' a = m a)"
proof (rule conjI [OF _ conjI])
  have dis: "data + unat len \<le> out \<or> out + 20 \<le> data" using assms(2) by auto
  note seal = create_data_seal(1) [OF assms(1) dis, of conn m] create_data_seal(2) [OF assms(1) dis]
  have "20 \<le> 20 + len" using seal(2) by (simp add: word_le_nat_alt)
  with seal(1) assms(3) show "\<exists>h. parse m' pkt = Some (h, out + 20, len) \<and>
      th_source_port h = local_port conn \<and> th_dest_port h = remote_port conn \<and>
      th_seq_num h = send_seq conn \<and> th_ack_num h = recv_seq conn \<and> th_data_offset h = 5 \<and> th_flags h = 24 \<and>
      has_ack h \<and> \<not> has_syn h \<and> \<not> has_fin h \<and> \<not> has_rst h \<and> \<not> is_malformed_header h"
    by (auto simp: parse_seal Let_def flag_defs is_malformed_header_def)
  show "mem_read m' (out + 20) (unat len) = mem_read m data (unat len)"
    using seal(1) assms(3) seal_payload [where ps = "mem_read m data (unat len)"] by auto
  show "\<forall>a. a < out \<or> out + 20 + unat len \<le> a \<longrightarrow> m' a = m a"
    using seal(1) assms(3) by (auto simp: seal_frame)
qed

text \<open>A connection, and memory in which the byte at address \<open>a\<close> is \<open>a\<close> modulo 256.\<close>

definition sample_conn :: TcpConnection where
  "sample_conn = TcpConnection_default\<lparr>local_port := 9000, remote_port := 40000, send_seq := 1000,
     recv_seq := 77, conn_state := ESTABLISHED\<rparr>"

definition sample_mem :: mem where
  "sample_mem a = of_nat a"

theorem tcp_data_roundtrip_witness:
  "\<exists>pkt m' h. create_data sample_conn 100 3 200 sample_mem = (pkt, m') \<and>
     parse m' pkt = Some (h, 220, 3) \<and> th_seq_num h = 1000 \<and> th_dest_port h = 40000 \<and>
     mem_read m' 220 3 = [100, 101, 102]"
proof -
  obtain pkt m' where c: "create_data sample_conn 100 3 200 sample_mem = (pkt, m')"
    by (cases "create_data sample_conn 100 3 200 sample_mem")
  show ?thesis
    using tcp_data_roundtrip [OF _ _ c] c
    by (auto simp: sample_conn_def sample_mem_def mem_read_def upt_rec)
qed

text \<open>
  The control segments parse back too: SYN, SYN-ACK, ACK and FIN carry exactly their flags,
  the ports, and the sequence and acknowledgement numbers they were built with, no payload, and
  write 20 bytes.\<close>

theorem tcp_control_roundtrip:
  "(\<exists>h. parse (snd (create_syn sp dp si di sq out m)) (fst (create_syn sp dp si di sq out m))
       = Some (h, out + 20, 0) \<and> th_flags h = 2 \<and> th_source_port h = sp \<and> th_dest_port h = dp \<and>
       th_seq_num h = sq \<and> th_ack_num h = 0) \<and>
   (\<exists>h. parse (snd (create_syn_ack conn sq ak out m)) (fst (create_syn_ack conn sq ak out m))
       = Some (h, out + 20, 0) \<and> th_flags h = 18 \<and> th_source_port h = local_port conn \<and>
       th_dest_port h = remote_port conn \<and> th_seq_num h = sq \<and> th_ack_num h = ak) \<and>
   (\<exists>h. parse (snd (create_ack conn ak out m)) (fst (create_ack conn ak out m))
       = Some (h, out + 20, 0) \<and> th_flags h = 16 \<and> th_source_port h = local_port conn \<and>
       th_dest_port h = remote_port conn \<and> th_seq_num h = send_seq conn \<and> th_ack_num h = ak) \<and>
   (\<exists>h. parse (snd (create_fin conn out m)) (fst (create_fin conn out m))
       = Some (h, out + 20, 0) \<and> th_flags h = 17 \<and> th_source_port h = local_port conn \<and>
       th_dest_port h = remote_port conn \<and> th_seq_num h = send_seq conn \<and> th_ack_num h = recv_seq conn)"
  by (simp add: create_seal parse_seal Let_def)

text \<open>
  \<^verbatim>\<open>parse\<close> never points outside the packet: it fails on anything shorter than 20 bytes, and
  when it succeeds the payload starts at or after byte 20 and ends where the packet ends.\<close>

theorem tcp_parse_bounds:
  assumes "parse m pkt = Some (h, payload, len)"
  shows "20 \<le> unat (pkt_len pkt) \<and> pkt_data pkt + 20 \<le> payload \<and>
    payload + unat len = pkt_data pkt + unat (pkt_len pkt) \<and>
    payload = pkt_data pkt + 4 * unat (th_data_offset h)"
proof -
  let ?o = "th_data_offset h"
  have o: "unat (ucast ?o * 4 :: size_type) = 4 * unat ?o"
  proof -
    have "unat ?o < 2 ^ 62" by (rule less_trans [OF unat_less_2p8]) simp
    then show ?thesis by (subst unat_mult_no_wrap) (simp_all add: unat_ucast_up)
  qed
  from assms have "\<not> pkt_len pkt < 20" "\<not> ucast ?o * 4 < (20 :: size_type)"
    "\<not> ucast ?o * 4 > pkt_len pkt" "payload = pkt_data pkt + unat (ucast ?o * 4 :: size_type)"
    "len = pkt_len pkt - ucast ?o * 4"
    by (auto simp: parse_def Let_def split: if_splits)
  then show ?thesis
    by (auto simp: word_less_nat_alt o unat_sub_le)
qed

theorem tcp_parse_bounds_witness:
  "\<exists>h payload len. parse (snd (create_fin sample_conn 200 sample_mem)) (fst (create_fin sample_conn 200 sample_mem))
     = Some (h, payload, len) \<and> payload + unat len = 220"
proof -
  obtain h where p: "parse (snd (create_fin sample_conn 200 sample_mem))
      (fst (create_fin sample_conn 200 sample_mem)) = Some (h, 220, 0)"
    by (simp add: create_seal parse_seal Let_def)
  with tcp_parse_bounds [OF p] show ?thesis by (auto simp: create_seal)
qed

text \<open>
  The window and the checksum share a byte on the wire, because the struct is one byte longer
  than the header: a peer reads as low byte of the advertised window the high byte of the checksum,
  and as checksum field only the checksum's low byte.\<close>

theorem tcp_window_overlaps_checksum:
  "\<exists>h. parse (snd (create_ack conn ak out m)) (fst (create_ack conn ak out m)) = Some (h, out + 20, 0) \<and>
     (let c = calculate_checksum (wire_header (segment_header (local_port conn) (remote_port conn)
                (send_seq conn) ak 16 (window_size conn))) (local_ip conn) (remote_ip conn)
      in unat (th_window h) = 256 * (unat (window_size conn) div 256) + unat c div 256 \<and>
         unat (th_checksum h) = 256 * (unat c mod 256))"
proof -
  have d8: "unat (drop_bit 8 w) mod 256 = unat w div 256" for w :: u16
  proof -
    have "unat w div 256 < 256" using unat_less_2p16 [of w] by (simp add: div_less_iff_less_mult)
    then show ?thesis by (simp add: drop_bit_eq_div unat_div)
  qed
  have m8: "unat (ucast w :: u8) = unat w mod 256" for w :: u16
    by (simp add: unsigned_ucast_eq take_bit_eq_mod)
  show ?thesis
    by (simp add: create_seal parse_seal Let_def unat_of_le_2 d8 m8 del: of_le.simps)
qed

text \<open>Two segments that differ only in the word at bytes 16 and 17.\<close>

lemma seal_accepts_iff:
  assumes "length ps < 65516" and "th_checksum h = 0"
  shows "calculate_checksum (wire_header h @ ps) src dst
    = calculate_checksum ((wire_header h @ ps)[16 := 0, 17 := 0]) src dst
    \<longleftrightarrow> unat (th_window h) mod 256 = 0"
proof -
  let ?bs = "wire_header h @ ps"
  let ?n = "pseudo_total 0x0006 (length ?bs) src dst"
  have p: "ntohs (0x0006 :: u16) \<noteq> 0" by (simp add: htons_shift)
  have len: "length ?bs < 65536" "length (?bs[16 := 0, 17 := 0]) < 65536" using assms(1) by simp_all
  have wv: "word_value ?bs 8 = 256 * (unat (th_window h) mod 256)"
    using assms(2) by (simp add: word_value_def wire_header_def byte_simps nth_append
        unsigned_ucast_eq take_bit_eq_mod)
  have tot: "data_total (?bs[16 := 0, 17 := 0]) + word_value ?bs 8 = data_total ?bs"
    using data_total_update [of 8 ?bs 0 0] by simp
  have "calculate_checksum ?bs src dst = calculate_checksum (?bs[16 := 0, 17 := 0]) src dst \<longleftrightarrow>
      (?n + data_total ?bs) mod 65535 = (?n + data_total (?bs[16 := 0, 17 := 0])) mod 65535"
    unfolding calculate_checksum_def inet_checksum_total
    using checksum_eq_iff [OF total_bounds [OF p len(1)] total_bounds [OF p len(2)]] by simp
  also have "\<dots> \<longleftrightarrow> word_value ?bs 8 mod 65535 = 0"
    unfolding tot [symmetric] by (simp add: add.assoc [symmetric] mod_add_absorb_iff)
  also have "\<dots> \<longleftrightarrow> unat (th_window h) mod 256 = 0"
    using mod_less_divisor [of 256 "unat (th_window h)"] unfolding wv by (subst mod_less) simp_all
  finally show ?thesis .
qed

lemma validate_seal:
  assumes "length ps < 65516" and "th_checksum h = 0" and "out \<noteq> nullptr"
    and "unat L = 20 + length ps"
  shows "validate_checksum (seal_segment out h ps src dst m) (mk_Packet out L 0) src dst
    \<longleftrightarrow> unat (th_window h) mod 256 = 0"
proof -
  let ?bs = "wire_header h @ ps" and ?c = "calculate_checksum (wire_header h @ ps) src dst"
  have bytes: "pkt_bytes (seal_segment out h ps src dst m) (mk_Packet out L 0)
      = ?bs[16 := ucast (drop_bit 8 ?c), 17 := ucast ?c]"
    using seal_bytes [of out h ps src dst m] assms(4)
    by (simp add: pkt_bytes_def sealed_bytes_def Let_def)
  have "\<not> L < 20" using assms(4) by (simp add: word_less_nat_alt)
  moreover have "ntohs (of_le [ucast (drop_bit 8 ?c), ucast ?c]) = ?c"
    by (simp add: byte_simps del: of_le.simps)
  moreover have "?bs[16 := a, 17 := b, 16 := 0, 17 := 0] = ?bs[16 := 0, 17 := 0]" for a b
    by (simp add: list_update_swap [of 16 17])
  ultimately have "validate_checksum (seal_segment out h ps src dst m) (mk_Packet out L 0) src dst
      \<longleftrightarrow> ?c = calculate_checksum (?bs[16 := 0, 17 := 0]) src dst"
    using assms(3) by (simp add: validate_checksum_def bytes Let_def del: of_le.simps)
  then show ?thesis using seal_accepts_iff [OF assms(1,2)] by simp
qed

text \<open>
  \<^verbatim>\<open>validate_checksum\<close> accepts a segment built by this very class exactly when the low byte of
  the advertised window is zero: the checksum is computed while that byte still sits where the
  checksum is then stored. With the default window of 65535 every segment is rejected, and every
  SYN is.\<close>

theorem tcp_validate_iff_window:
  assumes "unat len < 65516" and "data + unat len \<le> out \<or> out + 20 + unat len \<le> data"
    and "out \<noteq> nullptr" and "create_data conn data len out m = (pkt, m')"
  shows "(validate_checksum m' pkt (local_ip conn) (remote_ip conn)
      \<longleftrightarrow> unat (window_size conn) mod 256 = 0) \<and>
    parse_and_validate (snd (create_syn sp dp si di sq out m)) (fst (create_syn sp dp si di sq out m))
      si di = None"
proof
  have "unat len + 20 < 2 ^ 64" "data + unat len \<le> out \<or> out + 20 \<le> data" using assms(1,2) by auto
  note seal = create_data_seal(1) [OF this, of conn m] create_data_seal(2) [OF this]
  show "validate_checksum m' pkt (local_ip conn) (remote_ip conn)
      \<longleftrightarrow> unat (window_size conn) mod 256 = 0"
    using seal assms(4) validate_seal [where ps = "mem_read m data (unat len)"] assms(1,3) by auto
  have "\<not> validate_checksum (snd (create_syn sp dp si di sq out m))
      (fst (create_syn sp dp si di sq out m)) si di"
    using validate_seal [of "[]" "segment_header sp dp sq 0 2 65535" out 20] assms(3)
    by (simp add: create_seal)
  then show "parse_and_validate (snd (create_syn sp dp si di sq out m))
      (fst (create_syn sp dp si di sq out m)) si di = None"
    by (auto simp: parse_and_validate_def split: option.splits)
qed

theorem tcp_validate_iff_window_witness:
  "\<exists>pkt m'. create_data sample_conn 100 3 200 sample_mem = (pkt, m') \<and>
     \<not> validate_checksum m' pkt (local_ip sample_conn) (remote_ip sample_conn)"
proof -
  obtain pkt m' where c: "create_data sample_conn 100 3 200 sample_mem = (pkt, m')"
    by (cases "create_data sample_conn 100 3 200 sample_mem")
  show ?thesis
    using tcp_validate_iff_window [OF _ _ _ c] c
    by (simp add: sample_conn_def TcpConnection_default_def)
qed

text \<open>
  \<^bold>\<open>C19\<close>. The checksum detects the corruption of any single 16-bit word of a segment below 64 KiB,
  other than a word of all zeros that turns into all ones or the reverse, which one's-complement
  sums cannot tell apart.\<close>

theorem tcp_checksum_detects_word:
  assumes "length bs < 65536" and "2 * k + 1 < length bs"
    and "word_value bs k \<noteq> 256 * unat a + unat b"
    and "{word_value bs k, 256 * unat a + unat b} \<noteq> {0, 65535}"
  shows "calculate_checksum (bs[2 * k := a, 2 * k + 1 := b]) src dst \<noteq> calculate_checksum bs src dst"
proof -
  let ?bs = "bs[2 * k := a, 2 * k + 1 := b]" and ?v = "word_value bs k" and ?v' = "256 * unat a + unat b"
  let ?n = "pseudo_total 0x0006 (length bs) src dst"
  have p: "ntohs (0x0006 :: u16) \<noteq> 0" by (simp add: htons_shift)
  have len: "length ?bs < 65536" using assms(1) by simp
  have small: "?v < 65536" "?v' < 65536"
    using word_value_less [of bs k] unat_less_2p8 [of a] unat_less_2p8 [of b] by linarith+
  have tot: "data_total ?bs + ?v = data_total bs + ?v'" using data_total_update [OF assms(2), of a b] by simp
  have "calculate_checksum ?bs src dst = calculate_checksum bs src dst \<longleftrightarrow>
      (?n + data_total ?bs) mod 65535 = (?n + data_total bs) mod 65535"
    unfolding calculate_checksum_def inet_checksum_total
    using checksum_eq_iff [OF total_bounds [OF p len] total_bounds [OF p assms(1)]] by simp
  moreover have False if eq: "(?n + data_total ?bs) mod 65535 = (?n + data_total bs) mod 65535"
  proof -
    have "(?n + data_total bs + ?v') mod 65535 = (?n + data_total bs + ?v) mod 65535"
      using tot mod_add_cong [OF eq refl [of "?v mod 65535"]] by (simp add: add.assoc)
    then have "?v' mod 65535 = ?v mod 65535" by (rule mod_add_left_cancel)
    then show False using small assms(3,4) by (cases "?v = 65535"; cases "?v' = 65535") auto
  qed
  ultimately show ?thesis by blast
qed

theorem tcp_checksum_detects_word_witness:
  "calculate_checksum [0, 80, 9, 2, 7] 1 2 \<noteq> calculate_checksum [0, 80, 1, 2, 7] 1 2"
  using tcp_checksum_detects_word [of "[0, 80, 1, 2, 7]" 1 9 2 1 2]
  by (simp add: word_value_def doubleton_eq_iff)

end
