(* ===== verification/Tcp_State_Machine.thy ===== *)
theory Tcp_State_Machine
  imports Tcp_Protocol
begin

text \<open>
  Connection state of \<^verbatim>\<open>protocol/tcp_state_machine.hpp\<close>: the transition table, closing, keep-alive and
  window helpers, and \<^verbatim>\<open>handle_incoming\<close> with its early returns. A function that mutates the
  connection returns its result with the connection it leaves.
\<close>

section \<open>Operations\<close>

fun can_transition :: "TcpState \<Rightarrow> TcpState \<Rightarrow> bool" where
  "can_transition CLOSED s \<longleftrightarrow> s = LISTEN \<or> s = SYN_SENT"
| "can_transition LISTEN s \<longleftrightarrow> s = SYN_RECEIVED \<or> s = CLOSED"
| "can_transition SYN_SENT s \<longleftrightarrow> s = ESTABLISHED \<or> s = CLOSED"
| "can_transition SYN_RECEIVED s \<longleftrightarrow> s = ESTABLISHED \<or> s = CLOSED"
| "can_transition ESTABLISHED s \<longleftrightarrow> s = FIN_WAIT_1 \<or> s = CLOSE_WAIT"
| "can_transition FIN_WAIT_1 s \<longleftrightarrow> s = FIN_WAIT_2 \<or> s = CLOSING \<or> s = TIME_WAIT"
| "can_transition FIN_WAIT_2 s \<longleftrightarrow> s = TIME_WAIT"
| "can_transition CLOSE_WAIT s \<longleftrightarrow> s = LAST_ACK"
| "can_transition CLOSING s \<longleftrightarrow> s = TIME_WAIT"
| "can_transition LAST_ACK s \<longleftrightarrow> s = CLOSED"
| "can_transition TIME_WAIT s \<longleftrightarrow> s = CLOSED"

definition transition_state :: "TcpConnection \<Rightarrow> TcpState \<Rightarrow> bool \<times> TcpConnection" where
  "transition_state conn s =
     (if \<not> can_transition (conn_state conn) s then (False, conn)
      else (True, conn\<lparr>conn_state := s\<rparr>))"

definition initiate_close :: "TcpConnection \<Rightarrow> bool \<times> TcpConnection" where
  "initiate_close conn =
     (if conn_state conn = ESTABLISHED then transition_state conn FIN_WAIT_1
      else if conn_state conn = CLOSE_WAIT then transition_state conn LAST_ACK
      else (False, conn))"

definition should_send_keepalive :: "u64 \<Rightarrow> u64 \<Rightarrow> u64 \<Rightarrow> bool" where
  "should_send_keepalive now_ms last_activity_ms interval_ms \<longleftrightarrow>
     now_ms > last_activity_ms \<and> now_ms - last_activity_ms \<ge> interval_ms"

definition create_keepalive :: "TcpConnection \<Rightarrow> ptr \<Rightarrow> mem \<Rightarrow> Packet \<times> mem" where
  "create_keepalive conn out_buffer m = create_ack conn (send_ack conn) out_buffer m"

definition can_send :: "TcpConnection \<Rightarrow> size_type \<Rightarrow> bool" where
  "can_send conn payload_len \<longleftrightarrow> payload_len \<le> ucast (peer_window conn)"

definition on_window_update :: "TcpConnection \<Rightarrow> u16 \<Rightarrow> TcpConnection" where
  "on_window_update conn window = conn\<lparr>peer_window := ucast window, window_size := window\<rparr>"

text \<open>
  \<^verbatim>\<open>handle_incoming\<close> in four parts, each either done (an early return) or going on with the
  connection as it is then.
\<close>

definition incoming_syn :: "TcpConnection \<Rightarrow> TcpHeader \<Rightarrow> (bool \<times> TcpConnection) + TcpConnection" where
  "incoming_syn conn header =
     (if has_syn header then
        let conn = conn\<lparr>recv_seq := th_seq_num header + 1\<rparr> in
        if conn_state conn = LISTEN then
          Inl (transition_state (conn\<lparr>send_ack := recv_seq conn\<rparr>) SYN_RECEIVED)
        else if conn_state conn = SYN_SENT \<and> has_ack header then
          Inl (transition_state (conn\<lparr>send_ack := th_ack_num header\<rparr>) ESTABLISHED)
        else Inr conn
      else Inr conn)"

definition incoming_ack :: "TcpConnection \<Rightarrow> TcpHeader \<Rightarrow> (bool \<times> TcpConnection) + TcpConnection" where
  "incoming_ack conn header =
     (if has_ack header then
        if th_ack_num header \<le> recv_ack conn \<and> \<not> has_fin header then Inl (True, conn)
        else
          let conn = conn\<lparr>recv_ack := th_ack_num header\<rparr> in
          if conn_state conn = SYN_RECEIVED then Inl (transition_state conn ESTABLISHED)
          else if conn_state conn = FIN_WAIT_1 then
            (if has_fin header then Inl (transition_state conn TIME_WAIT)
             else Inl (transition_state conn FIN_WAIT_2))
          else if conn_state conn = CLOSING then Inl (transition_state conn TIME_WAIT)
          else if conn_state conn = LAST_ACK then Inl (transition_state conn CLOSED)
          else Inr conn
      else Inr conn)"

definition incoming_payload ::
    "TcpConnection \<Rightarrow> TcpHeader \<Rightarrow> size_type \<Rightarrow> (bool \<times> TcpConnection) + TcpConnection" where
  "incoming_payload conn header payload_len =
     (if payload_len > 0 \<and> th_seq_num header = recv_seq conn then
        let conn = conn\<lparr>recv_seq := recv_seq conn + ucast payload_len\<rparr> in
        Inr (conn\<lparr>send_ack := recv_seq conn\<rparr>)
      else if payload_len > 0 \<and> th_seq_num header < recv_seq conn then Inl (True, conn)
      else Inr conn)"

definition incoming_fin :: "TcpConnection \<Rightarrow> TcpHeader \<Rightarrow> size_type \<Rightarrow> bool \<times> TcpConnection" where
  "incoming_fin conn header payload_len =
     (if has_fin header then
        let conn =
              (if payload_len > 0 \<and> th_seq_num header + ucast payload_len = recv_seq conn
               then conn\<lparr>recv_seq := recv_seq conn + 1\<rparr>
               else conn\<lparr>recv_seq := th_seq_num header + ucast payload_len + 1\<rparr>);
            conn = conn\<lparr>send_ack := recv_seq conn\<rparr>
        in if conn_state conn = ESTABLISHED then transition_state conn CLOSE_WAIT
           else if conn_state conn = FIN_WAIT_1 then transition_state conn CLOSING
           else if conn_state conn = FIN_WAIT_2 \<or> conn_state conn = FIN_WAIT_1
                then transition_state conn TIME_WAIT
           else (True, conn)
      else (True, conn))"

definition handle_incoming :: "TcpConnection \<Rightarrow> TcpHeader \<Rightarrow> size_type \<Rightarrow> bool \<times> TcpConnection" where
  "handle_incoming conn header payload_len =
     (let conn = on_window_update conn (th_window header) in
      case incoming_syn conn header of Inl r \<Rightarrow> r | Inr conn \<Rightarrow>
      (case incoming_ack conn header of Inl r \<Rightarrow> r | Inr conn \<Rightarrow>
       (case incoming_payload conn header payload_len of Inl r \<Rightarrow> r | Inr conn \<Rightarrow>
        incoming_fin conn header payload_len)))"

section \<open>Transitions\<close>

text \<open>
  The states that a segment can move a connection to. They are fewer than the table allows: no
  segment opens a closed connection, and leaving \<^verbatim>\<open>TIME_WAIT\<close> takes an explicit transition.
\<close>

fun segment_moves :: "TcpState \<Rightarrow> TcpState list" where
  "segment_moves LISTEN = [SYN_RECEIVED]"
| "segment_moves SYN_SENT = [ESTABLISHED]"
| "segment_moves SYN_RECEIVED = [ESTABLISHED]"
| "segment_moves ESTABLISHED = [CLOSE_WAIT]"
| "segment_moves FIN_WAIT_1 = [FIN_WAIT_2, CLOSING, TIME_WAIT]"
| "segment_moves FIN_WAIT_2 = [TIME_WAIT]"
| "segment_moves CLOSING = [TIME_WAIT]"
| "segment_moves LAST_ACK = [CLOSED]"
| "segment_moves _ = []"

definition allowed :: "TcpState \<Rightarrow> TcpState \<Rightarrow> bool" where
  "allowed s s' \<longleftrightarrow> s' = s \<or> s' \<in> set (segment_moves s)"

lemma allowed_refl [simp]: "allowed s s"
  by (simp add: allowed_def)

lemma segment_moves_legal: "s' \<in> set (segment_moves s) \<Longrightarrow> can_transition s s'"
  by (cases s) auto

lemma transition_state_ok:
  "can_transition (conn_state c) s \<Longrightarrow> transition_state c s = (True, c\<lparr>conn_state := s\<rparr>)"
  by (simp add: transition_state_def)

lemmas incoming_defs = incoming_syn_def incoming_ack_def incoming_payload_def incoming_fin_def
  on_window_update_def transition_state_def

lemma incoming_syn_cases:
  "incoming_syn c h = Inl (r, c') \<Longrightarrow> r \<and> allowed (conn_state c) (conn_state c')"
  "incoming_syn c h = Inr c' \<Longrightarrow> conn_state c' = conn_state c"
  by (auto simp: incoming_syn_def transition_state_def allowed_def Let_def split: if_splits)

lemma incoming_ack_cases:
  "incoming_ack c h = Inl (r, c') \<Longrightarrow> r \<and> allowed (conn_state c) (conn_state c')"
  "incoming_ack c h = Inr c' \<Longrightarrow> conn_state c' = conn_state c"
  by (auto simp: incoming_ack_def transition_state_def allowed_def Let_def split: if_splits)

lemma incoming_payload_cases:
  "incoming_payload c h n = Inl (r, c') \<Longrightarrow> r \<and> conn_state c' = conn_state c"
  "incoming_payload c h n = Inr c' \<Longrightarrow> conn_state c' = conn_state c"
  by (auto simp: incoming_payload_def Let_def split: if_splits)

lemma incoming_fin_allowed:
  "incoming_fin c h n = (r, c') \<Longrightarrow> r \<and> allowed (conn_state c) (conn_state c')"
  by (auto simp: incoming_fin_def transition_state_def allowed_def Let_def split: if_splits)

lemma handle_incoming_allowed:
  assumes "handle_incoming c h n = (r, c')"
  shows "r \<and> allowed (conn_state c) (conn_state c')"
proof -
  have w: "conn_state (on_window_update c (th_window h)) = conn_state c"
    by (simp add: on_window_update_def)
  show ?thesis
    using assms incoming_syn_cases [of "on_window_update c (th_window h)" h]
    unfolding handle_incoming_def Let_def w
    by (auto split: sum.splits
        dest!: incoming_ack_cases incoming_payload_cases incoming_fin_allowed)
qed

text \<open>Everything that happens to a connection after it was set up: segments arrive, or it is closed.\<close>

inductive conn_step :: "TcpConnection \<Rightarrow> TcpConnection \<Rightarrow> bool" where
  step_segment: "handle_incoming c h n = (r, c') \<Longrightarrow> conn_step c c'"
| step_close: "initiate_close c = (r, c') \<Longrightarrow> conn_step c c'"

inductive_cases conn_stepE: "conn_step c c'"

fun conn_rank :: "TcpState \<Rightarrow> nat" where
  "conn_rank LISTEN = 0"
| "conn_rank SYN_SENT = 0"
| "conn_rank SYN_RECEIVED = 1"
| "conn_rank ESTABLISHED = 2"
| "conn_rank FIN_WAIT_1 = 3"
| "conn_rank CLOSE_WAIT = 3"
| "conn_rank FIN_WAIT_2 = 4"
| "conn_rank CLOSING = 4"
| "conn_rank LAST_ACK = 4"
| "conn_rank TIME_WAIT = 5"
| "conn_rank CLOSED = 6"

lemma initiate_close_cases:
  assumes "initiate_close c = (r, c')"
  shows "conn_state c' = conn_state c \<or> can_transition (conn_state c) (conn_state c')"
    and "conn_state c' = conn_state c \<or> conn_rank (conn_state c) < conn_rank (conn_state c')"
  using assms by (auto simp: initiate_close_def transition_state_def split: if_splits)

lemma conn_step_cases:
  assumes "conn_step c c'"
  shows "conn_state c' = conn_state c \<or> can_transition (conn_state c) (conn_state c')"
    and "conn_state c' = conn_state c \<or> conn_rank (conn_state c) < conn_rank (conn_state c')"
proof -
  have rank: "s' \<in> set (segment_moves s) \<Longrightarrow> conn_rank s < conn_rank s'" for s s'
    by (cases s) auto
  from assms have "(conn_state c' = conn_state c \<or> can_transition (conn_state c) (conn_state c')) \<and>
    (conn_state c' = conn_state c \<or> conn_rank (conn_state c) < conn_rank (conn_state c'))"
  proof (cases rule: conn_step.cases)
    case (step_segment h n r)
    then show ?thesis using handle_incoming_allowed [OF step_segment] rank segment_moves_legal
      by (auto simp: allowed_def)
  next
    case (step_close r)
    then show ?thesis using initiate_close_cases [OF step_close] by simp
  qed
  then show "conn_state c' = conn_state c \<or> can_transition (conn_state c) (conn_state c')"
    "conn_state c' = conn_state c \<or> conn_rank (conn_state c) < conn_rank (conn_state c')" by auto
qed

text \<open>
  Which state a segment leads to, as a table: what the flags are, whether the segment acknowledges something new or carries FIN
  (\<open>counts\<close>), and whether its payload lies before the expected byte (\<open>old\<close>).
\<close>

fun segment_state :: "TcpState \<Rightarrow> bool \<Rightarrow> bool \<Rightarrow> bool \<Rightarrow> bool \<Rightarrow> bool \<Rightarrow> TcpState" where
  "segment_state LISTEN syn ack fin counts old = (if syn then SYN_RECEIVED else LISTEN)"
| "segment_state SYN_SENT syn ack fin counts old = (if syn \<and> ack then ESTABLISHED else SYN_SENT)"
| "segment_state SYN_RECEIVED syn ack fin counts old = (if ack \<and> counts then ESTABLISHED else SYN_RECEIVED)"
| "segment_state ESTABLISHED syn ack fin counts old = (if fin \<and> \<not> old then CLOSE_WAIT else ESTABLISHED)"
| "segment_state FIN_WAIT_1 syn ack fin counts old =
     (if ack \<and> fin then TIME_WAIT else if ack \<and> counts then FIN_WAIT_2 else if fin \<and> \<not> old then CLOSING else FIN_WAIT_1)"
| "segment_state FIN_WAIT_2 syn ack fin counts old = (if fin \<and> \<not> old then TIME_WAIT else FIN_WAIT_2)"
| "segment_state CLOSING syn ack fin counts old = (if ack \<and> counts then TIME_WAIT else CLOSING)"
| "segment_state LAST_ACK syn ack fin counts old = (if ack \<and> counts then CLOSED else LAST_ACK)"
| "segment_state s syn ack fin counts old = s"

lemma handle_incoming_state:
  "conn_state (snd (handle_incoming c h n)) = segment_state (conn_state c) (has_syn h) (has_ack h) (has_fin h)
     (recv_ack c < th_ack_num h \<or> has_fin h) (0 < n \<and> th_seq_num h < (if has_syn h then th_seq_num h + 1 else recv_seq c))"
  by (cases "conn_state c"; cases "has_syn h"; cases "has_ack h"; cases "has_fin h"; cases "th_ack_num h \<le> recv_ack c")
    (simp_all add: handle_incoming_def incoming_defs Let_def flip: not_le)

lemma initiate_close_state:
  "initiate_close c = (if conn_state c = ESTABLISHED then (True, c\<lparr>conn_state := FIN_WAIT_1\<rparr>)
     else if conn_state c = CLOSE_WAIT then (True, c\<lparr>conn_state := LAST_ACK\<rparr>) else (False, c))"
  by (simp add: initiate_close_def transition_state_def)

lemma conn_steps_rank:
  "conn_step\<^sup>*\<^sup>* c c' \<Longrightarrow> conn_state c' = conn_state c \<or> conn_rank (conn_state c) < conn_rank (conn_state c')"
  by (induction rule: rtranclp_induct) (auto dest!: conn_step_cases(2))

text \<open>
  \<^bold>\<open>C11\<close>. Whatever segments arrive and however often the application closes, every single step of a connection either keeps its
  state or takes one transition of the table \<^verbatim>\<open>can_transition\<close>, and a state that has been left is never entered again by a later
  step: a connection that has begun to close is never open again, a closed one stays closed. Which state a segment leads
  to is the one of the table \<open>segment_state\<close>, \<^verbatim>\<open>initiate_close\<close> moves exactly open connections and those whose peer has closed, and
  \<^verbatim>\<open>handle_incoming\<close> never attempts an illegal transition: it always returns true.\<close>

theorem tcp_transitions_legal:
  assumes "conn_step c1 c2" and "conn_step\<^sup>*\<^sup>* c2 c3"
  shows "(conn_state c2 = conn_state c1 \<or> can_transition (conn_state c1) (conn_state c2)) \<and>
    (conn_state c2 \<noteq> conn_state c1 \<longrightarrow> conn_state c3 \<noteq> conn_state c1) \<and>
    fst (handle_incoming c1 h n) \<and>
    conn_state (snd (handle_incoming c1 h n)) = segment_state (conn_state c1) (has_syn h) (has_ack h) (has_fin h)
      (recv_ack c1 < th_ack_num h \<or> has_fin h) (0 < n \<and> th_seq_num h < (if has_syn h then th_seq_num h + 1 else recv_seq c1)) \<and>
    initiate_close c1 = (if conn_state c1 = ESTABLISHED then (True, c1\<lparr>conn_state := FIN_WAIT_1\<rparr>)
      else if conn_state c1 = CLOSE_WAIT then (True, c1\<lparr>conn_state := LAST_ACK\<rparr>) else (False, c1))"
proof (intro conjI)
  show "conn_state c2 = conn_state c1 \<or> can_transition (conn_state c1) (conn_state c2)" by (rule conn_step_cases(1) [OF assms(1)])
  show "conn_state c2 \<noteq> conn_state c1 \<longrightarrow> conn_state c3 \<noteq> conn_state c1"
    using conn_step_cases(2) [OF assms(1)] conn_steps_rank [OF assms(2)] by auto
  show "fst (handle_incoming c1 h n)"
    using handle_incoming_allowed [of c1 h n] by (cases "handle_incoming c1 h n") auto
qed (rule handle_incoming_state initiate_close_state)+

text \<open>An open connection is closed by its side and gets the FIN of the peer with an acknowledgement.\<close>

theorem tcp_transitions_legal_witness:
  "let c2 = snd (initiate_close sample_conn); h = segment_header 40000 9000 77 1001 17 4096 in
   conn_state sample_conn = ESTABLISHED \<and> conn_state c2 = FIN_WAIT_1 \<and> can_transition ESTABLISHED (conn_state c2) \<and>
   conn_state (snd (handle_incoming c2 h 0)) = TIME_WAIT \<and> conn_state (snd (handle_incoming c2 h 0)) \<noteq> ESTABLISHED"
proof -
  let ?c2 = "snd (initiate_close sample_conn)" and ?h = "segment_header 40000 9000 77 1001 17 4096"
  let ?c3 = "snd (handle_incoming ?c2 ?h 0)"
  have steps: "conn_step sample_conn ?c2" "conn_step ?c2 ?c3"
    by (rule step_close [of _ "fst (initiate_close sample_conn)"], simp, rule step_segment [of _ ?h 0 "fst (handle_incoming ?c2 ?h 0)"], simp)
  have "conn_step\<^sup>*\<^sup>* ?c2 ?c3" using steps(2) by blast
  note a = tcp_transitions_legal [OF steps(1) this, of ?h 0] and b = tcp_transitions_legal [OF steps(2) rtranclp.rtrancl_refl, of ?h 0]
  have open1: "conn_state sample_conn = ESTABLISHED" by (simp add: sample_conn_def)
  then have two: "conn_state ?c2 = FIN_WAIT_1" by (simp add: initiate_close_state)
  with b have "conn_state ?c3 = TIME_WAIT" by (simp add: flag_defs)
  with a open1 two show ?thesis unfolding Let_def by simp
qed

text \<open>
  \<^bold>\<open>C20\<close>. How an established connection accounts for any segment without SYN. A segment that carries ACK but neither a new
  acknowledgement number nor FIN changes nothing, whatever its payload; nor does a payload from before the expected byte, even with
  FIN. Otherwise FIN sets the receive sequence to the byte after the segment's, gap or not, and a segment without FIN advances it by
  its payload exactly when it starts at the expected byte. The acknowledgement number is taken over when it is new or comes with FIN.\<close>

theorem tcp_data_accounting:
  assumes "conn_state c = ESTABLISHED" and "\<not> has_syn h"
  shows "recv_seq (snd (handle_incoming c h n)) =
      (if has_ack h \<and> th_ack_num h \<le> recv_ack c \<and> \<not> has_fin h \<or> 0 < n \<and> th_seq_num h < recv_seq c then recv_seq c
       else if has_fin h then th_seq_num h + ucast n + 1
       else if 0 < n \<and> th_seq_num h = recv_seq c then recv_seq c + ucast n else recv_seq c) \<and>
    recv_ack (snd (handle_incoming c h n)) = (if has_ack h \<and> (recv_ack c < th_ack_num h \<or> has_fin h) then th_ack_num h else recv_ack c) \<and>
    conn_state (snd (handle_incoming c h n)) = (if has_fin h \<and> \<not> (0 < n \<and> th_seq_num h < recv_seq c) then CLOSE_WAIT else ESTABLISHED)"
proof (intro conjI)
  show "conn_state (snd (handle_incoming c h n)) = (if has_fin h \<and> \<not> (0 < n \<and> th_seq_num h < recv_seq c) then CLOSE_WAIT else ESTABLISHED)"
    using handle_incoming_state [of c h n] assms by simp
qed (use assms in \<open>auto simp: handle_incoming_def incoming_defs Let_def not_less split: if_splits\<close>)

definition sample_header :: "u32 \<Rightarrow> u32 \<Rightarrow> TcpHeader" where
  "sample_header sq ak = segment_header 40000 9000 sq ak 24 4096"

theorem tcp_data_accounting_witness:
  "recv_seq (snd (handle_incoming sample_conn (sample_header 77 1000) 10)) = 87 \<and>
   recv_seq (snd (handle_incoming (sample_conn\<lparr>recv_ack := 1000\<rparr>) (sample_header 77 1000) 10)) = 77 \<and>
   recv_seq (snd (handle_incoming sample_conn (segment_header 40000 9000 200 1000 17 4096) 10)) = 211"
  using tcp_data_accounting [of sample_conn "sample_header 77 1000" 10]
    tcp_data_accounting [of "sample_conn\<lparr>recv_ack := 1000\<rparr>" "sample_header 77 1000" 10]
    tcp_data_accounting [of sample_conn "segment_header 40000 9000 200 1000 17 4096" 10]
  by (simp add: sample_conn_def TcpConnection_default_def sample_header_def flag_defs)

section \<open>Two endpoints\<close>

text \<open>An endpoint that parses a packet out of memory and hands it to its connection.\<close>

definition receive :: "mem \<Rightarrow> Packet \<Rightarrow> TcpConnection \<Rightarrow> TcpConnection" where
  "receive m pkt conn =
     (case parse m pkt of None \<Rightarrow> conn | Some (h, _, n) \<Rightarrow> snd (handle_incoming conn h n))"

text \<open>
  The three-way handshake: the client's SYN, the server's SYN-ACK and the client's ACK go through
  the same buffer of bytes, each endpoint building its segments from its own connection.
\<close>

definition handshake ::
    "u32 \<Rightarrow> u32 \<Rightarrow> ptr \<Rightarrow> mem \<Rightarrow> TcpConnection \<Rightarrow> TcpConnection \<Rightarrow> TcpConnection \<times> TcpConnection" where
  "handshake isn_client isn_server buf m client server =
     (let (syn, m) = create_syn (local_port client) (remote_port client) (local_ip client)
                       (remote_ip client) isn_client buf m;
          server = receive m syn server;
          (syn_ack, m) = create_syn_ack server isn_server (send_ack server) buf m;
          client = receive m syn_ack client;
          (ack, m) = create_ack client (recv_seq client) buf m;
          server = receive m ack server
      in (client, server))"

text \<open>
  The four-way close: the active side sends FIN, the passive side acknowledges, closes in turn and
  sends its own FIN, which the active side acknowledges.
\<close>

definition teardown ::
    "ptr \<Rightarrow> mem \<Rightarrow> TcpConnection \<Rightarrow> TcpConnection \<Rightarrow> TcpConnection \<times> TcpConnection" where
  "teardown buf m active passive =
     (let active = snd (initiate_close active);
          (fin, m) = create_fin active buf m;
          passive = receive m fin passive;
          (ack, m) = create_ack passive (send_ack passive) buf m;
          active = receive m ack active;
          passive = snd (initiate_close passive);
          (fin, m) = create_fin passive buf m;
          active = receive m fin active;
          (ack, m) = create_ack active (send_ack active) buf m;
          passive = receive m ack passive
      in (active, passive))"

lemma on_window_update_sel [simp]:
  "conn_state (on_window_update c w) = conn_state c" "send_seq (on_window_update c w) = send_seq c"
  "recv_seq (on_window_update c w) = recv_seq c" "send_ack (on_window_update c w) = send_ack c"
  "recv_ack (on_window_update c w) = recv_ack c"
  by (simp_all add: on_window_update_def)

lemma header_upd_flags [simp]:
  "has_syn (h\<lparr>th_window := w, th_checksum := c\<rparr>) = has_syn h"
  "has_ack (h\<lparr>th_window := w, th_checksum := c\<rparr>) = has_ack h"
  "has_fin (h\<lparr>th_window := w, th_checksum := c\<rparr>) = has_fin h"
  by (simp_all add: flag_defs)

lemma segment_flags [simp]:
  "has_syn (segment_header sp dp sq ak fl win) \<longleftrightarrow> fl AND 2 \<noteq> 0"
  "has_ack (segment_header sp dp sq ak fl win) \<longleftrightarrow> fl AND 16 \<noteq> 0"
  "has_fin (segment_header sp dp sq ak fl win) \<longleftrightarrow> fl AND 1 \<noteq> 0"
  by (simp_all add: flag_defs)

text \<open>
  What each kind of segment does to the connection that receives it, up to the window fields.
\<close>

lemma receive_syn:
  assumes "conn_state c = LISTEN"
  shows "\<exists>w. receive (snd (create_syn sp dp si di sq buf m)) (fst (create_syn sp dp si di sq buf m)) c =
    (on_window_update c w)\<lparr>recv_seq := sq + 1, send_ack := sq + 1, conn_state := SYN_RECEIVED\<rparr>"
  using assms by (auto simp: receive_def create_seal parse_seal Let_def handle_incoming_def incoming_defs)

lemma receive_syn_ack:
  assumes "conn_state c = SYN_SENT"
  shows "\<exists>w. receive (snd (create_syn_ack d sq ak buf m)) (fst (create_syn_ack d sq ak buf m)) c =
    (on_window_update c w)\<lparr>recv_seq := sq + 1, send_ack := ak, conn_state := ESTABLISHED\<rparr>"
  using assms by (auto simp: receive_def create_seal parse_seal Let_def handle_incoming_def incoming_defs)

lemma handle_ack:
  assumes "has_ack h" "\<not> has_syn h" "\<not> has_fin h" "recv_ack c < th_ack_num h"
  shows "conn_state c = SYN_RECEIVED \<Longrightarrow> snd (handle_incoming c h 0) =
      (on_window_update c (th_window h))\<lparr>recv_ack := th_ack_num h, conn_state := ESTABLISHED\<rparr>"
    and "conn_state c = FIN_WAIT_1 \<Longrightarrow> snd (handle_incoming c h 0) =
      (on_window_update c (th_window h))\<lparr>recv_ack := th_ack_num h, conn_state := FIN_WAIT_2\<rparr>"
    and "conn_state c = LAST_ACK \<Longrightarrow> snd (handle_incoming c h 0) =
      (on_window_update c (th_window h))\<lparr>recv_ack := th_ack_num h, conn_state := CLOSED\<rparr>"
  using assms by (simp_all add: handle_incoming_def incoming_defs Let_def not_le)

lemma handle_fin:
  assumes "has_ack h" "\<not> has_syn h" "has_fin h"
  shows "conn_state c = ESTABLISHED \<Longrightarrow> snd (handle_incoming c h 0) =
      (on_window_update c (th_window h))\<lparr>recv_ack := th_ack_num h, recv_seq := th_seq_num h + 1,
         send_ack := th_seq_num h + 1, conn_state := CLOSE_WAIT\<rparr>"
    and "conn_state c = FIN_WAIT_2 \<Longrightarrow> snd (handle_incoming c h 0) =
      (on_window_update c (th_window h))\<lparr>recv_ack := th_ack_num h, recv_seq := th_seq_num h + 1,
         send_ack := th_seq_num h + 1, conn_state := TIME_WAIT\<rparr>"
  using assms by (simp_all add: handle_incoming_def incoming_defs Let_def)

lemma receive_header_ack:
  obtains h where "receive (snd (create_ack d ak buf m)) (fst (create_ack d ak buf m)) c
      = snd (handle_incoming c h 0)" "has_ack h" "\<not> has_syn h" "\<not> has_fin h" "th_ack_num h = ak"
  by (rule that) (auto simp: receive_def create_seal parse_seal Let_def)

lemma receive_header_fin:
  obtains h where "receive (snd (create_fin d buf m)) (fst (create_fin d buf m)) c
      = snd (handle_incoming c h 0)" "has_ack h" "\<not> has_syn h" "has_fin h"
      "th_ack_num h = recv_seq d" "th_seq_num h = send_seq d"
  by (rule that) (auto simp: receive_def create_seal parse_seal Let_def)

lemma receive_ack:
  assumes "recv_ack c < ak"
  shows "conn_state c = SYN_RECEIVED \<Longrightarrow>
      \<exists>w. receive (snd (create_ack d ak buf m)) (fst (create_ack d ak buf m)) c =
        (on_window_update c w)\<lparr>recv_ack := ak, conn_state := ESTABLISHED\<rparr>"
    and "conn_state c = FIN_WAIT_1 \<Longrightarrow>
      \<exists>w. receive (snd (create_ack d ak buf m)) (fst (create_ack d ak buf m)) c =
        (on_window_update c w)\<lparr>recv_ack := ak, conn_state := FIN_WAIT_2\<rparr>"
    and "conn_state c = LAST_ACK \<Longrightarrow>
      \<exists>w. receive (snd (create_ack d ak buf m)) (fst (create_ack d ak buf m)) c =
        (on_window_update c w)\<lparr>recv_ack := ak, conn_state := CLOSED\<rparr>"
  by (rule receive_header_ack [of d ak buf m c]; use assms handle_ack in metis)+

lemma receive_old_ack:
  assumes "ak \<le> recv_ack c"
  shows "\<exists>w. receive (snd (create_ack d ak buf m)) (fst (create_ack d ak buf m)) c = on_window_update c w"
  using assms by (auto simp: receive_def create_seal parse_seal Let_def handle_incoming_def incoming_defs)

lemma receive_fin:
  "conn_state c = ESTABLISHED \<Longrightarrow>
    \<exists>w. receive (snd (create_fin d buf m)) (fst (create_fin d buf m)) c =
      (on_window_update c w)\<lparr>recv_ack := recv_seq d, recv_seq := send_seq d + 1,
        send_ack := send_seq d + 1, conn_state := CLOSE_WAIT\<rparr>"
  "conn_state c = FIN_WAIT_2 \<Longrightarrow>
    \<exists>w. receive (snd (create_fin d buf m)) (fst (create_fin d buf m)) c =
      (on_window_update c w)\<lparr>recv_ack := recv_seq d, recv_seq := send_seq d + 1,
        send_ack := send_seq d + 1, conn_state := TIME_WAIT\<rparr>"
  by (rule receive_header_fin [of d buf m c]; use handle_fin in metis)+

text \<open>
  \<^bold>\<open>C12\<close>. The three-way handshake works over the bytes the code puts on the wire: a client in
  \<^verbatim>\<open>SYN_SENT\<close> and a server in \<^verbatim>\<open>LISTEN\<close> both end up in \<^verbatim>\<open>ESTABLISHED\<close>, each expecting the sequence
  number that follows the other's initial one. The server completes only if the acknowledgement it
  gets is larger, as a plain 32-bit number, than the last one it has seen; with the initial
  sequence number \<open>2 ^ 32 - 1\<close> it is not, and the server stays in \<^verbatim>\<open>SYN_RECEIVED\<close>.\<close>

theorem tcp_handshake:
  assumes "conn_state client = SYN_SENT" and "conn_state server = LISTEN"
    and "handshake isn_c isn_s buf m client server = (client', server')"
  shows "conn_state client' = ESTABLISHED \<and> recv_seq client' = isn_s + 1 \<and>
    send_ack client' = isn_c + 1 \<and> recv_seq server' = isn_c + 1 \<and>
    conn_state server' = (if recv_ack server < isn_s + 1 then ESTABLISHED else SYN_RECEIVED)"
proof -
  let ?syn = "create_syn (local_port client) (remote_port client) (local_ip client)
    (remote_ip client) isn_c buf m"
  obtain w1 where s1: "receive (snd ?syn) (fst ?syn) server = (on_window_update server w1)
      \<lparr>recv_seq := isn_c + 1, send_ack := isn_c + 1, conn_state := SYN_RECEIVED\<rparr>" (is "_ = ?s1")
    using receive_syn [OF assms(2)] by blast
  let ?sa = "create_syn_ack ?s1 isn_s (isn_c + 1) buf (snd ?syn)"
  obtain w2 where c1: "receive (snd ?sa) (fst ?sa) client = (on_window_update client w2)
      \<lparr>recv_seq := isn_s + 1, send_ack := isn_c + 1, conn_state := ESTABLISHED\<rparr>" (is "_ = ?c1")
    using receive_syn_ack [OF assms(1)] by blast
  let ?ack = "create_ack ?c1 (isn_s + 1) buf (snd ?sa)"
  have "handshake isn_c isn_s buf m client server = (?c1, receive (snd ?ack) (fst ?ack) ?s1)"
    by (simp add: handshake_def Let_def split_beta s1 c1)
  with assms(3) have run: "client' = ?c1" "server' = receive (snd ?ack) (fst ?ack) ?s1" by auto
  have "recv_seq server' = isn_c + 1 \<and>
    conn_state server' = (if recv_ack server < isn_s + 1 then ESTABLISHED else SYN_RECEIVED)"
    using receive_ack(1) [of ?s1 "isn_s + 1" ?c1 buf "snd ?sa"]
      receive_old_ack [of "isn_s + 1" ?s1 ?c1 buf "snd ?sa"]
    by (cases "recv_ack server < isn_s + 1") (auto simp: run(2) not_less)
  then show ?thesis by (simp add: run(1))
qed

theorem tcp_handshake_witness:
  "\<exists>c s. handshake 100 300 4096 sample_mem (sample_conn\<lparr>conn_state := SYN_SENT\<rparr>)
       (sample_conn\<lparr>conn_state := LISTEN\<rparr>) = (c, s) \<and>
     conn_state c = ESTABLISHED \<and> conn_state s = ESTABLISHED \<and> recv_seq c = 301 \<and> recv_seq s = 101"
proof -
  obtain c s where h: "handshake 100 300 4096 sample_mem (sample_conn\<lparr>conn_state := SYN_SENT\<rparr>)
       (sample_conn\<lparr>conn_state := LISTEN\<rparr>) = (c, s)" by fastforce
  from tcp_handshake [OF _ _ h] h show ?thesis
    by (simp add: sample_conn_def TcpConnection_default_def)
qed



end
