(* ===== verification/Tcp_Reassembly.thy ===== *)
theory Tcp_Reassembly
  imports Usn_Prelude
begin

text \<open>
  \<^verbatim>\<open>TcpReassemblyBuffer\<close> of \<^verbatim>\<open>protocol/tcp_reassembly.hpp\<close>. The \<^verbatim>\<open>std::map\<close> of segments is an association
  list that the operations keep strictly sorted by sequence number: \<^verbatim>\<open>emplace\<close> inserts a new key in
  its place and leaves an existing one alone, iteration goes through the list in order.
\<close>

section \<open>State and operations\<close>

type_synonym segment_map = "(u32 \<times> u8 list) list"

record TcpBufferedSegment =
  seg_seq :: u32
  seg_data :: "u8 list"

record TcpHoleRange =
  start_seq :: u32
  end_seq :: u32

record reassembly_buffer =
  segments :: segment_map
  total_bytes :: size_type

definition reassembly_empty :: reassembly_buffer where
  "reassembly_empty = \<lparr>segments = [], total_bytes = 0\<rparr>"

fun map_emplace :: "u32 \<Rightarrow> u8 list \<Rightarrow> segment_map \<Rightarrow> bool \<times> segment_map" where
  "map_emplace k v [] = (True, [(k, v)])"
| "map_emplace k v ((k', v') # kvs) =
     (if k < k' then (True, (k, v) # (k', v') # kvs)
      else if k = k' then (False, (k', v') # kvs)
      else let (b, kvs') = map_emplace k v kvs in (b, (k', v') # kvs'))"

definition map_erase :: "u32 \<Rightarrow> segment_map \<Rightarrow> segment_map" where
  "map_erase k kvs = filter (\<lambda>(k', _). k' \<noteq> k) kvs"

text \<open>\<^verbatim>\<open>insert\<close>; the bytes at \<^verbatim>\<open>data\<close> are copied into the buffer.\<close>

definition reassembly_insert ::
    "mem \<Rightarrow> u32 \<Rightarrow> ptr \<Rightarrow> size_type \<Rightarrow> reassembly_buffer \<Rightarrow> bool \<times> reassembly_buffer" where
  "reassembly_insert m seq data len b =
     (if data = nullptr \<or> len = 0 then (False, b)
      else
        case map_emplace seq (mem_read m data (unat len)) (segments b) of
          (False, _) \<Rightarrow> (False, b)
        | (True, segs) \<Rightarrow> (True, b\<lparr>segments := segs, total_bytes := total_bytes b + len\<rparr>))"

lemma map_erase_shorter: "map_of kvs k = Some v \<Longrightarrow> length (map_erase k kvs) < length kvs"
  unfolding map_erase_def by (rule length_filter_less [of "(k, v)"]) (auto dest: map_of_SomeD)

function pop_contiguous_loop :: "segment_map \<Rightarrow> u32 \<Rightarrow> size_type \<Rightarrow> TcpBufferedSegment list \<Rightarrow>
    segment_map \<times> size_type \<times> TcpBufferedSegment list" where
  "pop_contiguous_loop segs cursor consumed out =
     (case map_of segs cursor of
        None \<Rightarrow> (segs, consumed, out)
      | Some d \<Rightarrow>
          pop_contiguous_loop (map_erase cursor segs) (cursor + of_nat (length d)) (consumed + of_nat (length d))
            (out @ [\<lparr>seg_seq = cursor, seg_data = d\<rparr>]))"
  by pat_completeness auto

termination
  by (relation "measure (\<lambda>(segs, _). length segs)") (auto dest: map_erase_shorter)

declare pop_contiguous_loop.simps [simp del]

definition pop_contiguous ::
    "u32 \<Rightarrow> reassembly_buffer \<Rightarrow> size_type \<times> TcpBufferedSegment list \<times> reassembly_buffer" where
  "pop_contiguous expected_seq b =
     (let (segs, consumed, out) = pop_contiguous_loop (segments b) expected_seq 0 []
      in (consumed, out,
          b\<lparr>segments := segs,
            total_bytes := (if consumed > total_bytes b then 0 else total_bytes b - consumed)\<rparr>))"

definition reassembly_size :: "reassembly_buffer \<Rightarrow> size_type" where
  "reassembly_size b = total_bytes b"

definition segment_count :: "reassembly_buffer \<Rightarrow> size_type" where
  "segment_count b = of_nat (length (segments b))"

text \<open>The cursor after a segment: its end, if that is further on.\<close>

definition advance :: "u32 \<Rightarrow> u32 \<Rightarrow> u8 list \<Rightarrow> u32" where
  "advance cursor seq d = (let seg_end = seq + of_nat (length d) in if seg_end > cursor then seg_end else cursor)"

fun hole_ranges_loop :: "nat \<Rightarrow> segment_map \<Rightarrow> u32 \<Rightarrow> TcpHoleRange list \<Rightarrow> TcpHoleRange list" where
  "hole_ranges_loop max_ranges [] cursor holes = holes"
| "hole_ranges_loop max_ranges ((seq, d) # segs) cursor holes =
     (if length holes \<ge> max_ranges then holes
      else hole_ranges_loop max_ranges segs (advance cursor seq d)
             (if seq > cursor then holes @ [\<lparr>start_seq = cursor, end_seq = seq\<rparr>] else holes))"

definition hole_ranges :: "u32 \<Rightarrow> nat \<Rightarrow> reassembly_buffer \<Rightarrow> TcpHoleRange list" where
  "hole_ranges expected_seq max_ranges b = hole_ranges_loop max_ranges (segments b) expected_seq []"

fun hole_count_loop :: "segment_map \<Rightarrow> u32 \<Rightarrow> size_type \<Rightarrow> size_type" where
  "hole_count_loop [] cursor holes = holes"
| "hole_count_loop ((seq, d) # segs) cursor holes =
     hole_count_loop segs (advance cursor seq d) (if seq > cursor then holes + 1 else holes)"

definition hole_count :: "u32 \<Rightarrow> reassembly_buffer \<Rightarrow> size_type" where
  "hole_count expected_seq b = hole_count_loop (segments b) expected_seq 0"

fun hole_bytes_loop :: "segment_map \<Rightarrow> u32 \<Rightarrow> u32 \<Rightarrow> u32" where
  "hole_bytes_loop [] cursor acc = acc"
| "hole_bytes_loop ((seq, d) # segs) cursor acc =
     hole_bytes_loop segs (advance cursor seq d) (if seq > cursor then acc + (seq - cursor) else acc)"

definition total_hole_bytes :: "u32 \<Rightarrow> reassembly_buffer \<Rightarrow> u32" where
  "total_hole_bytes expected_seq b = hole_bytes_loop (segments b) expected_seq 0"

section \<open>Invariant\<close>

fun sorted_map :: "segment_map \<Rightarrow> bool" where
  "sorted_map [] \<longleftrightarrow> True"
| "sorted_map ((k, v) # kvs) \<longleftrightarrow> (\<forall>k'\<in>fst ` set kvs. k < k') \<and> sorted_map kvs"

definition bytes_in :: "segment_map \<Rightarrow> nat" where
  "bytes_in kvs = sum_list (map (length \<circ> snd) kvs)"

lemma bytes_in_simps [simp]: "bytes_in [] = 0" "bytes_in ((k, v) # kvs) = length v + bytes_in kvs"
  by (simp_all add: bytes_in_def)

lemma map_emplace_spec:
  assumes "sorted_map kvs" and "map_emplace k v kvs = (b, kvs')"
  shows "sorted_map kvs' \<and> (b \<longleftrightarrow> k \<notin> fst ` set kvs) \<and>
    set kvs' = (if b then insert (k, v) (set kvs) else set kvs) \<and>
    bytes_in kvs' = (if b then length v + bytes_in kvs else bytes_in kvs)"
  using assms
proof (induction kvs arbitrary: b kvs')
  case (Cons kv kvs)
  obtain k' v' where kv: "kv = (k', v')" by (cases kv)
  consider "k < k'" | "k = k'" | "k' < k" by fastforce
  then show ?case
  proof cases
    case 1
    then have "\<forall>x\<in>fst ` set kvs. k < x" using Cons.prems(1) kv by (auto intro: less_trans)
    then show ?thesis using Cons.prems kv 1 by auto
  next
    case 3
    obtain b1 kvs1 where r: "map_emplace k v kvs = (b1, kvs1)" by (cases "map_emplace k v kvs")
    with Cons.IH [OF _ r] Cons.prems kv 3 show ?thesis by (auto split: if_splits)
  qed (use Cons.prems kv in \<open>auto split: if_splits\<close>)
qed auto

lemma map_erase_spec:
  assumes "sorted_map kvs" and "map_of kvs k = Some v"
  shows "sorted_map (map_erase k kvs) \<and> set kvs = insert (k, v) (set (map_erase k kvs)) \<and>
    k \<notin> fst ` set (map_erase k kvs) \<and> bytes_in kvs = length v + bytes_in (map_erase k kvs)"
  using assms
proof (induction kvs)
  case (Cons kv kvs)
  obtain k' v' where kv: "kv = (k', v')" by (cases kv)
  show ?case
  proof (cases "k' = k")
    case True
    then have "\<forall>(a, _)\<in>set kvs. a \<noteq> k" using Cons.prems(1) kv by auto
    then have "map_erase k kvs = kvs" by (auto simp: map_erase_def filter_id_conv)
    then show ?thesis using Cons.prems kv True by (auto simp: map_erase_def)
  next
    case False
    then show ?thesis using Cons kv by (auto simp: map_erase_def)
  qed
qed simp

section \<open>Delivery in order\<close>

text \<open>Segments that follow one another from one sequence number to another.\<close>

fun contiguous :: "u32 \<Rightarrow> TcpBufferedSegment list \<Rightarrow> u32 \<Rightarrow> bool" where
  "contiguous c [] c' \<longleftrightarrow> c = c'"
| "contiguous c (s # ss) c' \<longleftrightarrow> seg_seq s = c \<and> contiguous (c + of_nat (length (seg_data s))) ss c'"

definition as_pair :: "TcpBufferedSegment \<Rightarrow> u32 \<times> u8 list" where
  "as_pair s = (seg_seq s, seg_data s)"

definition delivered :: "TcpBufferedSegment list \<Rightarrow> u8 list" where
  "delivered ss = concat (map seg_data ss)"

lemma delivered_simps [simp]:
  "delivered [] = []" "delivered (s # ss) = seg_data s @ delivered ss"
  by (simp_all add: delivered_def)

lemma pop_contiguous_loop_spec:
  assumes "sorted_map segs" and "pop_contiguous_loop segs cursor consumed out = (segs', consumed', out')"
  shows "\<exists>new cursor'. out' = out @ new \<and> contiguous cursor new cursor' \<and> cursor' \<notin> fst ` set segs' \<and>
    sorted_map segs' \<and> set segs = set segs' \<union> as_pair ` set new \<and>
    consumed' = consumed + of_nat (length (delivered new)) \<and>
    bytes_in segs = bytes_in segs' + length (delivered new)"
  using assms
proof (induction segs cursor consumed out rule: pop_contiguous_loop.induct)
  case (1 segs cursor consumed out)
  show ?case
  proof (cases "map_of segs cursor")
    case None
    then have "cursor \<notin> fst ` set segs" by (simp add: map_of_eq_None_iff)
    with 1(2,3) None show ?thesis by (intro exI [of _ "[]"]) (auto simp: pop_contiguous_loop.simps [of segs])
  next
    case (Some d)
    let ?s = "\<lparr>seg_seq = cursor, seg_data = d\<rparr>"
    note e = map_erase_spec [OF 1(2) Some]
    from 1(1) [OF Some, of] e 1(3) Some obtain new cursor' where
      n: "out' = (out @ [?s]) @ new" "contiguous (cursor + of_nat (length d)) new cursor'"
        "cursor' \<notin> fst ` set segs'" "sorted_map segs'"
        "set (map_erase cursor segs) = set segs' \<union> as_pair ` set new"
        "consumed' = consumed + of_nat (length d) + of_nat (length (delivered new))"
        "bytes_in (map_erase cursor segs) = bytes_in segs' + length (delivered new)"
      by (auto simp: pop_contiguous_loop.simps [of segs])
    then show ?thesis using e
      by (intro exI [of _ "?s # new"] exI [of _ cursor']) (auto simp: as_pair_def)
  qed
qed

text \<open>A stream assigns a byte to every sequence number; segments are slices of it.\<close>

definition stream_slice :: "(u32 \<Rightarrow> u8) \<Rightarrow> u32 \<Rightarrow> nat \<Rightarrow> u8 list" where
  "stream_slice st s n = map (\<lambda>i. st (s + of_nat i)) [0..<n]"

definition slices_of :: "(u32 \<Rightarrow> u8) \<Rightarrow> segment_map \<Rightarrow> bool" where
  "slices_of st segs \<longleftrightarrow> (\<forall>(s, d)\<in>set segs. d = stream_slice st s (length d))"

lemma length_stream_slice [simp]: "length (stream_slice st s n) = n"
  by (simp add: stream_slice_def)

lemma stream_slice_append: "stream_slice st s a @ stream_slice st (s + of_nat a) b = stream_slice st s (a + b)"
  by (rule nth_equalityI) (auto simp: stream_slice_def nth_append)

lemma contiguous_slices:
  assumes "contiguous c ss c'" and "\<And>s. s \<in> set ss \<Longrightarrow> seg_data s = stream_slice st (seg_seq s) (length (seg_data s))"
  shows "delivered ss = stream_slice st c (length (delivered ss)) \<and> c' = c + of_nat (length (delivered ss))"
  using assms
proof (induction ss arbitrary: c)
  case (Cons s ss)
  then have s: "seg_data s = stream_slice st c (length (seg_data s))" "seg_seq s = c" by auto
  from Cons have IH: "delivered ss = stream_slice st (c + of_nat (length (seg_data s))) (length (delivered ss))"
    "c' = c + of_nat (length (seg_data s)) + of_nat (length (delivered ss))" by auto
  have "delivered (s # ss) = stream_slice st c (length (seg_data s)) @
      stream_slice st (c + of_nat (length (seg_data s))) (length (delivered ss))"
    using s IH(1) by simp
  also have "\<dots> = stream_slice st c (length (delivered (s # ss)))" by (simp add: stream_slice_append)
  finally show ?case using IH(2) by simp
qed (simp add: stream_slice_def)

lemma pop_contiguous_spec:
  assumes "sorted_map (segments b)" and "pop_contiguous e b = (n, out, b')"
  shows "\<exists>cursor'. contiguous e out cursor' \<and> cursor' \<notin> fst ` set (segments b') \<and>
    sorted_map (segments b') \<and> set (segments b) = set (segments b') \<union> as_pair ` set out \<and>
    n = of_nat (length (delivered out)) \<and> bytes_in (segments b) = bytes_in (segments b') + length (delivered out)"
proof -
  obtain segs consumed out1 where r: "pop_contiguous_loop (segments b) e 0 [] = (segs, consumed, out1)"
    by (cases "pop_contiguous_loop (segments b) e 0 []")
  with assms(2) have "out = out1" "n = consumed" "segments b' = segs"
    by (auto simp: pop_contiguous_def)
  with pop_contiguous_loop_spec [OF assms(1) r] show ?thesis by auto
qed

text \<open>Nothing is popped when no segment starts at the expected number.\<close>

lemma pop_absent: "sq \<notin> fst ` set (segments b) \<Longrightarrow> pop_contiguous sq b = (0, [], b)"
  by (simp add: pop_contiguous_def pop_contiguous_loop.simps map_of_eq_None_iff [THEN iffD2])

lemma insert_spec:
  assumes "sorted_map (segments b)" and "reassembly_insert m sq data len b = (r, b')"
  shows "sorted_map (segments b') \<and>
    (r \<longleftrightarrow> data \<noteq> nullptr \<and> len \<noteq> 0 \<and> sq \<notin> fst ` set (segments b)) \<and>
    set (segments b') = (if r then insert (sq, mem_read m data (unat len)) (set (segments b)) else set (segments b)) \<and>
    bytes_in (segments b') = (if r then unat len + bytes_in (segments b) else bytes_in (segments b)) \<and>
    total_bytes b' = (if r then total_bytes b + len else total_bytes b)"
proof -
  obtain c segs where e: "map_emplace sq (mem_read m data (unat len)) (segments b) = (c, segs)"
    by (cases "map_emplace sq (mem_read m data (unat len)) (segments b)")
  from map_emplace_spec [OF assms(1) e] assms show ?thesis
    by (auto simp: reassembly_insert_def e split: if_splits bool.splits)
qed

text \<open>
  The accounting: \<^verbatim>\<open>size()\<close> is the number of buffered bytes as long as it fits 64 bits, whatever is
  inserted and popped.
\<close>

definition reassembly_inv :: "reassembly_buffer \<Rightarrow> bool" where
  "reassembly_inv b \<longleftrightarrow> sorted_map (segments b) \<and> unat (total_bytes b) = bytes_in (segments b)"

lemma insert_inv:
  assumes "reassembly_inv b" and "reassembly_insert m sq data len b = (r, b')"
    and "bytes_in (segments b) + unat len < 2 ^ 64"
  shows "reassembly_inv b'"
  using assms insert_spec [of b m sq data len r b']
  by (auto simp: reassembly_inv_def unat_add_no_wrap split: if_splits)

lemma pop_inv:
  assumes "reassembly_inv b" and "pop_contiguous e b = (n, out, b')"
  shows "reassembly_inv b' \<and> unat n = length (delivered out)"
proof -
  from assms(1) have b: "sorted_map (segments b)" "unat (total_bytes b) = bytes_in (segments b)"
    by (auto simp: reassembly_inv_def)
  from pop_contiguous_spec [OF b(1) assms(2)]
  have sp: "n = of_nat (length (delivered out))" "sorted_map (segments b')"
    "bytes_in (segments b) = bytes_in (segments b') + length (delivered out)" by auto
  have le: "length (delivered out) \<le> unat (total_bytes b)" using b sp by simp
  then have n: "unat n = length (delivered out)"
    unfolding sp(1) by (intro unat_of_nat_small le_less_trans [OF le]) simp
  have "total_bytes b' = (if n > total_bytes b then 0 else total_bytes b - n)"
    using assms(2) by (auto simp: pop_contiguous_def split: prod.splits)
  then have "unat (total_bytes b') = unat (total_bytes b) - length (delivered out)"
    using le n by (simp add: word_less_nat_alt unat_sub_le)
  with b sp n show ?thesis by (simp add: reassembly_inv_def)
qed

text \<open>
  A receiver that buffers every segment and takes out what has become contiguous, as the gateway
  does: its buffer, the sequence number it expects next, and the bytes it has delivered.
\<close>

definition recv_segment ::
    "mem \<Rightarrow> u32 \<times> ptr \<times> size_type \<Rightarrow> reassembly_buffer \<times> u32 \<times> u8 list \<Rightarrow> reassembly_buffer \<times> u32 \<times> u8 list" where
  "recv_segment m = (\<lambda>(sq, data, len) (b, expected, got).
     let (r, b) = reassembly_insert m sq data len b;
         (n, out, b) = pop_contiguous expected b
     in (b, expected + ucast n, got @ delivered out))"

lemma of_nat_ucast: "(ucast (of_nat k :: size_type) :: u32) = of_nat k"
  by (rule bit_word_eqI) (simp add: bit_simps)

lemma recv_segment_stream:
  assumes "recv_segment m (sq, data, len) (b, expected, got) = (b', expected', got')"
    and "mem_read m data (unat len) = stream_slice st sq (unat len)"
    and "sorted_map (segments b)" "slices_of st (segments b)"
    and "got = stream_slice st isn (length got)" "expected = isn + of_nat (length got)"
  shows "sorted_map (segments b') \<and> slices_of st (segments b') \<and> got' = stream_slice st isn (length got') \<and>
    expected' = isn + of_nat (length got') \<and> expected' \<notin> fst ` set (segments b')"
proof -
  obtain r b1 where i: "reassembly_insert m sq data len b = (r, b1)" by fastforce
  obtain n out b2 where p: "pop_contiguous expected b1 = (n, out, b2)" by (metis prod_cases3)
  have s1: "sorted_map (segments b1)" "slices_of st (segments b1)"
    using insert_spec [OF assms(3) i] assms(2,4) by (auto simp: slices_of_def split: if_splits)
  from pop_contiguous_spec [OF s1(1) p] obtain c where c: "contiguous expected out c"
    "c \<notin> fst ` set (segments b2)" "sorted_map (segments b2)"
    "set (segments b1) = set (segments b2) \<union> as_pair ` set out" "n = of_nat (length (delivered out))" by auto
  have "seg_data s = stream_slice st (seg_seq s) (length (seg_data s))" if "s \<in> set out" for s
    using s1(2) c(4) that by (auto simp: slices_of_def as_pair_def)
  with contiguous_slices [OF c(1)] have d: "delivered out = stream_slice st expected (length (delivered out))"
    "c = expected + of_nat (length (delivered out))" by auto
  have g: "got' = got @ delivered out" "expected' = expected + of_nat (length (delivered out))" "b' = b2"
    using assms(1) i p c(5) by (simp_all add: recv_segment_def Let_def of_nat_ucast)
  have "got @ delivered out = stream_slice st isn (length got) @ stream_slice st (isn + of_nat (length got)) (length (delivered out))"
    using assms(5) d(1) unfolding assms(6) by metis
  then have "got' = stream_slice st isn (length got')" by (simp add: g(1) stream_slice_append)
  moreover have "expected' = isn + of_nat (length got')" by (simp add: g assms(6) add.assoc)
  moreover have "slices_of st (segments b2)" using s1(2) c(4) by (auto simp: slices_of_def)
  ultimately show ?thesis using c(2,3) d(2) g by simp
qed

text \<open>
  \<^bold>\<open>C7\<close>. In-order delivery: whatever segments of a byte stream arrive, in any order, repeated or
  overlapping, the bytes delivered so far are exactly the stream from the initial sequence number
  on, without gap or duplicate, and the next expected number follows them; the buffer never keeps
  a segment that could be delivered at once.\<close>

theorem reassembly_in_order:
  assumes "\<forall>(sq, data, len)\<in>set arrivals. mem_read m data (unat len) = stream_slice st sq (unat len)"
    and "fold (recv_segment m) arrivals (reassembly_empty, isn, []) = (b, expected, got)"
  shows "got = stream_slice st isn (length got) \<and> expected = isn + of_nat (length got) \<and>
    (arrivals \<noteq> [] \<longrightarrow> expected \<notin> fst ` set (segments b))"
proof -
  have "sorted_map (segments b) \<and> slices_of st (segments b) \<and> got = stream_slice st isn (length got) \<and>
    expected = isn + of_nat (length got) \<and> (arrivals \<noteq> [] \<longrightarrow> expected \<notin> fst ` set (segments b))"
    using assms
  proof (induction arrivals arbitrary: b expected got rule: rev_induct)
    case Nil
    then show ?case by (auto simp: reassembly_empty_def slices_of_def stream_slice_def)
  next
    case (snoc a arrivals)
    obtain b1 e1 g1 where f: "fold (recv_segment m) arrivals (reassembly_empty, isn, []) = (b1, e1, g1)"
      by (metis prod_cases3)
    obtain sq data len where a: "a = (sq, data, len)" by (metis prod_cases3)
    have step: "recv_segment m (sq, data, len) (b1, e1, g1) = (b, expected, got)"
      using snoc.prems(2) f a by simp
    from snoc.IH [OF _ f] snoc.prems(1) have IH: "sorted_map (segments b1)" "slices_of st (segments b1)"
      "g1 = stream_slice st isn (length g1)" "e1 = isn + of_nat (length g1)" by auto
    from snoc.prems(1) a have "mem_read m data (unat len) = stream_slice st sq (unat len)" by auto
    from recv_segment_stream [OF step this IH] show ?case by (elim conjE) (intro conjI impI)
  qed
  then show ?thesis by (elim conjE) (intro conjI)
qed

text \<open>A stream whose byte at a sequence number is its low byte, in memory at the same offsets.\<close>

theorem reassembly_in_order_witness:
  "\<exists>b expected got. fold (recv_segment of_nat) [(103, 103, 2), (103, 103, 2), (100, 100, 3)] (reassembly_empty, 100, [])
      = (b, expected, got) \<and> got = stream_slice ucast 100 (length got) \<and> expected = 100 + of_nat (length got)"
proof -
  obtain b expected got where f: "fold (recv_segment of_nat) [(103, 103, 2), (103, 103, 2), (100, 100, 3)]
      (reassembly_empty, 100, []) = (b, expected, got)" by (metis prod_cases3)
  have upt: "[0..<2] = [0, 1]" "[0..<3] = [0, 1, 2]" by (simp_all add: upt_rec)
  have "\<forall>(sq, data, len)\<in>set [(103 :: u32, 103, 2 :: size_type), (103, 103, 2), (100, 100, 3)].
      mem_read of_nat data (unat len) = stream_slice ucast sq (unat len)"
    by (simp add: mem_read_def stream_slice_def upt del: map_eq_conv)
  from reassembly_in_order [OF this f] f show ?thesis by blast
qed

section \<open>Holes\<close>

fun all_holes :: "segment_map \<Rightarrow> u32 \<Rightarrow> TcpHoleRange list" where
  "all_holes [] cursor = []"
| "all_holes ((sq, d) # segs) cursor =
     (if sq > cursor then [\<lparr>start_seq = cursor, end_seq = sq\<rparr>] else []) @ all_holes segs (advance cursor sq d)"

lemma hole_loops:
  "length segs + length holes \<le> k \<Longrightarrow> hole_ranges_loop k segs cursor holes = holes @ all_holes segs cursor"
  "hole_count_loop segs cursor n = n + of_nat (length (all_holes segs cursor))"
  "hole_bytes_loop segs cursor t = t + sum_list (map (\<lambda>h. end_seq h - start_seq h) (all_holes segs cursor))"
  by (induction segs arbitrary: cursor holes n t) auto

definition covered :: "segment_map \<Rightarrow> nat \<Rightarrow> bool" where
  "covered segs x \<longleftrightarrow> (\<exists>(s, d)\<in>set segs. unat s \<le> x \<and> x < unat s + length d)"

definition in_holes :: "TcpHoleRange list \<Rightarrow> nat \<Rightarrow> bool" where
  "in_holes hs x \<longleftrightarrow> (\<exists>h\<in>set hs. unat (start_seq h) \<le> x \<and> x < unat (end_seq h))"

lemma unat_advance:
  assumes "unat s + length d < 2 ^ 32"
  shows "unat (advance c s d) = max (unat c) (unat s + length d)"
proof -
  have "unat (of_nat (length d) :: u32) = length d" using assms by (intro unat_of_nat_small) simp
  then have "unat (s + of_nat (length d)) = unat s + length d"
    using assms by (simp add: unat_add_no_wrap)
  then show ?thesis by (simp add: advance_def Let_def word_less_nat_alt max_def)
qed

lemma all_holes_exact:
  assumes "sorted_map segs" and "\<forall>(s, d)\<in>set segs. unat s + length d < 2 ^ 32"
  shows "in_holes (all_holes segs c) x \<longleftrightarrow>
    unat c \<le> x \<and> \<not> covered segs x \<and> (\<exists>s\<in>fst ` set segs. x < unat s)"
  using assms
proof (induction segs arbitrary: c)
  case (Cons kv segs)
  obtain s d where kv: "kv = (s, d)" by (cases kv)
  have adv: "unat (advance c s d) = max (unat c) (unat s + length d)"
    using Cons.prems(2) kv by (intro unat_advance) auto
  have IH: "in_holes (all_holes segs (advance c s d)) x \<longleftrightarrow>
      max (unat c) (unat s + length d) \<le> x \<and> \<not> covered segs x \<and> (\<exists>s\<in>fst ` set segs. x < unat s)"
    using Cons kv adv by auto
  have later: "unat s < unat s'" if "(s', d') \<in> set segs" for s' d'
    using Cons.prems(1) kv that by (force simp: word_less_nat_alt)
  have unc: "\<not> covered segs x" if "x < unat s"
    using that later by (force simp: covered_def)
  have hd: "in_holes (all_holes (kv # segs) c) x \<longleftrightarrow>
      (unat c \<le> x \<and> x < unat s) \<or> in_holes (all_holes segs (advance c s d)) x"
    by (auto simp: kv in_holes_def word_less_nat_alt)
  show ?case
    unfolding hd IH using later unc by (auto simp: kv covered_def)
qed (simp add: in_holes_def covered_def)

text \<open>
  As long as no buffered segment runs past the end of the sequence space, the holes that
  \<^verbatim>\<open>hole_ranges\<close> reports are exactly the missing bytes: a byte at or after the expected number lies
  in a hole if and only if no buffered segment covers it and some buffered segment starts after
  it. \<^verbatim>\<open>hole_count\<close> and \<^verbatim>\<open>total_hole_bytes\<close> are their number and their total size.\<close>

theorem reassembly_holes_exact:
  assumes "sorted_map (segments b)" and "\<forall>(s, d)\<in>set (segments b). unat s + length d < 2 ^ 32"
    and "length (segments b) \<le> k"
  shows "(in_holes (hole_ranges e k b) x \<longleftrightarrow>
      unat e \<le> x \<and> \<not> covered (segments b) x \<and> (\<exists>s\<in>fst ` set (segments b). x < unat s)) \<and>
    hole_count e b = of_nat (length (hole_ranges e k b)) \<and>
    total_hole_bytes e b = sum_list (map (\<lambda>h. end_seq h - start_seq h) (hole_ranges e k b))"
  using all_holes_exact [OF assms(1,2)] assms(3)
  by (simp add: hole_ranges_def hole_count_def total_hole_bytes_def hole_loops)

theorem reassembly_holes_exact_witness:
  "hole_count 10 \<lparr>segments = [(12, [1, 2]), (20, [3])], total_bytes = 3\<rparr> =
     of_nat (length (hole_ranges 10 8 \<lparr>segments = [(12, [1, 2]), (20, [3])], total_bytes = 3\<rparr>)) \<and>
   length (hole_ranges 10 8 \<lparr>segments = [(12, [1, 2]), (20, [3])], total_bytes = 3\<rparr>) = 2"
  using reassembly_holes_exact [of "\<lparr>segments = [(12, [1, 2]), (20, [3])], total_bytes = 3\<rparr>" 8 10]
  by (simp add: hole_ranges_def advance_def Let_def)

end
