(* ===== verification/Tcp_Retransmission.thy ===== *)
theory Tcp_Retransmission
  imports Usn_Prelude
begin

text \<open>
  The retransmission queue and the timeout estimator of \<^verbatim>\<open>protocol/tcp_retransmission.hpp\<close>.
\<close>

section \<open>The queue\<close>

record TcpRetransmissionEntry =
  re_seq_start :: u32
  re_seq_end :: u32
  re_deadline_ms :: u64
  re_retries :: u32

type_synonym retransmission_queue = "TcpRetransmissionEntry list"

definition track_segment ::
    "u32 \<Rightarrow> size_type \<Rightarrow> u64 \<Rightarrow> u64 \<Rightarrow> retransmission_queue \<Rightarrow> retransmission_queue" where
  "track_segment seq_start payload_len now_ms rto_ms entries =
     entries @ [\<lparr>re_seq_start = seq_start, re_seq_end = seq_start + ucast payload_len,
                 re_deadline_ms = now_ms + rto_ms, re_retries = 0\<rparr>]"

fun ack_loop :: "u32 \<Rightarrow> retransmission_queue \<Rightarrow> size_type \<Rightarrow> size_type \<times> retransmission_queue" where
  "ack_loop ack_num [] removed = (removed, [])"
| "ack_loop ack_num (e # es) removed =
     (if re_seq_end e \<le> ack_num then ack_loop ack_num es (removed + 1) else (removed, e # es))"

definition ack_up_to :: "u32 \<Rightarrow> retransmission_queue \<Rightarrow> size_type \<times> retransmission_queue" where
  "ack_up_to ack_num entries = ack_loop ack_num entries 0"

fun collect_due :: "u64 \<Rightarrow> u64 \<Rightarrow> u32 \<Rightarrow> retransmission_queue \<Rightarrow>
    TcpRetransmissionEntry list \<times> retransmission_queue" where
  "collect_due now_ms base_rto_ms max_retries [] = ([], [])"
| "collect_due now_ms base_rto_ms max_retries (entry # es) =
     (let (due, es') = collect_due now_ms base_rto_ms max_retries es in
      if re_deadline_ms entry \<le> now_ms then
        if re_retries entry \<ge> max_retries then (due, es')
        else
          let retries = re_retries entry + 1;
              backoff = push_bit (if retries > 8 then 8 else unat retries) base_rto_ms
          in (entry # due, entry\<lparr>re_retries := retries, re_deadline_ms := now_ms + backoff\<rparr> # es')
      else (due, entry # es'))"

definition queue_size :: "retransmission_queue \<Rightarrow> size_type" where
  "queue_size entries = of_nat (length entries)"

definition queue_contains :: "u32 \<Rightarrow> retransmission_queue \<Rightarrow> bool" where
  "queue_contains seq_start entries = list_ex (\<lambda>e. re_seq_start e = seq_start) entries"

section \<open>The estimator\<close>

record TcpRtoEstimator =
  initialized :: bool
  srtt_ms :: u64
  rttvar_ms :: u64
  rto_ms :: u64

definition rto_default :: TcpRtoEstimator where
  "rto_default = \<lparr>initialized = False, srtt_ms = 200, rttvar_ms = 100, rto_ms = 300\<rparr>"

definition sample_rtt :: "u64 \<Rightarrow> TcpRtoEstimator \<Rightarrow> TcpRtoEstimator" where
  "sample_rtt rtt_ms e =
     (let rtt_ms = (if rtt_ms = 0 then 1 else rtt_ms);
          e = (if \<not> initialized e
               then e\<lparr>srtt_ms := rtt_ms, rttvar_ms := rtt_ms div 2, initialized := True\<rparr>
               else
                 let delta = (if srtt_ms e > rtt_ms then srtt_ms e - rtt_ms else rtt_ms - srtt_ms e)
                 in e\<lparr>rttvar_ms := (3 * rttvar_ms e + delta) div 4,
                      srtt_ms := (7 * srtt_ms e + rtt_ms) div 8\<rparr>);
          candidate = srtt_ms e + max 1 (4 * rttvar_ms e);
          candidate = (if candidate < 50 then 50 else candidate);
          candidate = (if candidate > 5000 then 5000 else candidate)
      in e\<lparr>rto_ms := candidate\<rparr>)"

section \<open>Acknowledging\<close>

lemma ack_loop_spec:
  "ack_loop a es n = (n + of_nat (length (takeWhile (\<lambda>e. re_seq_end e \<le> a) es)),
                      dropWhile (\<lambda>e. re_seq_end e \<le> a) es)"
  by (induction es arbitrary: n) simp_all

text \<open>
  On a queue whose segments were tracked in sequence order, \<^verbatim>\<open>ack_up_to\<close> removes exactly the
  segments that the acknowledgement covers, keeps the others in order, and reports how many it
  removed.\<close>

theorem retransmission_ack_exact:
  assumes "sorted_wrt (\<lambda>e e'. re_seq_end e \<le> re_seq_end e') entries"
  shows "ack_up_to a entries =
    (of_nat (length (filter (\<lambda>e. re_seq_end e \<le> a) entries)), filter (\<lambda>e. \<not> re_seq_end e \<le> a) entries)"
proof -
  have "takeWhile (\<lambda>e. re_seq_end e \<le> a) entries = filter (\<lambda>e. re_seq_end e \<le> a) entries \<and>
    dropWhile (\<lambda>e. re_seq_end e \<le> a) entries = filter (\<lambda>e. \<not> re_seq_end e \<le> a) entries"
    using assms
  proof (induction entries)
    case (Cons e es)
    show ?case
    proof (cases "re_seq_end e \<le> a")
      case False
      then have "\<forall>e'\<in>set es. \<not> re_seq_end e' \<le> a" using Cons.prems by (auto dest: order_trans)
      with False show ?thesis by (simp add: filter_False filter_id_conv)
    qed (use Cons in simp)
  qed simp
  then show ?thesis by (simp add: ack_up_to_def ack_loop_spec)
qed

definition sample_queue :: retransmission_queue where
  "sample_queue = track_segment 150 50 10 300 (track_segment 100 50 0 300 [])"

theorem retransmission_ack_exact_witness:
  "ack_up_to 150 sample_queue =
     (of_nat (length (filter (\<lambda>e. re_seq_end e \<le> 150) sample_queue)),
      filter (\<lambda>e. \<not> re_seq_end e \<le> 150) sample_queue) \<and>
   queue_contains 150 (snd (ack_up_to 150 sample_queue)) \<and>
   \<not> queue_contains 100 (snd (ack_up_to 150 sample_queue))"
  using retransmission_ack_exact [of sample_queue 150]
  by (simp add: sample_queue_def track_segment_def queue_contains_def)

section \<open>Retransmitting\<close>

definition retry_budget :: "u32 \<Rightarrow> retransmission_queue \<Rightarrow> nat" where
  "retry_budget max_retries es = sum_list (map (\<lambda>e. unat max_retries - unat (re_retries e)) es)"

lemma collect_due_spec:
  assumes "collect_due now base k es = (due, es')"
  shows "due = filter (\<lambda>e. re_deadline_ms e \<le> now \<and> re_retries e < k) es"
    and "length due + retry_budget k es' \<le> retry_budget k es"
    and "map re_seq_start es' = map re_seq_start (filter (\<lambda>e. re_deadline_ms e \<le> now \<longrightarrow> re_retries e < k) es)"
proof -
  have "due = filter (\<lambda>e. re_deadline_ms e \<le> now \<and> re_retries e < k) es \<and>
    length due + retry_budget k es' \<le> retry_budget k es \<and>
    map re_seq_start es' = map re_seq_start (filter (\<lambda>e. re_deadline_ms e \<le> now \<longrightarrow> re_retries e < k) es)"
    using assms
  proof (induction es arbitrary: due es')
    case (Cons e es)
    obtain d q where r: "collect_due now base k es = (d, q)" by fastforce
    note IH = Cons.IH [OF r]
    consider (kept) "\<not> re_deadline_ms e \<le> now" | (dropped) "re_deadline_ms e \<le> now" "re_retries e \<ge> k"
      | (sent) "re_deadline_ms e \<le> now" "re_retries e < k" by force
    then show ?case
    proof cases
      case sent
      have "unat (re_retries e + 1) = Suc (unat (re_retries e))" "unat (re_retries e) < unat k"
        "\<not> k \<le> re_retries e"
        using sent(2) unat_Suc_less [OF sent(2)] by (auto simp: word_less_nat_alt word_le_nat_alt)
      with sent IH r Cons.prems show ?thesis by (auto simp: retry_budget_def Let_def)
    qed (use IH r Cons.prems in \<open>auto simp: retry_budget_def Let_def\<close>)
  qed (simp add: retry_budget_def)
  then show "due = filter (\<lambda>e. re_deadline_ms e \<le> now \<and> re_retries e < k) es"
    "length due + retry_budget k es' \<le> retry_budget k es"
    "map re_seq_start es' = map re_seq_start (filter (\<lambda>e. re_deadline_ms e \<le> now \<longrightarrow> re_retries e < k) es)"
    by auto
qed

text \<open>Calling \<^verbatim>\<open>collect_due\<close> again and again, at any times and with any base timeouts.\<close>

fun collect_run :: "u32 \<Rightarrow> (u64 \<times> u64) list \<Rightarrow> retransmission_queue \<Rightarrow>
    TcpRetransmissionEntry list \<times> retransmission_queue" where
  "collect_run k [] es = ([], es)"
| "collect_run k ((now, base) # calls) es =
     (let (due, es') = collect_due now base k es; (more, es'') = collect_run k calls es'
      in (due @ more, es''))"

lemma collect_run_budget:
  "collect_run k calls es = (due, es') \<Longrightarrow> length due + retry_budget k es' \<le> retry_budget k es"
proof (induction k calls es arbitrary: due es' rule: collect_run.induct)
  case (2 k now base calls es)
  obtain d1 q1 where c: "collect_due now base k es = (d1, q1)" by fastforce
  obtain d2 q2 where r: "collect_run k calls q1 = (d2, q2)" by fastforce
  from 2(1) [OF c [symmetric] refl r] collect_due_spec(2) [OF c] 2(2) c r show ?case by auto
qed simp

text \<open>
  Retransmission is bounded and misses nothing: a call of \<^verbatim>\<open>collect_due\<close> returns exactly the
  expired segments that have retries left; and over any number of calls at any times, the queue
  hands out no more retransmissions than its segments have retries left in total.\<close>

theorem retransmission_bounded:
  assumes "collect_due now base k es = (due, es')"
  shows "due = filter (\<lambda>e. re_deadline_ms e \<le> now \<and> re_retries e < k) es \<and>
    length (fst (collect_run k calls es)) \<le> retry_budget k es \<and>
    set (map re_seq_start es') \<subseteq> set (map re_seq_start es)"
proof -
  have "length (fst (collect_run k calls es)) \<le> retry_budget k es"
    using collect_run_budget [of k calls es] by (cases "collect_run k calls es") force
  with collect_due_spec [OF assms] show ?thesis by auto
qed

theorem retransmission_bounded_witness:
  "fst (collect_due 305 100 8 sample_queue) = filter (\<lambda>e. re_deadline_ms e \<le> 305 \<and> re_retries e < 8) sample_queue \<and>
   length (fst (collect_run 8 [(305, 100), (1000, 100), (90000, 100)] sample_queue)) \<le> 16"
  using retransmission_bounded [OF prod.collapse [symmetric], of 305 100 8 sample_queue "[(305, 100), (1000, 100), (90000, 100)]"]
  by (simp add: retry_budget_def sample_queue_def track_segment_def)

section \<open>Timeouts\<close>

lemma mean_bounds:
  fixes a b c lo hi :: nat
  assumes "lo \<le> a" "a \<le> hi" "lo \<le> b" "b \<le> hi" "0 < c"
  shows "lo \<le> ((c - 1) * a + b) div c" and "((c - 1) * a + b) div c \<le> hi"
proof -
  have c: "(c - 1) * x + x = c * x" for x using assms(5) by (cases c) auto
  have "c * lo \<le> (c - 1) * a + b" using c [of lo] assms mult_le_mono2 [of lo a "c - 1"] by linarith
  then show "lo \<le> ((c - 1) * a + b) div c" using assms(5) by (simp add: less_eq_div_iff_mult_less_eq mult.commute)
  have "(c - 1) * a + b \<le> c * hi" using c [of hi] assms mult_le_mono2 [of a hi "c - 1"] by linarith
  then have "((c - 1) * a + b) div c \<le> c * hi div c" by (rule div_le_mono)
  then show "((c - 1) * a + b) div c \<le> hi" using assms(5) by simp
qed

lemma unat_div4_div8:
  fixes v d s r :: u64
  assumes "unat v < 2 ^ 60" "unat d < 2 ^ 60" "unat s < 2 ^ 60" "unat r < 2 ^ 60"
  shows "unat ((3 * v + d) div 4) = (3 * unat v + unat d) div 4"
    and "unat ((7 * s + r) div 8) = (7 * unat s + unat r) div 8"
proof -
  have "unat (3 * v) = 3 * unat v" "unat (7 * s) = 7 * unat s"
    using assms by (subst unat_mult_no_wrap; simp)+
  then have "unat (3 * v + d) = 3 * unat v + unat d" "unat (7 * s + r) = 7 * unat s + unat r"
    using assms by (subst unat_add_no_wrap; simp)+
  then show "unat ((3 * v + d) div 4) = (3 * unat v + unat d) div 4"
    "unat ((7 * s + r) div 8) = (7 * unat s + unat r) div 8" by (simp_all add: unat_div)
qed

definition rto_inv :: "nat \<Rightarrow> nat \<Rightarrow> TcpRtoEstimator \<Rightarrow> bool" where
  "rto_inv lo hi e \<longleftrightarrow> 50 \<le> unat (rto_ms e) \<and> unat (rto_ms e) \<le> 5000 \<and>
     (initialized e \<longrightarrow> lo \<le> unat (srtt_ms e) \<and> unat (srtt_ms e) \<le> hi \<and> unat (rttvar_ms e) \<le> hi)"

lemma sample_rtt_inv:
  assumes inv: "rto_inv lo hi e" and "lo \<le> unat r" "unat r \<le> hi" and "0 < lo" and hi: "hi < 2 ^ 60"
  shows "rto_inv lo hi (sample_rtt r e) \<and> initialized (sample_rtt r e)"
proof -
  have r0: "r \<noteq> 0" using assms(2,4) by auto
  have small: "x < 2 ^ 60" if "x \<le> hi" for x using that hi by linarith
  have clamp: "50 \<le> unat (rto_ms (sample_rtt r e)) \<and> unat (rto_ms (sample_rtt r e)) \<le> 5000"
    by (simp add: sample_rtt_def Let_def word_less_nat_alt)
  show ?thesis
  proof (cases "initialized e")
    case False
    have "unat (r div 2) \<le> hi" using assms(3) by (simp add: unat_div)
    with False clamp assms(2,3) r0 show ?thesis by (simp add: rto_inv_def sample_rtt_def Let_def)
  next
    case True
    let ?d = "if srtt_ms e > r then srtt_ms e - r else r - srtt_ms e"
    from inv True have s: "lo \<le> unat (srtt_ms e)" "unat (srtt_ms e) \<le> hi" "unat (rttvar_ms e) \<le> hi"
      by (auto simp: rto_inv_def)
    have d: "unat ?d \<le> hi" using s(2) assms(3) by (auto simp: word_less_nat_alt not_less unat_sub_le)
    note ar = unat_div4_div8 [OF small [OF s(3)] small [OF d] small [OF s(2)] small [OF assms(3)]]
    have "lo \<le> unat ((7 * srtt_ms e + r) div 8)" "unat ((7 * srtt_ms e + r) div 8) \<le> hi"
      unfolding ar(2) using mean_bounds [OF s(1,2) assms(2,3), of 8] by simp_all
    moreover have "unat ((3 * rttvar_ms e + ?d) div 4) \<le> hi"
      unfolding ar(1) using mean_bounds(2) [of 0 "unat (rttvar_ms e)" hi "unat ?d" 4] s(3) d by simp
    ultimately show ?thesis using True clamp r0 by (simp add: rto_inv_def sample_rtt_def Let_def)
  qed
qed



end
