(* ===== verification/Tcp_Congestion.thy ===== *)
theory Tcp_Congestion
  imports Usn_Prelude
begin

text \<open>
  \<^verbatim>\<open>TcpCongestionController\<close> of \<^verbatim>\<open>protocol/tcp_congestion.hpp\<close>: slow start and congestion avoidance on
  32-bit counters. The loop of congestion avoidance is a partial function: it returns \<open>None\<close> where
  the C++ loop would not end, and it is shown to end for every controller that can be built.
\<close>

section \<open>State and operations\<close>

record TcpCongestionController =
  mss_bytes :: u32
  cwnd_bytes :: u32
  ssthresh_bytes :: u32
  ca_accumulator_bytes :: u32

definition mk_congestion :: "u32 \<Rightarrow> TcpCongestionController" where
  "mk_congestion mss =
     (let m = (if mss = 0 then 1200 else mss)
      in \<lparr>mss_bytes = m, cwnd_bytes = m, ssthresh_bytes = 8 * m, ca_accumulator_bytes = 0\<rparr>)"

definition cc_can_send :: "TcpCongestionController \<Rightarrow> size_type \<Rightarrow> size_type \<Rightarrow> u32 \<Rightarrow> bool" where
  "cc_can_send c inflight_bytes payload_len peer_window \<longleftrightarrow>
     (let allowed = min (ucast (cwnd_bytes c)) (ucast peer_window)
      in inflight_bytes + payload_len \<le> allowed)"

partial_function (option) ca_loop :: "TcpCongestionController \<Rightarrow> TcpCongestionController option" where
  "ca_loop c =
     (if ca_accumulator_bytes c \<ge> cwnd_bytes c
      then ca_loop (c\<lparr>ca_accumulator_bytes := ca_accumulator_bytes c - cwnd_bytes c,
                      cwnd_bytes := cwnd_bytes c + mss_bytes c\<rparr>)
      else Some c)"

definition cc_on_ack :: "size_type \<Rightarrow> TcpCongestionController \<Rightarrow> TcpCongestionController option" where
  "cc_on_ack acked_bytes c =
     (if acked_bytes = 0 then Some c
      else
        let grown =
          (if cwnd_bytes c < ssthresh_bytes c
           then Some (c\<lparr>cwnd_bytes := cwnd_bytes c + ucast acked_bytes\<rparr>)
           else ca_loop (c\<lparr>ca_accumulator_bytes := ca_accumulator_bytes c + ucast acked_bytes\<rparr>))
        in case grown of
             None \<Rightarrow> None
           | Some c \<Rightarrow> Some (if cwnd_bytes c > 1048576 then c\<lparr>cwnd_bytes := 1048576\<rparr> else c))"

definition cc_on_loss :: "TcpCongestionController \<Rightarrow> TcpCongestionController" where
  "cc_on_loss c =
     c\<lparr>ssthresh_bytes := max (2 * mss_bytes c) (cwnd_bytes c div 2), cwnd_bytes := mss_bytes c,
       ca_accumulator_bytes := 0\<rparr>"

section \<open>The loop\<close>

lemma unat_decrease: "0 < b \<Longrightarrow> b \<le> a \<Longrightarrow> unat (a - b) < unat a" for a b :: u32
  by (simp add: word_less_nat_alt word_le_nat_alt unat_sub_le)

text \<open>
  Whenever the segment size is not zero the loop ends: every round with a non-zero window
  decreases the accumulator, and a window that has wrapped to zero is not zero in the next round.
\<close>

lemma ca_loop_terminates:
  assumes "mss_bytes c \<noteq> 0"
  shows "\<exists>c'. ca_loop c = Some c' \<and> mss_bytes c' = mss_bytes c \<and> ca_accumulator_bytes c' < cwnd_bytes c'"
  using assms
proof (induction "(unat (ca_accumulator_bytes c), if cwnd_bytes c = 0 then 1 else 0 :: nat)"
    arbitrary: c rule: wf_induct_rule [OF wf_lex_prod [OF wf_less wf_less]])
  case (1 c)
  let ?c' = "c\<lparr>ca_accumulator_bytes := ca_accumulator_bytes c - cwnd_bytes c,
               cwnd_bytes := cwnd_bytes c + mss_bytes c\<rparr>"
  show ?case
  proof (cases "ca_accumulator_bytes c \<ge> cwnd_bytes c")
    case True
    have "\<exists>c'. ca_loop ?c' = Some c' \<and> mss_bytes c' = mss_bytes ?c' \<and> ca_accumulator_bytes c' < cwnd_bytes c'"
    proof (rule 1(1))
      show "((unat (ca_accumulator_bytes ?c'), if cwnd_bytes ?c' = 0 then 1 else 0 :: nat),
          (unat (ca_accumulator_bytes c), if cwnd_bytes c = 0 then 1 else 0)) \<in> {(x, y). x < y} <*lex*> {(x, y). x < y}"
        using True 1(2) unat_decrease [of "cwnd_bytes c" "ca_accumulator_bytes c"]
        by (cases "cwnd_bytes c = 0") (auto simp: word_neq_0_conv)
    qed (use 1(2) in simp)
    then show ?thesis using True by (simp add: ca_loop.simps [of c])
  next
    case False
    then show ?thesis by (simp add: ca_loop.simps [of c])
  qed
qed

text \<open>
  In the regime in which nothing wraps, the window and the accumulator together do not grow, and
  the window does not shrink.
\<close>

lemma ca_loop_bounds:
  assumes "0 < mss_bytes c" "mss_bytes c \<le> cwnd_bytes c"
    and "unat (ca_accumulator_bytes c) + unat (cwnd_bytes c) < 2 ^ 32" and "ca_loop c = Some c'"
  shows "unat (ca_accumulator_bytes c') + unat (cwnd_bytes c') \<le> unat (ca_accumulator_bytes c) + unat (cwnd_bytes c) \<and>
    cwnd_bytes c \<le> cwnd_bytes c' \<and> mss_bytes c' = mss_bytes c \<and> ssthresh_bytes c' = ssthresh_bytes c \<and>
    ca_accumulator_bytes c' < cwnd_bytes c'"
  using assms
proof (induction "unat (ca_accumulator_bytes c)" arbitrary: c rule: less_induct)
  case less
  let ?n = "c\<lparr>ca_accumulator_bytes := ca_accumulator_bytes c - cwnd_bytes c,
               cwnd_bytes := cwnd_bytes c + mss_bytes c\<rparr>"
  show ?case
  proof (cases "ca_accumulator_bytes c \<ge> cwnd_bytes c")
    case True
    have ms: "unat (mss_bytes c) \<le> unat (cwnd_bytes c)" "0 < unat (mss_bytes c)"
      "unat (cwnd_bytes c) \<le> unat (ca_accumulator_bytes c)"
      using less.prems(1,2) True by (simp_all add: word_less_nat_alt word_le_nat_alt)
    have cw: "unat (cwnd_bytes c + mss_bytes c) = unat (cwnd_bytes c) + unat (mss_bytes c)"
      using ms less.prems(3) by (intro unat_add_no_wrap) simp
    have ac: "unat (ca_accumulator_bytes c - cwnd_bytes c) = unat (ca_accumulator_bytes c) - unat (cwnd_bytes c)"
      using ms by (intro unat_sub_le) simp
    have "ca_loop ?n = Some c'" using less.prems(4) True by (simp add: ca_loop.simps [of c])
    with less.hyps [of ?n] less.prems ms cw ac show ?thesis
      by (auto simp: word_le_nat_alt word_less_nat_alt)
  next
    case False
    then show ?thesis using less.prems(4) by (auto simp: ca_loop.simps [of c])
  qed
qed

section \<open>Invariant\<close>

text \<open>
  For segment sizes and acknowledgements of at most 1 MiB at a time the window stays between one
  segment and 1 MiB.
\<close>

definition cc_inv :: "TcpCongestionController \<Rightarrow> bool" where
  "cc_inv c \<longleftrightarrow> 0 < unat (mss_bytes c) \<and> unat (mss_bytes c) \<le> unat (cwnd_bytes c) \<and>
     unat (cwnd_bytes c) \<le> 2 ^ 20 \<and> unat (ca_accumulator_bytes c) < 2 ^ 21"

lemma mk_congestion_inv: "unat mss \<le> 2 ^ 20 \<Longrightarrow> cc_inv (mk_congestion mss)"
  by (auto simp: cc_inv_def mk_congestion_def Let_def unat_gt_0)

lemma cc_on_loss_inv: "cc_inv c \<Longrightarrow> cc_inv (cc_on_loss c)"
  by (auto simp: cc_inv_def cc_on_loss_def)

lemma cap_cwnd:
  assumes "0 < unat (mss_bytes c)" "unat (mss_bytes c) \<le> 2 ^ 20" "unat (mss_bytes c) \<le> unat (cwnd_bytes c)"
    and "unat (ca_accumulator_bytes c) < 2 ^ 21"
  shows "cc_inv (if cwnd_bytes c > 1048576 then c\<lparr>cwnd_bytes := 1048576\<rparr> else c)"
  using assms by (auto simp: cc_inv_def word_less_nat_alt)

lemma cc_on_ack_ok:
  assumes inv: "cc_inv c" and acked: "unat acked \<le> 2 ^ 20"
  shows "\<exists>c'. cc_on_ack acked c = Some c' \<and> cc_inv c' \<and> cwnd_bytes c \<le> cwnd_bytes c' \<and>
    mss_bytes c' = mss_bytes c \<and> ssthresh_bytes c' = ssthresh_bytes c"
proof (cases "acked = 0")
  case True
  then show ?thesis using inv by (simp add: cc_on_ack_def)
next
  case nz: False
  have ua: "unat (ucast acked :: u32) = unat acked" using acked by (intro unat_ucast_fits) simp
  from inv have i: "0 < unat (mss_bytes c)" "unat (mss_bytes c) \<le> unat (cwnd_bytes c)"
    "unat (cwnd_bytes c) \<le> 2 ^ 20" "unat (ca_accumulator_bytes c) < 2 ^ 21"
    by (auto simp: cc_inv_def)
  show ?thesis
  proof (cases "cwnd_bytes c < ssthresh_bytes c")
    case True
    let ?g = "c\<lparr>cwnd_bytes := cwnd_bytes c + ucast acked\<rparr>"
    have g: "unat (cwnd_bytes c + ucast acked) = unat (cwnd_bytes c) + unat acked"
      using i acked ua by (subst unat_add_no_wrap) simp_all
    have "cc_on_ack acked c = Some (if cwnd_bytes ?g > 1048576 then ?g\<lparr>cwnd_bytes := 1048576\<rparr> else ?g)"
      using True nz by (simp add: cc_on_ack_def)
    moreover have "cc_inv (if cwnd_bytes ?g > 1048576 then ?g\<lparr>cwnd_bytes := 1048576\<rparr> else ?g)"
      using i g by (intro cap_cwnd) simp_all
    ultimately show ?thesis using i g by (auto simp: word_le_nat_alt)
  next
    case False
    let ?g = "c\<lparr>ca_accumulator_bytes := ca_accumulator_bytes c + ucast acked\<rparr>"
    have g: "unat (ca_accumulator_bytes c + ucast acked) = unat (ca_accumulator_bytes c) + unat acked"
      using i acked ua by (subst unat_add_no_wrap) simp_all
    have "mss_bytes ?g \<noteq> 0" using i(1) by auto
    from ca_loop_terminates [OF this] obtain l where l: "ca_loop ?g = Some l" by auto
    have "0 < mss_bytes ?g" "mss_bytes ?g \<le> cwnd_bytes ?g"
      "unat (ca_accumulator_bytes ?g) + unat (cwnd_bytes ?g) < 2 ^ 32"
      using i g acked by (simp_all add: word_less_nat_alt word_le_nat_alt)
    from ca_loop_bounds [OF this l] g have b:
      "unat (ca_accumulator_bytes l) + unat (cwnd_bytes l) \<le> unat (ca_accumulator_bytes c) + unat acked + unat (cwnd_bytes c)"
      "unat (cwnd_bytes c) \<le> unat (cwnd_bytes l)" "mss_bytes l = mss_bytes c" "ssthresh_bytes l = ssthresh_bytes c"
      "unat (ca_accumulator_bytes l) < unat (cwnd_bytes l)"
      by (simp_all add: word_less_nat_alt word_le_nat_alt)
    have "cc_on_ack acked c = Some (if cwnd_bytes l > 1048576 then l\<lparr>cwnd_bytes := 1048576\<rparr> else l)"
      using False nz l by (simp add: cc_on_ack_def)
    moreover have "unat (ca_accumulator_bytes l) < 2 ^ 21" using b i acked by simp
    then have "cc_inv (if cwnd_bytes l > 1048576 then l\<lparr>cwnd_bytes := 1048576\<rparr> else l)"
      using i b by (intro cap_cwnd) simp_all
    ultimately show ?thesis using i b by (auto simp: word_le_nat_alt)
  qed
qed

section \<open>Correctness\<close>

text \<open>A history of the controller: acknowledgements and losses.\<close>

datatype cc_event = Ack size_type | Loss

fun cc_run :: "cc_event list \<Rightarrow> TcpCongestionController \<Rightarrow> TcpCongestionController option" where
  "cc_run [] c = Some c"
| "cc_run (Ack n # evs) c = (case cc_on_ack n c of None \<Rightarrow> None | Some c' \<Rightarrow> cc_run evs c')"
| "cc_run (Loss # evs) c = cc_run evs (cc_on_loss c)"

lemma cc_run_ok:
  assumes "cc_inv c" and "\<forall>n. Ack n \<in> set evs \<longrightarrow> unat n \<le> 2 ^ 20"
  shows "\<exists>c'. cc_run evs c = Some c' \<and> cc_inv c' \<and> mss_bytes c' = mss_bytes c"
  using assms
proof (induction evs arbitrary: c)
  case (Cons ev evs)
  show ?case
  proof (cases ev)
    case (Ack n)
    then obtain c1 where c1: "cc_on_ack n c = Some c1" "cc_inv c1" "mss_bytes c1 = mss_bytes c"
      using cc_on_ack_ok [OF Cons.prems(1), of n] Cons.prems(2) by auto
    with Cons.IH [OF c1(2)] Cons.prems(2) Ack show ?thesis by auto
  next
    case Loss
    then show ?thesis using Cons.IH [OF cc_on_loss_inv [OF Cons.prems(1)]] Cons.prems(2)
      by (auto simp: cc_on_loss_def)
  qed
qed simp

text \<open>Whatever is acknowledged, a call returns, and the cap holds.\<close>

lemma cc_on_ack_returns:
  assumes "mss_bytes c \<noteq> 0" and "unat (cwnd_bytes c) \<le> 2 ^ 20"
  shows "\<exists>c'. cc_on_ack acked c = Some c' \<and> mss_bytes c' = mss_bytes c \<and> unat (cwnd_bytes c') \<le> 2 ^ 20"
proof -
  have "\<exists>c'. ca_loop (c\<lparr>ca_accumulator_bytes := ca_accumulator_bytes c + ucast acked\<rparr>) = Some c' \<and> mss_bytes c' = mss_bytes c"
    using ca_loop_terminates [of "c\<lparr>ca_accumulator_bytes := ca_accumulator_bytes c + ucast acked\<rparr>"] assms(1) by auto
  then show ?thesis using assms(2) by (auto simp: cc_on_ack_def Let_def word_less_nat_alt)
qed

lemma cc_run_returns:
  assumes "mss_bytes c \<noteq> 0" and "unat (mss_bytes c) \<le> 2 ^ 20" and "unat (cwnd_bytes c) \<le> 2 ^ 20"
  shows "\<exists>c'. cc_run evs c = Some c' \<and> mss_bytes c' = mss_bytes c \<and> unat (cwnd_bytes c') \<le> 2 ^ 20"
  using assms
proof (induction evs arbitrary: c)
  case (Cons ev evs)
  show ?case
  proof (cases ev)
    case (Ack n)
    obtain c1 where "cc_on_ack n c = Some c1" "mss_bytes c1 = mss_bytes c" "unat (cwnd_bytes c1) \<le> 2 ^ 20"
      using cc_on_ack_returns [OF Cons.prems(1,3)] by blast
    with Cons.IH [of c1] Cons.prems Ack show ?thesis by simp
  next
    case Loss
    with Cons.IH [of "cc_on_loss c"] Cons.prems show ?thesis by (simp add: cc_on_loss_def)
  qed
qed simp

text \<open>
  \<^bold>\<open>C23\<close>. A controller built for a segment size of at most 1 MiB survives every history of losses and
  acknowledgements, of any size: every call returns (the loop of congestion avoidance ends), the segment size stays, and the window is at most
  1 MiB. When no acknowledgement of the history is for more than 1 MiB, the window is also at least one segment.\<close>

theorem congestion_window_bounds:
  assumes "unat mss \<le> 2 ^ 20"
  shows "\<exists>c. cc_run evs (mk_congestion mss) = Some c \<and>
    unat (mss_bytes c) = (if mss = 0 then 1200 else unat mss) \<and> unat (cwnd_bytes c) \<le> 2 ^ 20 \<and>
    ((\<forall>n. Ack n \<in> set evs \<longrightarrow> unat n \<le> 2 ^ 20) \<longrightarrow> unat (mss_bytes c) \<le> unat (cwnd_bytes c))"
proof -
  let ?c = "mk_congestion mss"
  have mss: "mss_bytes ?c = (if mss = 0 then 1200 else mss)" "cwnd_bytes ?c = mss_bytes ?c" by (simp_all add: mk_congestion_def Let_def)
  then have m: "mss_bytes ?c \<noteq> 0" "unat (mss_bytes ?c) \<le> 2 ^ 20" "unat (cwnd_bytes ?c) \<le> 2 ^ 20" using assms by simp_all
  obtain c where c: "cc_run evs ?c = Some c" "mss_bytes c = mss_bytes ?c" "unat (cwnd_bytes c) \<le> 2 ^ 20"
    using cc_run_returns [OF m] by blast
  have "unat (mss_bytes c) \<le> unat (cwnd_bytes c)" if "\<forall>n. Ack n \<in> set evs \<longrightarrow> unat n \<le> 2 ^ 20"
    using cc_run_ok [OF mk_congestion_inv [OF assms] that] c(1) by (auto simp: cc_inv_def)
  with c mss(1) show ?thesis by auto
qed

theorem congestion_window_bounds_witness:
  "(\<exists>c. cc_run [Ack 1200, Ack 9000, Loss, Ack 500000] (mk_congestion 1200) = Some c \<and>
      1200 \<le> unat (cwnd_bytes c) \<and> unat (cwnd_bytes c) \<le> 2 ^ 20) \<and>
   (\<exists>c. cc_run [Ack 9600, Ack (2 ^ 63), Ack (2 ^ 64 - 1), Loss] (mk_congestion 1200) = Some c \<and> unat (cwnd_bytes c) \<le> 2 ^ 20)"
  using congestion_window_bounds [of 1200 "[Ack 1200, Ack 9000, Loss, Ack 500000]"]
    congestion_window_bounds [of 1200 "[Ack 9600, Ack (2 ^ 63), Ack (2 ^ 64 - 1), Loss]"] by auto

text \<open>
  The bound on the acknowledgements is needed: one acknowledgement of nearly \<open>2\<^sup>3\<^sup>2\<close> bytes in slow start wraps the 32-bit window to one byte.
\<close>

lemma congestion_ack_wraps: "\<exists>c. cc_run [Ack 4294966097] (mk_congestion 1200) = Some c \<and> cwnd_bytes c = 1"
  by (simp add: mk_congestion_def cc_on_ack_def Let_def)

text \<open>
  The growth law: below the threshold an acknowledgement adds its bytes to the window, above
  it the window grows by one segment for each window's worth of acknowledged bytes and carries the
  rest over; growth stops at 1 MiB. A loss halves the threshold, with a floor of two segments, and
  restarts from one segment.\<close>

theorem congestion_growth:
  assumes "cc_inv c" and "0 < unat acked" and "unat acked \<le> 2 ^ 20"
  shows "(cwnd_bytes c < ssthresh_bytes c \<longrightarrow> (\<exists>c'. cc_on_ack acked c = Some c' \<and>
        unat (cwnd_bytes c') = min (2 ^ 20) (unat (cwnd_bytes c) + unat acked))) \<and>
    (ssthresh_bytes c \<le> cwnd_bytes c \<and> unat (ca_accumulator_bytes c) + unat acked < unat (cwnd_bytes c) \<longrightarrow>
      cc_on_ack acked c = Some (c\<lparr>ca_accumulator_bytes := ca_accumulator_bytes c + ucast acked\<rparr>)) \<and>
    (ssthresh_bytes c \<le> cwnd_bytes c \<and> unat (cwnd_bytes c) \<le> unat (ca_accumulator_bytes c) + unat acked \<and>
      unat (ca_accumulator_bytes c) + unat acked < 2 * unat (cwnd_bytes c) \<longrightarrow> (\<exists>c'. cc_on_ack acked c = Some c' \<and>
        unat (cwnd_bytes c') = min (2 ^ 20) (unat (cwnd_bytes c) + unat (mss_bytes c)) \<and>
        unat (ca_accumulator_bytes c') = unat (ca_accumulator_bytes c) + unat acked - unat (cwnd_bytes c))) \<and>
    unat (ssthresh_bytes (cc_on_loss c)) = max (2 * unat (mss_bytes c)) (unat (cwnd_bytes c) div 2)"
proof -
  have ua: "unat (ucast acked :: u32) = unat acked" using assms(3) by (intro unat_ucast_fits) simp
  have nz: "acked \<noteq> 0" using assms(2) by auto
  from assms(1) have i: "0 < unat (mss_bytes c)" "unat (mss_bytes c) \<le> unat (cwnd_bytes c)"
    "unat (cwnd_bytes c) \<le> 2 ^ 20" "unat (ca_accumulator_bytes c) < 2 ^ 21"
    by (auto simp: cc_inv_def)
  have sums: "unat (cwnd_bytes c + ucast acked) = unat (cwnd_bytes c) + unat acked"
    "unat (ca_accumulator_bytes c + ucast acked) = unat (ca_accumulator_bytes c) + unat acked"
    "unat (cwnd_bytes c + mss_bytes c) = unat (cwnd_bytes c) + unat (mss_bytes c)"
    "unat (2 * mss_bytes c) = 2 * unat (mss_bytes c)"
    using i assms(3) ua by (simp_all add: unat_add_no_wrap unat_mult_no_wrap)
  have slow: "\<exists>c'. cc_on_ack acked c = Some c' \<and>
      unat (cwnd_bytes c') = min (2 ^ 20) (unat (cwnd_bytes c) + unat acked)"
    if "cwnd_bytes c < ssthresh_bytes c"
    using that nz sums by (auto simp: cc_on_ack_def word_less_nat_alt min_def)
  have same: "cc_on_ack acked c = Some (c\<lparr>ca_accumulator_bytes := ca_accumulator_bytes c + ucast acked\<rparr>)"
    if "ssthresh_bytes c \<le> cwnd_bytes c" "unat (ca_accumulator_bytes c) + unat acked < unat (cwnd_bytes c)"
    using that nz sums i by (simp add: cc_on_ack_def ca_loop.simps word_less_nat_alt word_le_nat_alt)
  have one: "\<exists>c'. cc_on_ack acked c = Some c' \<and>
      unat (cwnd_bytes c') = min (2 ^ 20) (unat (cwnd_bytes c) + unat (mss_bytes c)) \<and>
      unat (ca_accumulator_bytes c') = unat (ca_accumulator_bytes c) + unat acked - unat (cwnd_bytes c)"
    if a: "ssthresh_bytes c \<le> cwnd_bytes c" "unat (cwnd_bytes c) \<le> unat (ca_accumulator_bytes c) + unat acked"
      "unat (ca_accumulator_bytes c) + unat acked < 2 * unat (cwnd_bytes c)"
  proof -
    let ?l = "c\<lparr>ca_accumulator_bytes := ca_accumulator_bytes c + ucast acked - cwnd_bytes c,
      cwnd_bytes := cwnd_bytes c + mss_bytes c\<rparr>"
    have ac: "unat (ca_accumulator_bytes c + ucast acked - cwnd_bytes c)
        = unat (ca_accumulator_bytes c) + unat acked - unat (cwnd_bytes c)"
      using a(2) sums(2) by (simp add: unat_sub_le)
    have "\<not> ca_accumulator_bytes ?l \<ge> cwnd_bytes ?l"
      using a(3) sums(3) ac i by (simp add: word_le_nat_alt)
    then have "ca_loop ?l = Some ?l" by (subst ca_loop.simps) simp
    moreover have "ca_accumulator_bytes c + ucast acked \<ge> cwnd_bytes c"
      using a(2) sums(2) by (simp add: word_le_nat_alt)
    ultimately have "ca_loop (c\<lparr>ca_accumulator_bytes := ca_accumulator_bytes c + ucast acked\<rparr>) = Some ?l"
      by (subst ca_loop.simps) simp
    then have "cc_on_ack acked c = Some (if cwnd_bytes ?l > 1048576 then ?l\<lparr>cwnd_bytes := 1048576\<rparr> else ?l)"
      using a(1) nz by (simp add: cc_on_ack_def word_less_nat_alt word_le_nat_alt)
    then show ?thesis using sums ac by (auto simp: word_less_nat_alt min_def)
  qed
  have loss: "unat (ssthresh_bytes (cc_on_loss c)) = max (2 * unat (mss_bytes c)) (unat (cwnd_bytes c) div 2)"
    using sums by (simp add: cc_on_loss_def max_def word_le_nat_alt unat_div)
  show ?thesis using slow same one loss by blast
qed

theorem congestion_growth_witness:
  "\<exists>c'. cc_on_ack 500 (mk_congestion 1200) = Some c' \<and> unat (cwnd_bytes c') = 1700"
  using congestion_growth [OF mk_congestion_inv [of 1200], of 500]
  by (simp add: mk_congestion_def Let_def)

end
