(* ===== verification/Polled_Wait.thy ===== *)
theory Polled_Wait
  imports Usn_Prelude
begin

text \<open>
  The waiting loops of the I/O layer (\<^verbatim>\<open>BatchRecv\<close>, \<^verbatim>\<open>BatchSend\<close>, \<^verbatim>\<open>EpollWrapper\<close>, \<^verbatim>\<open>IoUringWrapper\<close>) all
  have one shape: ask the kernel, and either return or go round again with what is left of a
  budget. The kernel's answers are a list that the loop consumes, one per round; \<open>None\<close> means that
  the loop is still waiting when the answers run out. The contract is that every round that does
  not return has used up some of the budget, and what follows from it is that the loop returns.
\<close>

fun wait_run :: "('b \<Rightarrow> 'a \<Rightarrow> 'r + 'b) \<Rightarrow> 'b \<Rightarrow> 'a list \<Rightarrow> 'r option" where
  "wait_run step b [] = None"
| "wait_run step b (a # as) = (case step b a of Inl r \<Rightarrow> Some r | Inr b' \<Rightarrow> wait_run step b' as)"

lemma wait_run_more: "wait_run step b as = Some r \<Longrightarrow> wait_run step b (as @ more) = Some r"
  by (induction as arbitrary: b) (auto split: sum.splits)

lemma wait_run_first: "step b a = Inl r \<Longrightarrow> wait_run step b (a # as) = Some r"
  by simp

locale polled_wait =
  fixes step :: "'b \<Rightarrow> 'a \<Rightarrow> 'r + 'b"
    and ok :: "'b \<Rightarrow> bool"
    and budget :: "'b \<Rightarrow> nat"
  assumes uses_budget: "ok b \<Longrightarrow> step b a = Inr b' \<Longrightarrow> ok b' \<and> budget b' < budget b"
begin

text \<open>The loop needs at most one answer more than its budget.\<close>

lemma returns: "ok b \<Longrightarrow> budget b < length as \<Longrightarrow> \<exists>r. wait_run step b as = Some r"
proof (induction as arbitrary: b)
  case (Cons a as)
  show ?case
  proof (cases "step b a")
    case (Inr b')
    with uses_budget [OF Cons.prems(1) Inr] Cons show ?thesis by fastforce
  qed simp
qed simp

lemma returns_early:
  assumes "ok b" and "budget b < length as"
  shows "wait_run step b as = wait_run step b (take (Suc (budget b)) as)"
proof -
  from assms obtain r where "wait_run step b (take (Suc (budget b)) as) = Some r"
    using returns [of b "take (Suc (budget b)) as"] by auto
  from wait_run_more [OF this, of "drop (Suc (budget b)) as"] this show ?thesis by simp
qed

end

end
