(* ===== verification/Batch_Io.thy ===== *)
theory Batch_Io
  imports Packet_Ring Polled_Wait
begin

text \<open>
  \<^verbatim>\<open>BatchRecv\<close> and \<^verbatim>\<open>BatchSend\<close> of \<^verbatim>\<open>io/batch_io.hpp\<close>. The kernel is an argument: each round of the
  waiting loop takes one answer of \<^verbatim>\<open>recvmmsg\<close> or \<^verbatim>\<open>sendmmsg\<close> (messages or a count, or an error
  number), the value then seen in the cancel flag, and the outcome of \<^verbatim>\<open>poll\<close>.
\<close>

section \<open>Types\<close>

abbreviation (input) EINTR :: int where "EINTR \<equiv> 4"
abbreviation (input) EAGAIN :: int where "EAGAIN \<equiv> 11"
abbreviation (input) EWOULDBLOCK :: int where "EWOULDBLOCK \<equiv> 11"

datatype BatchIOStatus = BatchOk | BatchTimeout | BatchCancelled | BatchWouldBlock | BatchSysError

record BatchIOResult =
  br_count :: size_type
  br_error :: int
  br_status :: BatchIOStatus

definition BatchIOResult_success :: "BatchIOResult \<Rightarrow> bool" where
  "BatchIOResult_success r \<longleftrightarrow> br_error r = 0 \<and> br_status r \<noteq> BatchSysError"

text \<open>The cancel flag is a pointer: \<open>bo_has_cancel\<close> says whether it is set.\<close>

record BatchIOOptions =
  bo_timeout_ms :: int
  bo_has_cancel :: bool
  bo_poll_interval_ms :: int

definition BatchIOOptions_default :: BatchIOOptions where
  "BatchIOOptions_default = \<lparr>bo_timeout_ms = 0, bo_has_cancel = False, bo_poll_interval_ms = 1\<rparr>"

record 'a mmsg_answer =
  ma_result :: "'a + int"
  ma_cancel :: bool
  ma_poll :: "int option"

section \<open>The waiting loop\<close>

text \<open>
  One round of \<^verbatim>\<open>recvmmsg_with_policy\<close> and \<^verbatim>\<open>sendmmsg_with_policy\<close>, which differ only in the call:
  the value returned (\<open>Inl\<close> a count or messages, \<open>Inr\<close> an error number), or the milliseconds left.
  \<open>nothing\<close> is the return value 0.
\<close>

definition policy_step ::
    "BatchIOOptions \<Rightarrow> 'a \<Rightarrow> int \<Rightarrow> 'a mmsg_answer \<Rightarrow> ('a + int) + int" where
  "policy_step options nothing remaining_ms answer =
     (case ma_result answer of
        Inl received \<Rightarrow> Inl (Inl received)
      | Inr errno \<Rightarrow>
          if errno \<noteq> EAGAIN \<and> errno \<noteq> EWOULDBLOCK then Inl (Inr errno)
          else if bo_timeout_ms options = 0 then Inl (Inl nothing)
          else if bo_has_cancel options \<and> ma_cancel answer then Inl (Inl nothing)
          else if bo_timeout_ms options > 0 \<and> remaining_ms \<le> 0 then Inl (Inl nothing)
          else
            let wait_ms = (if bo_poll_interval_ms options > 0 then bo_poll_interval_ms options else 1);
                remaining_ms = (if bo_timeout_ms options > 0
                                then remaining_ms - min wait_ms remaining_ms else remaining_ms)
            in case ma_poll answer of
                 Some e \<Rightarrow> if e \<noteq> EINTR then Inl (Inr e) else Inr remaining_ms
               | None \<Rightarrow> Inr remaining_ms)"

definition mmsg_with_policy ::
    "BatchIOOptions \<Rightarrow> 'a \<Rightarrow> bool \<Rightarrow> 'a mmsg_answer list \<Rightarrow> ('a + int) option" where
  "mmsg_with_policy options nothing cancelled answers =
     (if bo_has_cancel options \<and> cancelled then Some (Inl nothing)
      else wait_run (policy_step options nothing) (bo_timeout_ms options) answers)"

text \<open>The two users of the loop differ in the call and in the value 0 they return.\<close>

definition recvmmsg_with_policy ::
    "BatchIOOptions \<Rightarrow> bool \<Rightarrow> u8 list list mmsg_answer list \<Rightarrow> (u8 list list + int) option" where
  [simp]: "recvmmsg_with_policy options cancelled answers = mmsg_with_policy options [] cancelled answers"

definition sendmmsg_with_policy :: "BatchIOOptions \<Rightarrow> bool \<Rightarrow> nat mmsg_answer list \<Rightarrow> (nat + int) option" where
  [simp]: "sendmmsg_with_policy options cancelled answers = mmsg_with_policy options 0 cancelled answers"

interpretation batch_wait: polled_wait "policy_step options nothing"
    "\<lambda>_. 0 \<le> bo_timeout_ms options" "\<lambda>remaining_ms. nat remaining_ms"
  for options :: BatchIOOptions and nothing :: 'a
proof
  fix b b' :: int and a :: "'a mmsg_answer"
  assume t: "0 \<le> bo_timeout_ms options" and s: "policy_step options nothing b a = Inr b'"
  then have pos: "bo_timeout_ms options > 0" "0 < b"
    by (auto simp: policy_step_def Let_def split: sum.splits if_splits option.splits)
  have "b' = b - min (if bo_poll_interval_ms options > 0 then bo_poll_interval_ms options else 1) b"
    using s pos(1) by (auto simp: policy_step_def Let_def split: sum.splits if_splits option.splits)
  then show "0 \<le> bo_timeout_ms options \<and> nat b' < nat b" using t pos(2) by (auto simp: min_def)
qed

section \<open>Receiving\<close>

text \<open>
  What \<^verbatim>\<open>recv_batch\<close> and \<^verbatim>\<open>send_batch\<close> make of an outcome that carries no message; \<open>cancelled\<close> is the
  cancel flag as it is then.
\<close>

definition batch_no_data :: "BatchIOOptions \<Rightarrow> bool \<Rightarrow> BatchIOResult" where
  "batch_no_data options cancelled =
     (if bo_has_cancel options \<and> cancelled then \<lparr>br_count = 0, br_error = 0, br_status = BatchCancelled\<rparr>
      else if bo_timeout_ms options > 0 then \<lparr>br_count = 0, br_error = 0, br_status = BatchTimeout\<rparr>
      else \<lparr>br_count = 0, br_error = 0, br_status = BatchWouldBlock\<rparr>)"

definition batch_failed :: "int \<Rightarrow> BatchIOResult" where
  "batch_failed err =
     (if err = EAGAIN \<or> err = EWOULDBLOCK then \<lparr>br_count = 0, br_error = 0, br_status = BatchWouldBlock\<rparr>
      else \<lparr>br_count = 0, br_error = err, br_status = BatchSysError\<rparr>)"

text \<open>\<^verbatim>\<open>recvmmsg\<close> fills the buffers in order; \<open>bufs i\<close> is the address of \<^verbatim>\<open>temp_buffers_[i].data()\<close>.\<close>

definition recv_into :: "(nat \<Rightarrow> ptr) \<Rightarrow> u8 list list \<Rightarrow> mem \<Rightarrow> mem" where
  "recv_into bufs msgs m = fold (\<lambda>i m. mem_write m (bufs i) (msgs ! i)) [0..<length msgs] m"

definition received_packets :: "(nat \<Rightarrow> ptr) \<Rightarrow> u8 list list \<Rightarrow> Packet list" where
  "received_packets bufs msgs = map (\<lambda>i. mk_Packet (bufs i) (of_nat (length (msgs ! i))) 0) [0..<length msgs]"

fun push_received :: "Packet list \<Rightarrow> packet_ring \<Rightarrow> nat \<times> packet_ring" where
  "push_received [] ring = (0, ring)"
| "push_received (pkt # pkts) ring =
     (case ring_try_push pkt ring of
        (True, ring') \<Rightarrow> (let (added, ring'') = push_received pkts ring' in (Suc added, ring''))
      | (False, ring') \<Rightarrow> (0, ring'))"

definition recv_batch_ring ::
    "BatchIOOptions \<Rightarrow> (nat \<Rightarrow> ptr) \<Rightarrow> size_type \<Rightarrow> bool \<Rightarrow> u8 list list mmsg_answer list \<Rightarrow> bool \<Rightarrow>
     packet_ring \<Rightarrow> mem \<Rightarrow> (BatchIOResult \<times> packet_ring \<times> mem) option" where
  "recv_batch_ring options bufs max_packets cancelled answers cancelled_after ring m =
     (if max_packets = 0 then Some (\<lparr>br_count = 0, br_error = 0, br_status = BatchOk\<rparr>, ring, m)
      else
        case recvmmsg_with_policy options cancelled answers of
          None \<Rightarrow> None
        | Some (Inr err) \<Rightarrow> Some (batch_failed err, ring, m)
        | Some (Inl msgs) \<Rightarrow>
            if msgs = [] then Some (batch_no_data options cancelled_after, ring, m)
            else
              let m' = recv_into bufs msgs m;
                  (added, ring') = push_received (received_packets bufs msgs) ring
              in Some (\<lparr>br_count = of_nat added, br_error = 0, br_status = BatchOk\<rparr>, ring', m'))"

definition recv_batch_span ::
    "BatchIOOptions \<Rightarrow> (nat \<Rightarrow> ptr) \<Rightarrow> Packet list \<Rightarrow> bool \<Rightarrow> u8 list list mmsg_answer list \<Rightarrow> bool \<Rightarrow>
     mem \<Rightarrow> (BatchIOResult \<times> Packet list \<times> mem) option" where
  "recv_batch_span options bufs out_packets cancelled answers cancelled_after m =
     (if out_packets = [] then Some (\<lparr>br_count = 0, br_error = 0, br_status = BatchOk\<rparr>, out_packets, m)
      else
        case recvmmsg_with_policy options cancelled answers of
          None \<Rightarrow> None
        | Some (Inr err) \<Rightarrow> Some (batch_failed err, out_packets, m)
        | Some (Inl msgs) \<Rightarrow>
            if msgs = [] then Some (batch_no_data options cancelled_after, out_packets, m)
            else Some (\<lparr>br_count = of_nat (length msgs), br_error = 0, br_status = BatchOk\<rparr>,
                       received_packets bufs msgs @ drop (length msgs) out_packets,
                       recv_into bufs msgs m))"

section \<open>Sending\<close>

definition send_batch ::
    "BatchIOOptions \<Rightarrow> Packet list \<Rightarrow> bool \<Rightarrow> nat mmsg_answer list \<Rightarrow> bool \<Rightarrow> BatchIOResult option" where
  "send_batch options out_packets cancelled answers cancelled_after =
     (if out_packets = [] then Some \<lparr>br_count = 0, br_error = 0, br_status = BatchOk\<rparr>
      else
        case sendmmsg_with_policy options cancelled answers of
          None \<Rightarrow> None
        | Some (Inr err) \<Rightarrow> Some (batch_failed err)
        | Some (Inl sent) \<Rightarrow>
            if sent = 0 then Some (batch_no_data options cancelled_after)
            else Some \<lparr>br_count = of_nat sent, br_error = 0, br_status = BatchOk\<rparr>)"

section \<open>Correctness\<close>

lemma policy_returns:
  assumes "0 \<le> bo_timeout_ms options" and "nat (bo_timeout_ms options) < length answers"
  shows "\<exists>r. mmsg_with_policy options nothing cancelled answers = Some r"
  using batch_wait.returns [OF assms] by (simp add: mmsg_with_policy_def)

text \<open>
  The calls into the kernel that the loop makes: in each round one \<^verbatim>\<open>recvmmsg\<close> or \<^verbatim>\<open>sendmmsg\<close>, and a \<^verbatim>\<open>poll\<close> when that would block and there
  is something left to wait for.
\<close>

definition polls :: "BatchIOOptions \<Rightarrow> int \<Rightarrow> 'a mmsg_answer \<Rightarrow> bool" where
  "polls options remaining_ms answer \<longleftrightarrow> ma_result answer \<in> {Inr EAGAIN, Inr EWOULDBLOCK} \<and> bo_timeout_ms options \<noteq> 0 \<and>
     \<not> (bo_has_cancel options \<and> ma_cancel answer) \<and> \<not> (bo_timeout_ms options > 0 \<and> remaining_ms \<le> 0)"

fun round_calls :: "BatchIOOptions \<Rightarrow> 'a \<Rightarrow> int \<Rightarrow> 'a mmsg_answer list \<Rightarrow> nat" where
  "round_calls options nothing remaining_ms [] = 0"
| "round_calls options nothing remaining_ms (answer # answers) =
     (if polls options remaining_ms answer then 2 else 1) +
     (case policy_step options nothing remaining_ms answer of Inl _ \<Rightarrow> 0 | Inr left_ms \<Rightarrow> round_calls options nothing left_ms answers)"

definition kernel_calls :: "BatchIOOptions \<Rightarrow> 'a \<Rightarrow> bool \<Rightarrow> 'a mmsg_answer list \<Rightarrow> nat" where
  "kernel_calls options nothing cancelled answers =
     (if bo_has_cancel options \<and> cancelled then 0 else round_calls options nothing (bo_timeout_ms options) answers)"

text \<open>A round that goes on has polled, and a round that polls still had time left.\<close>

lemma policy_step_polls: "policy_step options nothing b a = Inr b' \<Longrightarrow> polls options b a"
  by (auto simp: policy_step_def polls_def Let_def split: sum.splits if_splits option.splits)

lemma round_calls_bound:
  assumes "0 \<le> bo_timeout_ms options"
  shows "round_calls options nothing b answers \<le> 2 * nat b + 1"
proof (induction answers arbitrary: b)
  case (Cons a answers)
  have pos: "0 < nat b" if "polls options b a" using that assms by (auto simp: polls_def)
  show ?case
  proof (cases "policy_step options nothing b a")
    case (Inr b')
    have "nat b' < nat b" using batch_wait.uses_budget [OF assms Inr] by blast
    moreover have "round_calls options nothing b (a # answers) = 2 + round_calls options nothing b' answers"
      using Inr policy_step_polls [OF Inr] by simp
    ultimately show ?thesis using Cons.IH [of b'] by linarith
  qed (use pos in \<open>simp add: Suc_le_eq\<close>)
qed simp

lemma kernel_calls_bound:
  "0 \<le> bo_timeout_ms options \<Longrightarrow> kernel_calls options nothing cancelled answers \<le> 2 * nat (bo_timeout_ms options) + 1"
  using round_calls_bound [of options nothing "bo_timeout_ms options" answers] by (simp add: kernel_calls_def)

lemma policy_early:
  assumes "0 \<le> bo_timeout_ms options" and "nat (bo_timeout_ms options) < length answers"
  shows "mmsg_with_policy options nothing cancelled answers =
    mmsg_with_policy options nothing cancelled (take (Suc (nat (bo_timeout_ms options))) answers)"
  using batch_wait.returns_early [OF assms] by (simp add: mmsg_with_policy_def)

text \<open>
  \<^bold>\<open>C26\<close>. With a timeout of \<open>t \<ge> 0\<close> milliseconds every batch call returns after at most \<open>t + 1\<close> rounds, whatever the kernel answers:
  later answers are never looked at. In these rounds it makes at most \<open>2 t + 1\<close> calls into the kernel, counting \<^verbatim>\<open>recvmmsg\<close> or \<^verbatim>\<open>sendmmsg\<close> and \<^verbatim>\<open>poll\<close>.\<close>

theorem batch_io_returns:
  assumes "0 \<le> bo_timeout_ms options" and "nat (bo_timeout_ms options) < length answers"
    and "nat (bo_timeout_ms options) < length send_answers"
  shows "(\<exists>r. recv_batch_ring options bufs n cancelled answers after ring m = Some r) \<and>
    (\<exists>r. recv_batch_span options bufs out_packets cancelled answers after m = Some r) \<and>
    (\<exists>r. send_batch options out_packets cancelled send_answers after = Some r) \<and>
    recvmmsg_with_policy options cancelled answers =
      recvmmsg_with_policy options cancelled (take (Suc (nat (bo_timeout_ms options))) answers) \<and>
    sendmmsg_with_policy options cancelled send_answers =
      sendmmsg_with_policy options cancelled (take (Suc (nat (bo_timeout_ms options))) send_answers) \<and>
    kernel_calls options [] cancelled answers \<le> 2 * nat (bo_timeout_ms options) + 1 \<and>
    kernel_calls options 0 cancelled send_answers \<le> 2 * nat (bo_timeout_ms options) + 1"
proof -
  obtain r where r: "mmsg_with_policy options [] cancelled answers = Some r"
    using policy_returns [OF assms(1,2)] by blast
  obtain q where q: "mmsg_with_policy options 0 cancelled send_answers = Some q"
    using policy_returns [OF assms(1,3)] by blast
  show ?thesis
  proof (intro conjI)
    show "recvmmsg_with_policy options cancelled answers = recvmmsg_with_policy options cancelled (take (Suc (nat (bo_timeout_ms options))) answers)"
      unfolding recvmmsg_with_policy_def by (rule policy_early [OF assms(1,2)])
    show "sendmmsg_with_policy options cancelled send_answers =
        sendmmsg_with_policy options cancelled (take (Suc (nat (bo_timeout_ms options))) send_answers)"
      unfolding sendmmsg_with_policy_def by (rule policy_early [OF assms(1,3)])
    show "kernel_calls options [] cancelled answers \<le> 2 * nat (bo_timeout_ms options) + 1"
      "kernel_calls options 0 cancelled send_answers \<le> 2 * nat (bo_timeout_ms options) + 1"
      by (rule kernel_calls_bound [OF assms(1)])+
  qed (use r q in \<open>auto simp: recv_batch_ring_def recv_batch_span_def send_batch_def Let_def split: sum.splits prod.splits\<close>)
qed

definition try_again :: "'a mmsg_answer" where
  "try_again = \<lparr>ma_result = Inr EAGAIN, ma_cancel = False, ma_poll = None\<rparr>"

theorem batch_io_returns_witness:
  "\<exists>r. recv_batch_ring \<lparr>bo_timeout_ms = 3, bo_has_cancel = False, bo_poll_interval_ms = 1\<rparr> (\<lambda>i. 65536 * (i + 1)) 8
      False (replicate 4 try_again) False (PacketRing 8) (\<lambda>_. 0) = Some r \<and>
    kernel_calls \<lparr>bo_timeout_ms = 3, bo_has_cancel = False, bo_poll_interval_ms = 1\<rparr> ([] :: u8 list list) False (replicate 4 try_again) \<le> 7"
  using batch_io_returns [of "\<lparr>bo_timeout_ms = 3, bo_has_cancel = False, bo_poll_interval_ms = 1\<rparr>"
      "replicate 4 try_again" "replicate 4 try_again"] by simp

lemma recv_into_other:
  assumes "\<And>i. i < length msgs \<Longrightarrow> a < bufs i \<or> bufs i + length (msgs ! i) \<le> a"
  shows "recv_into bufs msgs m a = m a"
proof -
  have "fold (\<lambda>i m. mem_write m (bufs i) (msgs ! i)) [0..<k] m a = m a" if "k \<le> length msgs" for k
    using that assms by (induction k) (simp_all add: mem_write_outside)
  then show ?thesis by (simp add: recv_into_def)
qed

lemma recv_into_read:
  assumes "i < length msgs" and "\<And>j. j < length msgs \<Longrightarrow> length (msgs ! j) \<le> 65536"
    and "\<And>j k. j < k \<Longrightarrow> bufs j + 65536 \<le> bufs k"
  shows "mem_read (recv_into bufs msgs m) (bufs i) (length (msgs ! i)) = msgs ! i"
proof -
  have "i < k \<Longrightarrow> mem_read (fold (\<lambda>i m. mem_write m (bufs i) (msgs ! i)) [0..<k] m) (bufs i) (length (msgs ! i)) = msgs ! i"
    if "k \<le> length msgs" for k
    using that
  proof (induction k)
    case (Suc k)
    show ?case
    proof (cases "i = k")
      case False
      then have "i < k" using Suc.prems by simp
      then have "bufs i + length (msgs ! i) \<le> bufs k"
        using assms(2) [OF assms(1)] assms(3) [of i k] by linarith
      with Suc \<open>i < k\<close> show ?thesis by (simp add: mem_read_write_disjoint)
    qed simp
  qed simp
  from this [of "length msgs"] assms(1) show ?thesis by (simp add: recv_into_def)
qed

lemma push_received_spec:
  assumes "ring_inv (length pkts + n) r" and "push_received pkts r = (k, r')"
  shows "k = min (length pkts) (unat (ring_capacity r) - length (ring_contents r)) \<and>
    ring_contents r' = ring_contents r @ take k pkts \<and> ring_inv n r' \<and> ring_capacity r' = ring_capacity r"
  using assms
proof (induction pkts arbitrary: r k r')
  case (Cons p pkts)
  obtain ok r1 where push: "ring_try_push p r = (ok, r1)" by fastforce
  have inv: "ring_inv (Suc (length pkts + n)) r" using Cons.prems(1) by simp
  note sp = ring_push_spec [OF inv push]
  have le: "length (ring_contents r) \<le> unat (ring_capacity r)" by (rule ring_contents_le_capacity [OF inv])
  show ?case
  proof (cases ok)
    case True
    then have c: "ring_contents r1 = ring_contents r @ [p]" "length (ring_contents r) < unat (ring_capacity r)"
      using sp(1) by (auto simp: spec_push_def split: if_splits)
    obtain j r2 where rec: "push_received pkts r1 = (j, r2)" by fastforce
    have kr: "k = Suc j" "r' = r2" using Cons.prems(2) push True rec by auto
    from Cons.IH [OF sp(2) rec] c sp(3) kr show ?thesis
      by (auto simp del: length_ring_contents simp add: arg_cong [OF c(1), of length])
  next
    case False
    then have c: "ring_contents r1 = ring_contents r" "\<not> length (ring_contents r) < unat (ring_capacity r)"
      using sp(1) by (auto simp: spec_push_def split: if_splits)
    have kr: "k = 0" "r' = r1" using Cons.prems(2) push False by auto
    show ?thesis using c kr sp(2,3) le ring_inv_mono [OF sp(2), of n]
      by (simp del: length_ring_contents)
  qed
qed (auto intro: ring_inv_mono)

lemma received_packet_bytes:
  assumes "\<forall>msg \<in> set msgs. length msg \<le> 65536" and "\<forall>j k. j < k \<longrightarrow> bufs j + 65536 \<le> bufs k"
  shows "map (pkt_bytes (recv_into bufs msgs m)) (received_packets bufs msgs) = msgs"
proof (rule nth_equalityI)
  fix i assume "i < length (map (pkt_bytes (recv_into bufs msgs m)) (received_packets bufs msgs))"
  then have i: "i < length msgs" by (simp add: received_packets_def)
  then have len: "length (msgs ! i) \<le> 65536" using assms(1) by simp
  have "mem_read (recv_into bufs msgs m) (bufs i) (length (msgs ! i)) = msgs ! i"
    using i assms by (intro recv_into_read) auto
  with i len show "map (pkt_bytes (recv_into bufs msgs m)) (received_packets bufs msgs) ! i = msgs ! i"
    by (simp add: received_packets_def pkt_bytes_def unat_of_nat_small)
qed (simp add: received_packets_def)

lemma recv_batch_ring_delivers:
  assumes inv: "ring_inv (length msgs + n) ring"
    and got: "mmsg_with_policy options [] cancelled answers = Some (Inl msgs)"
    and "msgs \<noteq> []" and "max_packets \<noteq> 0"
  obtains k ring' where
    "recv_batch_ring options bufs max_packets cancelled answers after ring m =
       Some (\<lparr>br_count = of_nat k, br_error = 0, br_status = BatchOk\<rparr>, ring', recv_into bufs msgs m)"
    "k = min (length msgs) (unat (ring_capacity ring) - length (ring_contents ring))"
    "ring_contents ring' = ring_contents ring @ take k (received_packets bufs msgs)"
    "ring_inv n ring'" "ring_capacity ring' = ring_capacity ring"
proof -
  obtain k ring' where p: "push_received (received_packets bufs msgs) ring = (k, ring')" by fastforce
  have len: "length (received_packets bufs msgs) = length msgs" by (simp add: received_packets_def)
  note sp = push_received_spec [of "received_packets bufs msgs" n, unfolded len, OF inv p]
  show ?thesis
    by (rule that [of k ring']) (use sp assms(3,4) in \<open>simp_all add: recv_batch_ring_def got p\<close>)
qed

text \<open>
  \<^bold>\<open>C25\<close>. When the kernel hands over messages, \<^verbatim>\<open>recv_batch\<close> appends descriptors for the first of them,
  in order, as many as the ring has room for, and reports that number; the bytes behind the new
  descriptors are those messages. Messages beyond the free space are lost.\<close>

theorem batch_recv_delivers:
  assumes "ring_inv (length msgs) ring"
    and "mmsg_with_policy options [] cancelled answers = Some (Inl msgs)"
    and "msgs \<noteq> []" and "max_packets \<noteq> 0"
    and "\<forall>msg \<in> set msgs. length msg \<le> 65536"
    and "\<forall>j k. j < k \<longrightarrow> bufs j + 65536 \<le> bufs k"
  shows "\<exists>k new ring' m'. recv_batch_ring options bufs max_packets cancelled answers after ring m =
       Some (\<lparr>br_count = of_nat k, br_error = 0, br_status = BatchOk\<rparr>, ring', m') \<and>
     k = min (length msgs) (unat (ring_capacity ring) - length (ring_contents ring)) \<and>
     ring_contents ring' = ring_contents ring @ new \<and> map (pkt_bytes m') new = take k msgs"
proof -
  have "ring_inv (length msgs + 0) ring" using assms(1) by simp
  then obtain k ring' where
    r: "recv_batch_ring options bufs max_packets cancelled answers after ring m =
       Some (\<lparr>br_count = of_nat k, br_error = 0, br_status = BatchOk\<rparr>, ring', recv_into bufs msgs m)"
    "k = min (length msgs) (unat (ring_capacity ring) - length (ring_contents ring))"
    "ring_contents ring' = ring_contents ring @ take k (received_packets bufs msgs)"
    using assms(2-4) by (rule recv_batch_ring_delivers)
  have "map (pkt_bytes (recv_into bufs msgs m)) (take k (received_packets bufs msgs)) = take k msgs"
    using received_packet_bytes [OF assms(5,6)] by (metis take_map)
  with r show ?thesis by blast
qed

theorem batch_recv_delivers_witness:
  "\<exists>k new ring' m'. recv_batch_ring BatchIOOptions_default (\<lambda>i. 65536 * (i + 1)) 8 False
       [\<lparr>ma_result = Inl [[1, 2, 3], [4]], ma_cancel = False, ma_poll = None\<rparr>] False (PacketRing 8) (\<lambda>_. 0) =
       Some (\<lparr>br_count = of_nat k, br_error = 0, br_status = BatchOk\<rparr>, ring', m') \<and>
     k = min (length [[1, 2, 3], [4 :: u8]]) (unat (ring_capacity (PacketRing 8)) - length (ring_contents (PacketRing 8))) \<and>
     ring_contents ring' = ring_contents (PacketRing 8) @ new \<and>
     map (pkt_bytes m') new = take k [[1, 2, 3], [4]]"
proof (rule batch_recv_delivers)
  show "ring_inv (length [[1, 2, 3], [4 :: u8]]) (PacketRing 8)" using PacketRing_inv(1) [of 8 "length [[1, 2, 3], [4 :: u8]]"] by simp
qed (simp_all add: BatchIOOptions_default_def mmsg_with_policy_def policy_step_def)

text \<open>
  The buffers belong to the receiver and are used again by the next call: two datagrams of equal
  length received by two calls leave two equal descriptors in the ring, and both show the second
  datagram. The first is lost although both calls report one packet.\<close>

theorem batch_recv_aliasing:
  assumes "ring_inv 2 ring" and "length (ring_contents ring) + 2 \<le> unat (ring_capacity ring)"
    and "mmsg_with_policy options [] cancelled answers = Some (Inl [first])"
    and "mmsg_with_policy options [] cancelled answers' = Some (Inl [second])"
    and "length first = length second" and "length second \<le> 65536" and "max_packets \<noteq> 0"
  shows "\<exists>r ring' m' ring'' m'' p.
     recv_batch_ring options bufs max_packets cancelled answers after ring m = Some (r, ring', m') \<and>
     recv_batch_ring options bufs max_packets cancelled answers' after ring' m' = Some (r, ring'', m'') \<and>
     br_count r = 1 \<and> br_status r = BatchOk \<and>
     pkt_bytes m' p = first \<and> ring_contents ring' = ring_contents ring @ [p] \<and>
     ring_contents ring'' = ring_contents ring @ [p, p] \<and> pkt_bytes m'' p = second"
proof -
  let ?p = "mk_Packet (bufs 0) (of_nat (length second)) 0"
  have pk: "received_packets bufs [first] = [?p]" "received_packets bufs [second] = [?p]"
    using assms(5) by (simp_all add: received_packets_def)
  have inv: "ring_inv (length [first] + 1) ring" using assms(1) by (simp add: numeral_2_eq_2)
  obtain k ring' where a: "recv_batch_ring options bufs max_packets cancelled answers after ring m =
       Some (\<lparr>br_count = of_nat k, br_error = 0, br_status = BatchOk\<rparr>, ring', recv_into bufs [first] m)"
    "k = min (length [first]) (unat (ring_capacity ring) - length (ring_contents ring))"
    "ring_contents ring' = ring_contents ring @ take k (received_packets bufs [first])"
    "ring_inv 1 ring'" "ring_capacity ring' = ring_capacity ring"
    by (rule recv_batch_ring_delivers [OF inv assms(3) _ assms(7)]) auto
  have k: "k = 1" using a(2) assms(2) by (simp del: length_ring_contents)
  have c: "ring_contents ring' = ring_contents ring @ [?p]" using a(3) k pk by simp
  have inv': "ring_inv (length [second] + 0) ring'" using a(4) by simp
  obtain k' ring'' where b: "recv_batch_ring options bufs max_packets cancelled answers' after ring' (recv_into bufs [first] m) =
       Some (\<lparr>br_count = of_nat k', br_error = 0, br_status = BatchOk\<rparr>, ring'', recv_into bufs [second] (recv_into bufs [first] m))"
    "k' = min (length [second]) (unat (ring_capacity ring') - length (ring_contents ring'))"
    "ring_contents ring'' = ring_contents ring' @ take k' (received_packets bufs [second])"
    by (rule recv_batch_ring_delivers [OF inv' assms(4) _ assms(7)]) auto
  have k': "k' = 1" using b(2) assms(2) a(5) arg_cong [OF c, of length] by (simp del: length_ring_contents)
  have bytes: "pkt_bytes (recv_into bufs [first] m) ?p = first"
    "pkt_bytes (recv_into bufs [second] (recv_into bufs [first] m)) ?p = second"
    using assms(5,6) by (simp_all add: pkt_bytes_def recv_into_def unat_of_nat_small)
  show ?thesis using a(1) b(1,3) c k k' pk bytes by (auto intro!: exI [of _ ?p])
qed

theorem batch_recv_aliasing_witness:
  "\<exists>r ring' m' ring'' m'' p.
     recv_batch_ring BatchIOOptions_default (\<lambda>i. 65536 * (i + 1)) 8 False
       [\<lparr>ma_result = Inl [[1, 2, 3]], ma_cancel = False, ma_poll = None\<rparr>] False (PacketRing 8) (\<lambda>_. 0) = Some (r, ring', m') \<and>
     recv_batch_ring BatchIOOptions_default (\<lambda>i. 65536 * (i + 1)) 8 False
       [\<lparr>ma_result = Inl [[4, 5, 6]], ma_cancel = False, ma_poll = None\<rparr>] False ring' m' = Some (r, ring'', m'') \<and>
     br_count r = 1 \<and> br_status r = BatchOk \<and>
     pkt_bytes m' p = [1, 2, 3] \<and> ring_contents ring' = ring_contents (PacketRing 8) @ [p] \<and>
     ring_contents ring'' = ring_contents (PacketRing 8) @ [p, p] \<and> pkt_bytes m'' p = [4, 5, 6]"
proof (rule batch_recv_aliasing)
  show "ring_inv 2 (PacketRing 8)" using PacketRing_inv [of 8 2] by simp
  show "length (ring_contents (PacketRing 8)) + 2 \<le> unat (ring_capacity (PacketRing 8))" by code_simp
qed (simp_all add: BatchIOOptions_default_def mmsg_with_policy_def policy_step_def)

end
