(* ===== verification/Epoll_Wrapper.thy ===== *)
theory Epoll_Wrapper
  imports Polled_Wait
begin

text \<open>
  \<^verbatim>\<open>EpollWrapper\<close> of \<^verbatim>\<open>io/epoll_wrapper.hpp\<close>. The kernel's interest list and \<^verbatim>\<open>epoll_wait\<close> are outside
  the program: \<^verbatim>\<open>epoll_ctl\<close> is an argument that answers a call, and the waiting loop consumes one answer
  of \<^verbatim>\<open>epoll_wait\<close> per round with the value of the cancel flag read after it.
\<close>

section \<open>Types\<close>

datatype EpollWaitStatus = EpollOk | EpollTimeout | EpollCancelled | EpollSysError

record EpollWaitOptions =
  eo_timeout_ms :: int
  eo_has_cancel :: bool
  eo_poll_interval_ms :: int

definition EpollWaitOptions_default :: EpollWaitOptions where
  "EpollWaitOptions_default = \<lparr>eo_timeout_ms = -1, eo_has_cancel = False, eo_poll_interval_ms = 5\<rparr>"

record EpollWaitResult =
  er_count :: int
  er_error :: int
  er_status :: EpollWaitStatus

definition EpollWaitResult_success :: "EpollWaitResult \<Rightarrow> bool" where
  "EpollWaitResult_success r \<longleftrightarrow> er_status r \<noteq> EpollSysError"

text \<open>
  \<^verbatim>\<open>struct epoll_event\<close> of the C library: the event mask and the union \<^verbatim>\<open>data\<close>, eight bytes that hold a
  pointer, or a descriptor in the first four of them.
\<close>

record epoll_event =
  ev_events :: u32
  ev_data :: u64

definition data_set_ptr :: "u64 \<Rightarrow> u64 \<Rightarrow> u64" where
  "data_set_ptr p d = p"

definition data_set_fd :: "32 word \<Rightarrow> u64 \<Rightarrow> u64" where
  "data_set_fd fd d = of_le (le_bytes 4 fd @ drop 4 (le_bytes 8 d))"

definition data_fd :: "u64 \<Rightarrow> 32 word" where
  "data_fd d = of_le (take 4 (le_bytes 8 d))"

datatype epoll_op = EPOLL_CTL_ADD | EPOLL_CTL_MOD | EPOLL_CTL_DEL

section \<open>The interest list\<close>

text \<open>
  \<open>ctl\<close> is \<^verbatim>\<open>epoll_ctl\<close> on the wrapper's descriptor: its return value and the new state of the kernel.
  \<open>garbage\<close> is what the uninitialised union holds.
\<close>

definition epoll_change ::
    "(epoll_op \<Rightarrow> 32 word \<Rightarrow> epoll_event option \<Rightarrow> 'k \<Rightarrow> int \<times> 'k) \<Rightarrow> epoll_op \<Rightarrow> u64 \<Rightarrow>
     32 word \<Rightarrow> u32 \<Rightarrow> u64 \<Rightarrow> 'k \<Rightarrow> bool \<times> 'k" where
  "epoll_change ctl op garbage fd events user_data k =
     (let ev = \<lparr>ev_events = events, ev_data = garbage\<rparr>;
          ev = ev\<lparr>ev_data := data_set_ptr user_data (ev_data ev)\<rparr>;
          ev = ev\<lparr>ev_data := data_set_fd fd (ev_data ev)\<rparr>;
          (ret, k') = ctl op fd (Some ev) k
      in (ret = 0, k'))"

definition epoll_add where
  "epoll_add ctl garbage fd events user_data k = epoll_change ctl EPOLL_CTL_ADD garbage fd events user_data k"

definition epoll_modify where
  "epoll_modify ctl garbage fd events user_data k = epoll_change ctl EPOLL_CTL_MOD garbage fd events user_data k"

definition epoll_remove ::
    "(epoll_op \<Rightarrow> 32 word \<Rightarrow> epoll_event option \<Rightarrow> 'k \<Rightarrow> int \<times> 'k) \<Rightarrow> 32 word \<Rightarrow> 'k \<Rightarrow> bool \<times> 'k" where
  "epoll_remove ctl fd k = (let (ret, k') = ctl EPOLL_CTL_DEL fd None k in (ret = 0, k'))"

section \<open>Waiting\<close>

record epoll_answer =
  ea_result :: "epoll_event list + int"
  ea_cancel :: bool

text \<open>
  The milliseconds one round passes to \<^verbatim>\<open>epoll_wait\<close> and what is left of the timeout after it, or \<open>None\<close>
  when the loop gives up before the call.
\<close>

definition epoll_budget :: "EpollWaitOptions \<Rightarrow> int \<Rightarrow> (int \<times> int) option" where
  "epoll_budget options remaining_ms =
     (let interval = (if eo_poll_interval_ms options > 0 then eo_poll_interval_ms options else 1)
      in if eo_timeout_ms options < 0 then Some (interval, remaining_ms)
         else if eo_timeout_ms options > 0 then
           if remaining_ms \<le> 0 then None
           else let wait_ms = min interval remaining_ms in Some (wait_ms, remaining_ms - wait_ms)
         else Some (eo_timeout_ms options, remaining_ms))"

definition epoll_step ::
    "EpollWaitOptions \<Rightarrow> int \<Rightarrow> epoll_answer \<Rightarrow> (EpollWaitResult \<times> epoll_event list) + int" where
  "epoll_step options remaining_ms answer =
     (case epoll_budget options remaining_ms of
        None \<Rightarrow> Inl (\<lparr>er_count = 0, er_error = 0, er_status = EpollTimeout\<rparr>, [])
      | Some (wait_ms, remaining_ms) \<Rightarrow>
          (case ea_result answer of
             Inl evs \<Rightarrow>
               if evs \<noteq> [] then Inl (\<lparr>er_count = int (length evs), er_error = 0, er_status = EpollOk\<rparr>, evs)
               else if eo_has_cancel options \<and> ea_cancel answer
                 then Inl (\<lparr>er_count = 0, er_error = 0, er_status = EpollCancelled\<rparr>, [])
               else if eo_timeout_ms options = 0
                 then Inl (\<lparr>er_count = 0, er_error = 0, er_status = EpollTimeout\<rparr>, [])
               else if eo_timeout_ms options > 0 \<and> remaining_ms \<le> 0
                 then Inl (\<lparr>er_count = 0, er_error = 0, er_status = EpollTimeout\<rparr>, [])
               else Inr remaining_ms
           | Inr errno \<Rightarrow>
               if errno = 4 then
                 if eo_has_cancel options \<and> ea_cancel answer
                 then Inl (\<lparr>er_count = 0, er_error = 0, er_status = EpollCancelled\<rparr>, [])
                 else Inr remaining_ms
               else Inl (\<lparr>er_count = -1, er_error = errno, er_status = EpollSysError\<rparr>, [])))"

definition wait_with_options ::
    "EpollWaitOptions \<Rightarrow> bool \<Rightarrow> epoll_answer list \<Rightarrow> (EpollWaitResult \<times> epoll_event list) option" where
  "wait_with_options options cancelled answers =
     (if eo_has_cancel options \<and> cancelled
      then Some (\<lparr>er_count = 0, er_error = 0, er_status = EpollCancelled\<rparr>, [])
      else wait_run (epoll_step options) (eo_timeout_ms options) answers)"

text \<open>\<^verbatim>\<open>wait\<close> returns the count, with \<^verbatim>\<open>errno\<close> set when it is -1.\<close>

definition epoll_wait_ms :: "int \<Rightarrow> epoll_answer list \<Rightarrow> (int \<times> int option \<times> epoll_event list) option" where
  "epoll_wait_ms timeout_ms answers =
     (case wait_with_options (EpollWaitOptions_default\<lparr>eo_timeout_ms := timeout_ms\<rparr>) False answers of
        None \<Rightarrow> None
      | Some (result, evs) \<Rightarrow>
          if er_status result = EpollSysError then Some (-1, Some (er_error result), evs)
          else Some (er_count result, None, evs))"

definition wait_nonblock :: "epoll_answer list \<Rightarrow> (int \<times> int option \<times> epoll_event list) option" where
  "wait_nonblock answers = epoll_wait_ms 0 answers"

text \<open>
  \<^verbatim>\<open>event_loop\<close>: each element of \<open>rounds\<close> is what the kernel answers during one call of \<^verbatim>\<open>wait\<close>. The
  result is the callbacks made so far, and whether the loop has ended.
\<close>

fun event_loop :: "int \<Rightarrow> epoll_answer list list \<Rightarrow> (32 word \<times> u32) list \<times> bool" where
  "event_loop timeout_ms [] = ([], False)"
| "event_loop timeout_ms (answers # rounds) =
     (case epoll_wait_ms timeout_ms answers of
        None \<Rightarrow> ([], False)
      | Some (num_events, errno, evs) \<Rightarrow>
          if num_events < 0 then
            if errno = Some 4 then event_loop timeout_ms rounds else ([], True)
          else
            let calls = map (\<lambda>ev. (data_fd (ev_data ev), ev_events ev)) evs;
                (later, ended) = event_loop timeout_ms rounds
            in (calls @ later, ended))"

interpretation epoll_wait: polled_wait "epoll_step options"
    "\<lambda>_. 0 < eo_timeout_ms options" "\<lambda>remaining_ms. nat remaining_ms"
  for options :: EpollWaitOptions
proof
  fix b b' :: int and a :: epoll_answer
  assume t: "0 < eo_timeout_ms options" and s: "epoll_step options b a = Inr b'"
  let ?i = "if eo_poll_interval_ms options > 0 then eo_poll_interval_ms options else 1"
  have "0 < b" "b' = b - min ?i b" using s t
    by (auto simp: epoll_step_def epoll_budget_def Let_def split: sum.splits if_splits)
  then show "0 < eo_timeout_ms options \<and> nat b' < nat b" using t by (auto simp: min_def)
qed

section \<open>Correctness\<close>

lemmas epoll_step_simps = epoll_step_def epoll_budget_def Let_def

text \<open>A result that is not an error is well formed.\<close>

lemma wait_run_result:
  assumes "wait_run (epoll_step options) b as = Some (r, evs)"
  shows "(er_status r = EpollOk \<longleftrightarrow> evs \<noteq> []) \<and> (er_status r \<noteq> EpollSysError \<longrightarrow> er_count r = int (length evs) \<and> er_error r = 0) \<and>
    (er_status r = EpollSysError \<longrightarrow> er_count r = -1 \<and> er_error r \<noteq> 4) \<and>
    (er_status r = EpollCancelled \<longrightarrow> eo_has_cancel options) \<and> (er_status r = EpollTimeout \<longrightarrow> 0 \<le> eo_timeout_ms options)"
  using assms
proof (induction as arbitrary: b)
  case (Cons a as)
  show ?case
  proof (cases "epoll_step options b a")
    case (Inl q)
    with Cons.prems have "epoll_step options b a = Inl (r, evs)" by simp
    then show ?thesis by (auto simp: epoll_step_simps split: sum.splits if_splits)
  next
    case (Inr b')
    with Cons show ?thesis by simp
  qed
qed simp

text \<open>The loop runs past rounds that bring no event, and returns the first events that arrive in time.\<close>

definition quiet :: "epoll_answer \<Rightarrow> bool" where
  "quiet a \<longleftrightarrow> (ea_result a = Inl [] \<or> ea_result a = Inr 4) \<and> \<not> ea_cancel a"

lemma wait_run_quiet:
  assumes "0 < eo_timeout_ms options" and "0 < eo_poll_interval_ms options" and "\<forall>a \<in> set idle. quiet a"
    and "eo_poll_interval_ms options * int (length idle) < b"
  shows "wait_run (epoll_step options) b (idle @ as) =
    wait_run (epoll_step options) (b - eo_poll_interval_ms options * int (length idle)) as"
  using assms
proof (induction idle arbitrary: b)
  case (Cons a idle)
  let ?i = "eo_poll_interval_ms options"
  have room: "?i * int (length idle) < b - ?i" using Cons.prems(4) by (simp add: algebra_simps)
  moreover have "0 \<le> ?i * int (length idle)" using Cons.prems(2) by simp
  ultimately have pos: "?i < b" "0 < b" using Cons.prems(2) by linarith+
  then have "epoll_step options b a = Inr (b - ?i)"
    using Cons.prems(1-3) by (auto simp: epoll_step_simps quiet_def min_def)
  then have "wait_run (epoll_step options) b ((a # idle) @ as) = wait_run (epoll_step options) (b - ?i - ?i * int (length idle)) as"
    using Cons.IH [of "b - ?i"] Cons.prems(1-3) room by simp
  also have "b - ?i - ?i * int (length idle) = b - ?i * int (length (a # idle))" by (simp add: algebra_simps)
  finally show ?case .
qed simp

text \<open>
  \<^verbatim>\<open>wait_with_options\<close> with a timeout of \<open>t > 0\<close> milliseconds returns after at most \<open>t + 1\<close> calls of
  \<^verbatim>\<open>epoll_wait\<close>, whatever the kernel answers; \<^verbatim>\<open>Ok\<close> comes exactly with events and the count is their
  number; an interrupted call is never reported as an error.\<close>

theorem epoll_wait_returns:
  assumes "0 < eo_timeout_ms options" and "nat (eo_timeout_ms options) < length answers"
  shows "\<exists>r evs. wait_with_options options cancelled answers = Some (r, evs) \<and>
    (er_status r = EpollOk \<longleftrightarrow> evs \<noteq> []) \<and>
    (EpollWaitResult_success r \<longrightarrow> er_count r = int (length evs) \<and> er_error r = 0) \<and>
    (\<not> EpollWaitResult_success r \<longrightarrow> er_count r = -1 \<and> er_error r \<noteq> 4 \<and> evs = []) \<and>
    wait_with_options options cancelled answers =
      wait_with_options options cancelled (take (Suc (nat (eo_timeout_ms options))) answers)"
proof -
  obtain q where q: "wait_run (epoll_step options) (eo_timeout_ms options) answers = Some q"
    using epoll_wait.returns [OF assms] by blast
  obtain r evs where [simp]: "q = (r, evs)" by fastforce
  show ?thesis
    using wait_run_result [OF q [simplified]] q epoll_wait.returns_early [OF assms]
    by (auto simp: wait_with_options_def EpollWaitResult_success_def)
qed

theorem epoll_wait_returns_witness:
  "\<exists>r evs. wait_with_options \<lparr>eo_timeout_ms = 2, eo_has_cancel = False, eo_poll_interval_ms = 1\<rparr> False
      (replicate 3 \<lparr>ea_result = Inr 4, ea_cancel = False\<rparr>) = Some (r, evs)"
  using epoll_wait_returns [of "\<lparr>eo_timeout_ms = 2, eo_has_cancel = False, eo_poll_interval_ms = 1\<rparr>"
      "replicate 3 \<lparr>ea_result = Inr 4, ea_cancel = False\<rparr>" False] by auto



text \<open>
  \<^verbatim>\<open>add\<close> stores \<^verbatim>\<open>user_data\<close> and the descriptor in the same union: the event loop reads the
  descriptor back, but of the pointer only the upper half is left, so what the kernel is given is
  \<^verbatim>\<open>user_data\<close> only if its lower half happens to be the descriptor.\<close>

theorem epoll_add_union:
  "epoll_add ctl garbage fd events user_data k =
     (let d = of_le (le_bytes 4 fd @ drop 4 (le_bytes 8 user_data));
          (ret, k') = ctl EPOLL_CTL_ADD fd (Some \<lparr>ev_events = events, ev_data = d\<rparr>) k
      in (ret = 0, k')) \<and>
   data_fd (of_le (le_bytes 4 fd @ drop 4 (le_bytes 8 user_data))) = fd \<and>
   (of_le (le_bytes 4 fd @ drop 4 (le_bytes 8 user_data)) = user_data \<longleftrightarrow> data_fd user_data = fd)"
proof (rule conjI [OF _ conjI])
  let ?d = "of_le (le_bytes 4 fd @ drop 4 (le_bytes 8 user_data)) :: u64"
  have bytes: "le_bytes 8 ?d = le_bytes 4 fd @ drop 4 (le_bytes 8 user_data)" by simp
  show fd: "data_fd ?d = fd" by (simp add: data_fd_def bytes)
  show "?d = user_data \<longleftrightarrow> data_fd user_data = fd"
  proof
    assume "data_fd user_data = fd"
    then have "le_bytes 4 fd = take 4 (le_bytes 8 user_data)" by (auto simp: data_fd_def)
    then have "?d = of_le (le_bytes 8 user_data)" by simp
    then show "?d = user_data" by simp
  qed (use fd in auto)
qed (simp add: epoll_add_def epoll_change_def data_set_ptr_def data_set_fd_def Let_def)

end
