(* ===== verification/Io_Uring.thy ===== *)
theory Io_Uring
  imports Usn_Prelude
begin

text \<open>
  \<^verbatim>\<open>IoUringWrapper\<close> of \<^verbatim>\<open>io/io_uring_wrapper.hpp\<close>. liburing is outside the program: \<open>cqe_call\<close> stands for
  \<^verbatim>\<open>io_uring_peek_cqe\<close>, \<^verbatim>\<open>io_uring_wait_cqe_timeout\<close> and \<^verbatim>\<open>io_uring_wait_cqe\<close> on the ring (which of them
  is an argument), \<open>cqe_seen\<close> for \<^verbatim>\<open>io_uring_cqe_seen\<close>, and \<open>submit\<close> for taking, filling and submitting a
  submission entry. The answers of the kernel are consumed in order, each with the cancel flag then read.
\<close>

section \<open>Types\<close>

datatype IoUringWaitStatus = UringOk | UringTimeout | UringCancelled | UringNotInitialized | UringSysError

record IoUringWaitOptions =
  uo_timeout_ms :: int
  uo_has_cancel :: bool
  uo_poll_interval_ms :: int

definition IoUringWaitOptions_default :: IoUringWaitOptions where
  "IoUringWaitOptions_default = \<lparr>uo_timeout_ms = -1, uo_has_cancel = False, uo_poll_interval_ms = 1\<rparr>"

record IoUringWaitResult =
  ur_count :: int
  ur_error :: int
  ur_status :: IoUringWaitStatus

definition IoUringWaitResult_success :: "IoUringWaitResult \<Rightarrow> bool" where
  "IoUringWaitResult_success r \<longleftrightarrow> ur_status r \<noteq> UringSysError \<and> ur_status r \<noteq> UringNotInitialized"

text \<open>The liburing call of one round: peek, wait for the given milliseconds, or wait without limit.\<close>

datatype cqe_wait = PeekCqe | WaitCqeTimeout int | WaitCqe

datatype uring_request = UringRecv | UringSend

section \<open>Submitting\<close>

text \<open>
  \<open>get_sqe\<close> takes a free submission entry (\<open>None\<close>: the queue is full), \<open>prep\<close> fills it and sets
  \<^verbatim>\<open>IOSQE_ASYNC\<close>, \<open>submit\<close> is \<^verbatim>\<open>io_uring_submit\<close>.
\<close>

definition uring_submit ::
    "('q \<Rightarrow> ('s \<times> 'q) option) \<Rightarrow> (uring_request \<Rightarrow> 's \<Rightarrow> int \<Rightarrow> ptr \<Rightarrow> size_type \<Rightarrow> u32 \<Rightarrow> 'q \<Rightarrow> 'q) \<Rightarrow>
     ('q \<Rightarrow> int \<times> 'q) \<Rightarrow> uring_request \<Rightarrow> bool \<Rightarrow> int \<Rightarrow> ptr \<Rightarrow> size_type \<Rightarrow> u32 \<Rightarrow> 'q \<Rightarrow> bool \<times> 'q" where
  "uring_submit get_sqe prep submit req initialized fd buf len flags q =
     (if \<not> initialized then (False, q)
      else case get_sqe q of
        None \<Rightarrow> (False, q)
      | Some (sqe, q) \<Rightarrow> let (ret, q) = submit (prep req sqe fd buf len flags q) in (ret \<ge> 0, q))"

definition submit_recv where
  "submit_recv get_sqe prep submit = uring_submit get_sqe prep submit UringRecv"

definition submit_send where
  "submit_send get_sqe prep submit = uring_submit get_sqe prep submit UringSend"

section \<open>Waiting for completions\<close>

text \<open>The call of a round and the milliseconds left after it; \<open>None\<close>: the budget is used up.\<close>

definition uring_wait_kind :: "IoUringWaitOptions \<Rightarrow> u32 \<Rightarrow> nat \<Rightarrow> int \<Rightarrow> (cqe_wait \<times> int) option" where
  "uring_wait_kind options min_completions count remaining_ms =
     (if count < unat min_completions then
        if uo_timeout_ms options = 0 then Some (PeekCqe, remaining_ms)
        else if uo_timeout_ms options > 0 then
          let step_ms = (if uo_poll_interval_ms options > 0 then uo_poll_interval_ms options else 1)
          in if remaining_ms \<le> 0 then None
             else let step_ms = min step_ms remaining_ms in Some (WaitCqeTimeout step_ms, remaining_ms - step_ms)
        else Some (WaitCqe, remaining_ms)
      else Some (PeekCqe, remaining_ms))"

text \<open>
  The \<^verbatim>\<open>while\<close> loop. \<^verbatim>\<open>count\<close> is the number of entries pushed, the length of \<open>cqes\<close>. \<open>Inl\<close> is a return from
  inside the loop, \<open>Inr\<close> the way on to marking the entries as seen.
\<close>

fun uring_loop ::
    "(cqe_wait \<Rightarrow> 'q \<Rightarrow> 'a \<Rightarrow> ('c + int) \<times> 'q) \<Rightarrow> IoUringWaitOptions \<Rightarrow> u32 \<Rightarrow> u32 \<Rightarrow> int \<Rightarrow> 'c list \<Rightarrow> 'q \<Rightarrow>
     ('a \<times> bool) list \<Rightarrow> ((IoUringWaitResult + unit) \<times> 'c list \<times> 'q) option" where
  "uring_loop cqe_call options min_completions max_completions remaining_ms cqes q answers =
     (if length cqes \<ge> unat max_completions then Some (Inr (), cqes, q)
      else case uring_wait_kind options min_completions (length cqes) remaining_ms of
        None \<Rightarrow> Some (Inl \<lparr>ur_count = int (length cqes), ur_error = 0, ur_status = UringTimeout\<rparr>, cqes, q)
      | Some (kind, remaining_ms) \<Rightarrow>
          (case answers of
             [] \<Rightarrow> None
           | (a, cancel) # answers \<Rightarrow>
               (case cqe_call kind q a of
                  (Inr err, q) \<Rightarrow>
                    if err = 4 then
                      if uo_has_cancel options \<and> cancel
                      then Some (Inl \<lparr>ur_count = int (length cqes), ur_error = 0, ur_status = UringCancelled\<rparr>, cqes, q)
                      else uring_loop cqe_call options min_completions max_completions remaining_ms cqes q answers
                    else if err = 62 \<or> err = 11 then
                      if uo_has_cancel options \<and> cancel
                      then Some (Inl \<lparr>ur_count = int (length cqes), ur_error = 0, ur_status = UringCancelled\<rparr>, cqes, q)
                      else if cqes = []
                      then Some (Inl \<lparr>ur_count = 0, ur_error = 0,
                             ur_status = (if uo_timeout_ms options \<ge> 0 then UringTimeout else UringOk)\<rparr>, cqes, q)
                      else Some (Inr (), cqes, q)
                    else Some (Inl \<lparr>ur_count = int (length cqes), ur_error = err, ur_status = UringSysError\<rparr>, cqes, q)
                | (Inl cqe, q) \<Rightarrow>
                    if uo_has_cancel options \<and> cancel then Some (Inr (), cqes @ [cqe], q)
                    else uring_loop cqe_call options min_completions max_completions remaining_ms (cqes @ [cqe]) q answers)))"

definition mark_seen :: "('q \<Rightarrow> 'c \<Rightarrow> 'q) \<Rightarrow> 'c list \<Rightarrow> 'q \<Rightarrow> 'q" where
  "mark_seen cqe_seen cqes q = fold (\<lambda>cqe q. cqe_seen q cqe) cqes q"

definition wait_completions_with_options ::
    "(cqe_wait \<Rightarrow> 'q \<Rightarrow> 'a \<Rightarrow> ('c + int) \<times> 'q) \<Rightarrow> ('q \<Rightarrow> 'c \<Rightarrow> 'q) \<Rightarrow> bool \<Rightarrow> u32 \<Rightarrow> u32 \<Rightarrow>
     IoUringWaitOptions \<Rightarrow> bool \<Rightarrow> ('a \<times> bool) list \<Rightarrow> bool \<Rightarrow> 'q \<Rightarrow> (IoUringWaitResult \<times> 'c list \<times> 'q) option" where
  "wait_completions_with_options cqe_call cqe_seen initialized min_completions max_completions options
       cancelled answers cancelled_after q =
     (if \<not> initialized then Some (\<lparr>ur_count = 0, ur_error = 0, ur_status = UringNotInitialized\<rparr>, [], q)
      else if uo_has_cancel options \<and> cancelled
      then Some (\<lparr>ur_count = 0, ur_error = 0, ur_status = UringCancelled\<rparr>, [], q)
      else case uring_loop cqe_call options min_completions max_completions (uo_timeout_ms options) [] q answers of
        None \<Rightarrow> None
      | Some (Inl result, cqes, q) \<Rightarrow> Some (result, cqes, q)
      | Some (Inr _, cqes, q) \<Rightarrow>
          let q = mark_seen cqe_seen cqes q
          in if uo_has_cancel options \<and> cancelled_after \<and> cqes = []
             then Some (\<lparr>ur_count = 0, ur_error = 0, ur_status = UringCancelled\<rparr>, cqes, q)
             else if cqes = [] \<and> uo_timeout_ms options \<ge> 0
             then Some (\<lparr>ur_count = 0, ur_error = 0, ur_status = UringTimeout\<rparr>, cqes, q)
             else Some (\<lparr>ur_count = int (length cqes), ur_error = 0, ur_status = UringOk\<rparr>, cqes, q))"

text \<open>\<^verbatim>\<open>wait_completions\<close>: the count, with \<^verbatim>\<open>errno\<close> set when it is -1.\<close>

definition wait_completions where
  "wait_completions cqe_call cqe_seen initialized min_completions max_completions answers q =
     (case wait_completions_with_options cqe_call cqe_seen initialized min_completions max_completions
             IoUringWaitOptions_default False answers False q of
        None \<Rightarrow> None
      | Some (result, cqes, q) \<Rightarrow>
          if ur_status result = UringSysError then Some (-1, Some (ur_error result), cqes, q)
          else if ur_status result = UringNotInitialized then Some (0, None, cqes, q)
          else Some (ur_count result, None, cqes, q))"

text \<open>\<^verbatim>\<open>peek_completions\<close>; \<open>n\<close> is \<^verbatim>\<open>max_completions - count\<close>, one answer is consumed per call.\<close>

fun peek_cqe_loop :: "(cqe_wait \<Rightarrow> 'q \<Rightarrow> 'a \<Rightarrow> ('c + int) \<times> 'q) \<Rightarrow> nat \<Rightarrow> 'q \<Rightarrow> 'a list \<Rightarrow> ('c list \<times> 'q) option" where
  "peek_cqe_loop cqe_call 0 q answers = Some ([], q)"
| "peek_cqe_loop cqe_call (Suc n) q [] = None"
| "peek_cqe_loop cqe_call (Suc n) q (a # answers) =
     (case cqe_call PeekCqe q a of
        (Inr err, q) \<Rightarrow> Some ([], q)
      | (Inl cqe, q) \<Rightarrow> map_option (\<lambda>(cqes, q). (cqe # cqes, q)) (peek_cqe_loop cqe_call n q answers))"

definition peek_completions ::
    "(cqe_wait \<Rightarrow> 'q \<Rightarrow> 'a \<Rightarrow> ('c + int) \<times> 'q) \<Rightarrow> ('q \<Rightarrow> 'c \<Rightarrow> 'q) \<Rightarrow> bool \<Rightarrow> 'c list \<Rightarrow> u32 \<Rightarrow> 'a list \<Rightarrow> 'q \<Rightarrow>
     (int \<times> 'c list \<times> 'q) option" where
  "peek_completions cqe_call cqe_seen initialized cqes max_completions answers q =
     (if \<not> initialized then Some (0, cqes, q)
      else case peek_cqe_loop cqe_call (unat max_completions) q answers of
        None \<Rightarrow> None
      | Some (cqes, q) \<Rightarrow> Some (int (length cqes), cqes, mark_seen cqe_seen cqes q))"

section \<open>Correctness\<close>

declare uring_loop.simps [simp del]

text \<open>
  What liburing documents of a completion queue: \<open>contents q\<close> are the completions not yet seen, a call
  hands out the oldest without consuming it, later completions join at the end, and \<^verbatim>\<open>io_uring_cqe_seen\<close>
  consumes the oldest.
\<close>

definition cq_documented ::
    "('q \<Rightarrow> 'c list) \<Rightarrow> (cqe_wait \<Rightarrow> 'q \<Rightarrow> 'a \<Rightarrow> ('c + int) \<times> 'q) \<Rightarrow> ('q \<Rightarrow> 'c \<Rightarrow> 'q) \<Rightarrow> bool" where
  "cq_documented contents cqe_call cqe_seen \<longleftrightarrow>
     (\<forall>kind q a. contents q \<noteq> [] \<longrightarrow>
        fst (cqe_call kind q a) = Inl (hd (contents q)) \<and>
        (\<exists>more. contents (snd (cqe_call kind q a)) = contents q @ more)) \<and>
     (\<forall>q c. contents q \<noteq> [] \<longrightarrow> contents (cqe_seen q c) = tl (contents q))"

lemma cq_documentedD:
  assumes "cq_documented contents cqe_call cqe_seen" and "contents q = c # rest"
  obtains q' more where "cqe_call kind q a = (Inl c, q')" "contents q' = c # rest @ more"
proof -
  obtain x q' where e: "cqe_call kind q a = (x, q')" by fastforce
  have ne: "contents q \<noteq> []" using assms(2) by simp
  have "fst (cqe_call kind q a) = Inl (hd (contents q)) \<and> (\<exists>more. contents (snd (cqe_call kind q a)) = contents q @ more)"
    using assms(1) ne unfolding cq_documented_def by blast
  then obtain more where "x = Inl c" "contents q' = (c # rest) @ more" using e assms(2) by auto
  with e that [of q' more] show ?thesis by simp
qed

lemma mark_seen_contents:
  assumes "cq_documented contents cqe_call cqe_seen" and "length cqes \<le> length (contents q)"
  shows "contents (mark_seen cqe_seen cqes q) = drop (length cqes) (contents q)"
  using assms(2)
proof (induction cqes arbitrary: q)
  case (Cons c cqes)
  then have "contents q \<noteq> []" by auto
  then have "contents (cqe_seen q c) = tl (contents q)"
    using assms(1) unfolding cq_documented_def by blast
  moreover from this have "contents (mark_seen cqe_seen cqes (cqe_seen q c)) = drop (length cqes) (tl (contents q))"
    using Cons by simp
  ultimately show ?case by (simp add: mark_seen_def drop_Suc)
qed (simp add: mark_seen_def)

lemma peek_cqe_loop_documented:
  assumes "cq_documented contents cqe_call cqe_seen" and "contents q = c # rest" and "n \<le> length answers"
  shows "\<exists>q' more. peek_cqe_loop cqe_call n q answers = Some (replicate n c, q') \<and> contents q' = c # rest @ more"
  using assms(2,3)
proof (induction n arbitrary: q rest answers)
  case (Suc n)
  obtain a as where as: "answers = a # as" using Suc.prems(2) by (cases answers) auto
  obtain q1 more where q1: "cqe_call PeekCqe q a = (Inl c, q1)" "contents q1 = c # rest @ more"
    by (rule cq_documentedD [OF assms(1) Suc.prems(1)])
  from Suc.IH [OF q1(2), of as] Suc.prems(2) as q1(1) show ?case by auto
qed simp

lemma uring_loop_documented:
  assumes "cq_documented contents cqe_call cqe_seen" and "contents q = c # rest"
    and "uo_timeout_ms options < 0" and "\<not> uo_has_cancel options"
    and "cqes = replicate j c" and "j + n = unat max_completions" and "n \<le> length answers"
  shows "\<exists>q' more. uring_loop cqe_call options mn max_completions t cqes q answers = Some (Inr (), replicate (j + n) c, q') \<and>
    contents q' = c # rest @ more"
  using assms(2,5-7)
proof (induction n arbitrary: q rest cqes answers j)
  case (Suc n)
  obtain a b as where as: "answers = (a, b) # as" using Suc.prems(4) by (cases answers) auto
  have "\<exists>kind. uring_wait_kind options mn (length cqes) t = Some (kind, t)"
    using assms(3) by (simp add: uring_wait_kind_def)
  then obtain kind where k: "uring_wait_kind options mn (length cqes) t = Some (kind, t)" by blast
  obtain q1 more where q1: "cqe_call kind q a = (Inl c, q1)" "contents q1 = c # rest @ more"
    by (rule cq_documentedD [OF assms(1) Suc.prems(1)])
  have "cqes @ [c] = replicate (Suc j) c" by (simp add: Suc.prems(2) replicate_append_same)
  from Suc.IH [OF q1(2) this] Suc.prems as
  obtain q' more' where "uring_loop cqe_call options mn max_completions t (cqes @ [c]) q1 as =
      Some (Inr (), replicate (j + Suc n) c, q')" "contents q' = c # (rest @ more) @ more'"
    by fastforce
  moreover have "\<not> unat max_completions \<le> length cqes" using Suc.prems(2,3) by simp
  ultimately show ?case using assms(4) as k q1(1)
    by (subst uring_loop.simps) auto
qed (auto simp: uring_loop.simps)

text \<open>
  \<^bold>\<open>C28\<close>. Entries are marked as seen only after the collecting loop, and a call without marking returns the
  oldest entry again. So on a queue that holds \<open>c\<close> first, \<^verbatim>\<open>peek_completions\<close> and \<^verbatim>\<open>wait_completions\<close> return
  \<^verbatim>\<open>max_completions\<close> copies of \<open>c\<close>, and if the queue holds that many they consume as many different
  completions, of which all but the first are never reported.\<close>

theorem uring_duplicates_completion:
  assumes "cq_documented contents cqe_call cqe_seen" and "contents q = c # rest"
    and "unat max_completions \<le> length answers" and "0 < unat max_completions"
    and "unat max_completions \<le> Suc (length rest)"
  shows "(\<exists>q' more. peek_completions cqe_call cqe_seen True cqes max_completions (map fst answers) q =
        Some (int (unat max_completions), replicate (unat max_completions) c, q') \<and>
      contents q' = drop (unat max_completions) (c # rest @ more)) \<and>
    (\<exists>q' more. wait_completions cqe_call cqe_seen True min_completions max_completions answers q =
        Some (int (unat max_completions), None, replicate (unat max_completions) c, q') \<and>
      contents q' = drop (unat max_completions) (c # rest @ more))"
proof
  let ?n = "unat max_completions"
  have seen: "contents (mark_seen cqe_seen (replicate ?n c) q') = drop ?n (c # rest @ more)"
    if "contents q' = c # rest @ more" for q' more
    using mark_seen_contents [OF assms(1), of "replicate ?n c" q'] that assms(5) by simp
  have len: "?n \<le> length (map fst answers)" using assms(3) by simp
  show "\<exists>q' more. peek_completions cqe_call cqe_seen True cqes max_completions (map fst answers) q =
        Some (int ?n, replicate ?n c, q') \<and> contents q' = drop ?n (c # rest @ more)"
    using peek_cqe_loop_documented [OF assms(1,2) len] seen by (fastforce simp: peek_completions_def)
  have "\<exists>q' more. uring_loop cqe_call IoUringWaitOptions_default min_completions max_completions
        (uo_timeout_ms IoUringWaitOptions_default) [] q answers = Some (Inr (), replicate (0 + ?n) c, q') \<and>
      contents q' = c # rest @ more"
    by (rule uring_loop_documented [OF assms(1,2)]) (use assms(3) in \<open>simp_all add: IoUringWaitOptions_default_def\<close>)
  then obtain q' more where loop: "uring_loop cqe_call IoUringWaitOptions_default min_completions max_completions
        (uo_timeout_ms IoUringWaitOptions_default) [] q answers = Some (Inr (), replicate ?n c, q')"
      "contents q' = c # rest @ more" by auto
  have "wait_completions cqe_call cqe_seen True min_completions max_completions answers q =
      Some (int ?n, None, replicate ?n c, mark_seen cqe_seen (replicate ?n c) q')"
    using assms(4) unfolding wait_completions_def wait_completions_with_options_def loop(1)
    by (simp add: IoUringWaitOptions_default_def)
  with seen [OF loop(2)] show "\<exists>q' more. wait_completions cqe_call cqe_seen True min_completions max_completions answers q =
        Some (int ?n, None, replicate ?n c, q') \<and> contents q' = drop ?n (c # rest @ more)" by blast
qed

definition list_cqe_call :: "cqe_wait \<Rightarrow> nat list \<Rightarrow> nat list \<Rightarrow> (nat + int) \<times> nat list" where
  "list_cqe_call kind q a = ((case q of [] \<Rightarrow> Inr 11 | c # _ \<Rightarrow> Inl c), q @ a)"

definition list_cqe_seen :: "nat list \<Rightarrow> nat \<Rightarrow> nat list" where
  "list_cqe_seen q c = tl q"

theorem uring_duplicates_completion_witness:
  "\<exists>q' more. wait_completions list_cqe_call list_cqe_seen True 1 2 [([], False), ([], False)] [7, 8, 9] =
     Some (2, None, replicate 2 7, q') \<and> q' = drop 2 (7 # [8, 9] @ more)"
proof -
  have "cq_documented (\<lambda>q. q) list_cqe_call list_cqe_seen"
    by (auto simp: cq_documented_def list_cqe_call_def list_cqe_seen_def split: list.splits)
  from uring_duplicates_completion [OF this, of "[7, 8, 9]" 7 "[8, 9]" 2 "[([], False), ([], False)]" "[]" 1]
  show ?thesis by simp
qed

text \<open>
  A bounded wait does not last its timeout: as soon as one poll interval passes without a completion
  the call returns \<^verbatim>\<open>Timeout\<close>, although only \<^verbatim>\<open>min(poll_interval_ms, timeout_ms)\<close> milliseconds were asked for,
  and no later answer of the kernel is looked at.\<close>

theorem uring_timeout_after_one_interval:
  assumes "0 < uo_timeout_ms options" and "0 < uo_poll_interval_ms options" and "0 < unat min_completions"
    and "0 < unat max_completions" and "\<not> uo_has_cancel options"
    and "fst (cqe_call (WaitCqeTimeout (min (uo_poll_interval_ms options) (uo_timeout_ms options))) q a) = Inr 62"
  shows "\<exists>q'. wait_completions_with_options cqe_call cqe_seen True min_completions max_completions options cancelled
      ((a, b) # later) after q = Some (\<lparr>ur_count = 0, ur_error = 0, ur_status = UringTimeout\<rparr>, [], q')"
proof -
  obtain q' where "cqe_call (WaitCqeTimeout (min (uo_poll_interval_ms options) (uo_timeout_ms options))) q a = (Inr 62, q')"
    using assms(6) by (metis prod.collapse)
  then show ?thesis using assms(1-5)
    by (simp add: wait_completions_with_options_def uring_loop.simps [of _ _ _ _ _ "[]"] uring_wait_kind_def Let_def)
qed

theorem uring_timeout_after_one_interval_witness:
  "\<exists>q'. wait_completions_with_options (\<lambda>_ q a. (case q @ a of [] \<Rightarrow> Inr 62 | c # _ \<Rightarrow> Inl c, q @ a)) list_cqe_seen True 1 1
      \<lparr>uo_timeout_ms = 1000, uo_has_cancel = False, uo_poll_interval_ms = 1\<rparr> False
      [([], False), ([7], False)] False [] = Some (\<lparr>ur_count = 0, ur_error = 0, ur_status = UringTimeout\<rparr>, [], q')"
  by (rule uring_timeout_after_one_interval) simp_all

end
