(* ===== verification/Busy_Poll.thy ===== *)
theory Busy_Poll
  imports Polled_Wait
begin

text \<open>
  \<^verbatim>\<open>BusyPoller\<close> of \<^verbatim>\<open>io/busy_poll.hpp\<close>. One element of the input list is one turn of the polling loop: whether
  \<^verbatim>\<open>stop\<close> was called since the last look at \<^verbatim>\<open>running_\<close>, the cancel flag, the result of \<^verbatim>\<open>poll_func\<close>, and the
  readings of the steady clock in nanoseconds. Times are integers; the clock does not go back.
\<close>

section \<open>Types\<close>

record BusyPollConfig =
  poll_interval :: int
  max_idle_time :: int
  max_iterations :: u32
  adaptive :: bool

definition BusyPollConfig_default :: BusyPollConfig where
  "BusyPollConfig_default = \<lparr>poll_interval = 1000, max_idle_time = 10000, max_iterations = 1000, adaptive = True\<rparr>"

datatype BusyPollStatus = PollCompleted | PollTimeout | PollCancelled | PollStopped

text \<open>The timeout is in milliseconds; \<open>bc_has_cancel\<close> says whether there is a cancel flag.\<close>

record BusyPollControl =
  bc_timeout :: int
  bc_has_cancel :: bool

definition BusyPollControl_default :: BusyPollControl where
  "BusyPollControl_default = \<lparr>bc_timeout = -1, bc_has_cancel = False\<rparr>"

record BusyPollResult =
  bp_iterations :: u64
  bp_data_hits :: u64
  bp_status :: BusyPollStatus

record busy_poller =
  bs_config :: BusyPollConfig
  bs_running :: bool
  bs_idle_count :: u32

definition BusyPoller :: "BusyPollConfig \<Rightarrow> busy_poller" where
  "BusyPoller config = \<lparr>bs_config = config, bs_running = False, bs_idle_count = 0\<rparr>"

section \<open>The polling loop\<close>

record poll_round =
  pr_stop :: bool
  pr_cancel :: bool
  pr_clock :: int
  pr_has_data :: bool
  pr_clock_polled :: int
  pr_clock_slept :: int

text \<open>
  The locals of \<^verbatim>\<open>start_with_control\<close>, with the number of calls of \<^verbatim>\<open>on_idle\<close>, of \<^verbatim>\<open>yield\<close> and the sleeps as
  what the loop does to its surroundings.
\<close>

record poll_locals =
  pl_poller :: busy_poller
  pl_start_time :: int
  pl_iterations :: u32
  pl_result :: BusyPollResult
  pl_idle_calls :: nat
  pl_yields :: nat
  pl_sleeps :: nat

definition duration_cast_ms :: "int \<Rightarrow> int" where
  "duration_cast_ms ns = ns div 1000000"

definition poll_idle :: "poll_round \<Rightarrow> poll_locals \<Rightarrow> poll_locals" where
  "poll_idle rd l =
     (let config = bs_config (pl_poller l);
          l = l\<lparr>pl_poller := (pl_poller l)\<lparr>bs_idle_count := bs_idle_count (pl_poller l) + 1\<rparr>,
                pl_iterations := pl_iterations l + 1\<rparr>;
          l = (if pl_iterations l \<ge> max_iterations config
               then l\<lparr>pl_yields := Suc (pl_yields l), pl_iterations := 0\<rparr> else l);
          elapsed = pr_clock_polled rd - pl_start_time l
      in if elapsed \<ge> max_idle_time config
         then l\<lparr>pl_idle_calls := Suc (pl_idle_calls l), pl_sleeps := Suc (pl_sleeps l), pl_start_time := pr_clock_slept rd\<rparr>
         else if poll_interval config > 0 then l\<lparr>pl_sleeps := Suc (pl_sleeps l)\<rparr> else l)"

definition poll_hit :: "poll_locals \<Rightarrow> poll_locals" where
  "poll_hit l = l\<lparr>pl_result := (pl_result l)\<lparr>bp_data_hits := bp_data_hits (pl_result l) + 1\<rparr>,
                  pl_poller := (pl_poller l)\<lparr>bs_idle_count := 0\<rparr>, pl_iterations := 0\<rparr>"

text \<open>The end of the loop: \<^verbatim>\<open>running_\<close> is false and the status is as given.\<close>

definition poll_end :: "BusyPollStatus \<Rightarrow> poll_locals \<Rightarrow> poll_locals" where
  "poll_end status l =
     (let l = l\<lparr>pl_poller := (pl_poller l)\<lparr>bs_running := False\<rparr>, pl_result := (pl_result l)\<lparr>bp_status := status\<rparr>\<rparr>
      in if bp_status (pl_result l) = PollCompleted \<and> \<not> bs_running (pl_poller l)
         then l\<lparr>pl_result := (pl_result l)\<lparr>bp_status := PollStopped\<rparr>\<rparr> else l)"

definition poll_step :: "BusyPollControl \<Rightarrow> poll_locals \<Rightarrow> poll_round \<Rightarrow> poll_locals + poll_locals" where
  "poll_step control l rd =
     (if pr_stop rd then Inl (poll_end PollCompleted l)
      else if bc_has_cancel control \<and> pr_cancel rd then Inl (poll_end PollCancelled l)
      else if bc_timeout control \<ge> 0 \<and> duration_cast_ms (pr_clock rd - pl_start_time l) \<ge> bc_timeout control
      then Inl (poll_end PollTimeout l)
      else
        let l = l\<lparr>pl_result := (pl_result l)\<lparr>bp_iterations := bp_iterations (pl_result l) + 1\<rparr>\<rparr>
        in Inr (if pr_has_data rd then poll_hit l else poll_idle rd l))"

definition poll_start :: "busy_poller \<Rightarrow> int \<Rightarrow> poll_locals" where
  "poll_start p start_time = \<lparr>pl_poller = p\<lparr>bs_running := True\<rparr>, pl_start_time = start_time, pl_iterations = 0,
     pl_result = \<lparr>bp_iterations = 0, bp_data_hits = 0, bp_status = PollCompleted\<rparr>,
     pl_idle_calls = 0, pl_yields = 0, pl_sleeps = 0\<rparr>"

definition start_with_control :: "BusyPollControl \<Rightarrow> busy_poller \<Rightarrow> int \<Rightarrow> poll_round list \<Rightarrow> poll_locals option" where
  "start_with_control control p start_time rounds = wait_run (poll_step control) (poll_start p start_time) rounds"

definition poller_start :: "busy_poller \<Rightarrow> int \<Rightarrow> poll_round list \<Rightarrow> poll_locals option" where
  "poller_start p start_time rounds = start_with_control BusyPollControl_default p start_time rounds"

definition poller_stop :: "busy_poller \<Rightarrow> busy_poller" where
  "poller_stop p = p\<lparr>bs_running := False\<rparr>"

definition adaptive_adjust :: "busy_poller \<Rightarrow> busy_poller" where
  "adaptive_adjust p =
     (let config = bs_config p; idle = bs_idle_count p
      in if \<not> adaptive config then p
         else if idle > 1000 then p\<lparr>bs_config := config\<lparr>poll_interval := min (poll_interval config * 2) 1000000\<rparr>\<rparr>
         else if idle < 100 then p\<lparr>bs_config := config\<lparr>poll_interval := max (poll_interval config div 2) 100\<rparr>\<rparr>
         else p)"

section \<open>Correctness\<close>

lemmas poll_simps = poll_step_def poll_hit_def poll_idle_def poll_end_def Let_def

text \<open>What one turn does to the counters and the clock.\<close>

lemma poll_turn:
  assumes "poll_step control l rd = Inr l'"
  shows "bp_iterations (pl_result l') = bp_iterations (pl_result l) + 1"
    and "bp_data_hits (pl_result l') = bp_data_hits (pl_result l) + of_nat (length (filter pr_has_data [rd]))"
    and "bs_config (pl_poller l') = bs_config (pl_poller l)"
    and "\<not> pr_stop rd" and "\<not> (bc_has_cancel control \<and> pr_cancel rd)"
    and "bs_idle_count (pl_poller l') = (if pr_has_data rd then 0 else bs_idle_count (pl_poller l) + 1)"
    and "pl_start_time l' = (if \<not> pr_has_data rd \<and> pr_clock_polled rd - pl_start_time l \<ge> max_idle_time (bs_config (pl_poller l))
           then pr_clock_slept rd else pl_start_time l)"
  using assms by (auto simp: poll_simps split: if_splits)

lemma poll_last:
  assumes "poll_step control l rd = Inl l'"
  shows "bp_iterations (pl_result l') = bp_iterations (pl_result l)"
    and "bp_data_hits (pl_result l') = bp_data_hits (pl_result l)"
    and "\<not> bs_running (pl_poller l')" and "bp_status (pl_result l') \<noteq> PollCompleted"
    and "bp_status (pl_result l') = PollStopped \<longleftrightarrow> pr_stop rd"
    and "bs_idle_count (pl_poller l') = bs_idle_count (pl_poller l)"
  using assms by (auto simp: poll_simps split: if_splits)

lemma poll_run_counts:
  assumes "wait_run (poll_step control) l rounds = Some l'"
  shows "\<exists>k < length rounds. bp_iterations (pl_result l') = bp_iterations (pl_result l) + of_nat k \<and>
    bp_data_hits (pl_result l') = bp_data_hits (pl_result l) + of_nat (length (filter pr_has_data (take k rounds))) \<and>
    (bp_status (pl_result l') = PollStopped \<longleftrightarrow> pr_stop (rounds ! k)) \<and>
    \<not> bs_running (pl_poller l') \<and> bp_status (pl_result l') \<noteq> PollCompleted"
  using assms
proof (induction rounds arbitrary: l)
  case (Cons rd rounds)
  show ?case
  proof (cases "poll_step control l rd")
    case (Inl l1)
    with Cons.prems have "l1 = l'" by simp
    with poll_last [OF Inl] show ?thesis by (intro exI [of _ 0]) simp
  next
    case (Inr l1)
    with Cons.prems Cons.IH [of l1] obtain k where k: "k < length rounds"
      "bp_iterations (pl_result l') = bp_iterations (pl_result l1) + of_nat k"
      "bp_data_hits (pl_result l') = bp_data_hits (pl_result l1) + of_nat (length (filter pr_has_data (take k rounds)))"
      "bp_status (pl_result l') = PollStopped \<longleftrightarrow> pr_stop (rounds ! k)"
      "\<not> bs_running (pl_poller l') \<and> bp_status (pl_result l') \<noteq> PollCompleted" by auto
    show ?thesis using k poll_turn [OF Inr] by (intro exI [of _ "Suc k"]) (auto simp: algebra_simps)
  qed
qed simp

text \<open>
  When \<^verbatim>\<open>start_with_control\<close> returns after \<open>k\<close> turns, it has counted exactly these \<open>k\<close> polls and the polls
  among them that found data; it reports \<^verbatim>\<open>Stopped\<close> exactly when \<^verbatim>\<open>stop\<close> ended it, never \<^verbatim>\<open>Completed\<close>, and the
  poller is no longer running.\<close>

theorem busy_poll_counts:
  assumes "start_with_control control p start_time rounds = Some l"
  shows "\<exists>k < length rounds. bp_iterations (pl_result l) = of_nat k \<and>
    bp_data_hits (pl_result l) = of_nat (length (filter pr_has_data (take k rounds))) \<and>
    (bp_status (pl_result l) = PollStopped \<longleftrightarrow> pr_stop (rounds ! k)) \<and>
    \<not> bs_running (pl_poller l) \<and> bp_status (pl_result l) \<noteq> PollCompleted"
  using poll_run_counts [OF assms [unfolded start_with_control_def]] by (simp add: poll_start_def)

definition busy_round :: "bool \<Rightarrow> bool \<Rightarrow> int \<Rightarrow> poll_round" where
  "busy_round stop has_data now = \<lparr>pr_stop = stop, pr_cancel = False, pr_clock = now, pr_has_data = has_data,
     pr_clock_polled = now, pr_clock_slept = now\<rparr>"

lemma busy_poll_sample:
  "\<exists>l. start_with_control BusyPollControl_default (BusyPoller BusyPollConfig_default) 0
     [busy_round False True 10, busy_round False False 20, busy_round True False 30] = Some l"
  by (simp add: start_with_control_def BusyPollControl_default_def busy_round_def poll_step_def)

theorem busy_poll_counts_witness:
  "\<exists>l. \<exists>k < 3. bp_iterations (pl_result l) = of_nat k \<and> \<not> bs_running (pl_poller l) \<and>
     start_with_control BusyPollControl_default (BusyPoller BusyPollConfig_default) 0
     [busy_round False True 10, busy_round False False 20, busy_round True False 30] = Some l"
proof -
  obtain l where l: "start_with_control BusyPollControl_default (BusyPoller BusyPollConfig_default) 0
     [busy_round False True 10, busy_round False False 20, busy_round True False 30] = Some l"
    using busy_poll_sample by blast
  from busy_poll_counts [OF l] l show ?thesis by (auto simp: numeral_3_eq_3)
qed

text \<open>
  The timeout is measured from \<open>pl_start_time\<close>. While no turn resets it, the loop ends as soon as the clock
  passes the timeout.
\<close>

lemma poll_times_out:
  assumes "0 \<le> bc_timeout control"
    and "\<forall>rd \<in> set rounds. pr_has_data rd \<or> pr_clock_polled rd - pl_start_time l < max_idle_time (bs_config (pl_poller l))"
    and "\<exists>rd \<in> set rounds. bc_timeout control \<le> duration_cast_ms (pr_clock rd - pl_start_time l)"
  shows "\<exists>l'. wait_run (poll_step control) l rounds = Some l'"
  using assms(2,3)
proof (induction rounds arbitrary: l)
  case (Cons rd rounds)
  show ?case
  proof (cases "poll_step control l rd")
    case (Inr l1)
    have "\<not> bc_timeout control \<le> duration_cast_ms (pr_clock rd - pl_start_time l)"
      using Inr assms(1) by (auto simp: poll_step_def split: if_splits)
    moreover have same: "bs_config (pl_poller l1) = bs_config (pl_poller l)" "pl_start_time l1 = pl_start_time l"
      using poll_turn(3,7) [OF Inr] Cons.prems(1) by auto
    ultimately have "\<exists>l'. wait_run (poll_step control) l1 rounds = Some l'"
      using Cons.prems by (intro Cons.IH) (simp_all add: same)
    with Inr show ?thesis by simp
  qed simp
qed simp

text \<open>
  \<^bold>\<open>C29\<close>. If data keeps coming, or the idle time never reaches \<^verbatim>\<open>max_idle_time\<close>, the loop returns once the clock
  has passed the timeout. But when an idle turn is as long as \<^verbatim>\<open>max_idle_time\<close> the time origin is reset, so a
  poller that sees no data for any number \<open>n\<close> of such turns is still polling, however small the timeout.\<close>

theorem busy_poll_timeout:
  assumes "0 < bc_timeout control"
  shows "((\<forall>rd \<in> set rounds. pr_has_data rd \<or> pr_clock_polled rd - start_time < max_idle_time (bs_config p)) \<and>
      (\<exists>rd \<in> set rounds. bc_timeout control \<le> duration_cast_ms (pr_clock rd - start_time)) \<longrightarrow>
      (\<exists>l. start_with_control control p start_time rounds = Some l)) \<and>
    (max_idle_time (bs_config p) \<le> d \<longrightarrow>
      start_with_control control p start_time
        (map (\<lambda>i. \<lparr>pr_stop = False, pr_cancel = False, pr_clock = start_time + int i * d, pr_has_data = False,
             pr_clock_polled = start_time + int (Suc i) * d, pr_clock_slept = start_time + int (Suc i) * d\<rparr>) [0..<n]) = None)"
proof (rule conjI; intro impI)
  assume "(\<forall>rd \<in> set rounds. pr_has_data rd \<or> pr_clock_polled rd - start_time < max_idle_time (bs_config p)) \<and>
      (\<exists>rd \<in> set rounds. bc_timeout control \<le> duration_cast_ms (pr_clock rd - start_time))"
  then show "\<exists>l. start_with_control control p start_time rounds = Some l"
    unfolding start_with_control_def using assms by (intro poll_times_out) (auto simp: poll_start_def)
next
  assume d: "max_idle_time (bs_config p) \<le> d"
  define rd where "rd i = \<lparr>pr_stop = False, pr_cancel = False, pr_clock = start_time + int i * d, pr_has_data = False,
      pr_clock_polled = start_time + int (Suc i) * d, pr_clock_slept = start_time + int (Suc i) * d\<rparr>" for i
  have "wait_run (poll_step control) l (map rd [k..<k + n]) = None"
    if "pl_start_time l = start_time + int k * d" "bs_config (pl_poller l) = bs_config p" for k l
    using that
  proof (induction n arbitrary: k l)
    case (Suc n)
    have "\<exists>l'. poll_step control l (rd k) = Inr l'"
      using Suc.prems(1) assms by (simp add: poll_step_def rd_def duration_cast_ms_def Let_def)
    then obtain l' where l': "poll_step control l (rd k) = Inr l'" ..
    have "pl_start_time l' = start_time + int (Suc k) * d"
      using poll_turn(7) [OF l'] Suc.prems d by (simp add: rd_def algebra_simps)
    moreover have "bs_config (pl_poller l') = bs_config p" using poll_turn(3) [OF l'] Suc.prems(2) by simp
    ultimately have "wait_run (poll_step control) l' (map rd [Suc k..<Suc k + n]) = None" by (rule Suc.IH)
    moreover have "[k..<k + Suc n] = k # [Suc k..<Suc k + n]" by (simp add: upt_rec)
    ultimately show ?case using l' by (simp del: upt_Suc)
  qed simp
  from this [of "poll_start p start_time" 0] show "start_with_control control p start_time
        (map (\<lambda>i. \<lparr>pr_stop = False, pr_cancel = False, pr_clock = start_time + int i * d, pr_has_data = False,
             pr_clock_polled = start_time + int (Suc i) * d, pr_clock_slept = start_time + int (Suc i) * d\<rparr>) [0..<n]) = None"
    by (simp add: start_with_control_def poll_start_def rd_def [abs_def])
qed

theorem busy_poll_timeout_witness:
  "start_with_control \<lparr>bc_timeout = 1, bc_has_cancel = False\<rparr> (BusyPoller BusyPollConfig_default) 0
     (map (\<lambda>i. \<lparr>pr_stop = False, pr_cancel = False, pr_clock = 0 + int i * 10000, pr_has_data = False,
        pr_clock_polled = 0 + int (Suc i) * 10000, pr_clock_slept = 0 + int (Suc i) * 10000\<rparr>) [0..<1000000]) = None"
  using busy_poll_timeout [of "\<lparr>bc_timeout = 1, bc_has_cancel = False\<rparr>" "[]" 0 "BusyPoller BusyPollConfig_default" 10000 1000000]
  by (simp add: BusyPoller_def BusyPollConfig_default_def del: upt_conv_Cons_Cons)

lemma adaptive_adjust_bounds:
  assumes "100 \<le> poll_interval (bs_config p)" and "poll_interval (bs_config p) \<le> 1000000"
  shows "100 \<le> poll_interval (bs_config (adaptive_adjust p))" and "poll_interval (bs_config (adaptive_adjust p)) \<le> 1000000"
  using assms by (auto simp: adaptive_adjust_def Let_def)

end
