(* ===== verification/Io_Status.thy ===== *)
theory Io_Status
  imports Batch_Io Epoll_Wrapper Io_Uring Busy_Poll
begin

text \<open>
  The status vocabulary shared by the I/O backends (\<^verbatim>\<open>io/io_status_types.hpp\<close>) and the conversions from
  each backend (\<^verbatim>\<open>io/io_status.hpp\<close>), with what the conversions promise to the loops of the applications.
\<close>

section \<open>Unified status\<close>

datatype UnifiedIOStatus =
  UnifiedOk | UnifiedTimeout | UnifiedCancelled | UnifiedWouldBlock | UnifiedNotInitialized | UnifiedStopped | UnifiedSysError

record UnifiedIOResult =
  un_count :: size_type
  un_error :: int
  un_status :: UnifiedIOStatus

definition UnifiedIOResult_success :: "UnifiedIOResult \<Rightarrow> bool" where
  "UnifiedIOResult_success r \<longleftrightarrow> un_status r \<noteq> UnifiedSysError \<and> un_status r \<noteq> UnifiedNotInitialized"

datatype LoopControl = ContinueWork | ContinueIdle | StopLoop

definition is_retryable_idle_status :: "UnifiedIOStatus \<Rightarrow> bool" where
  "is_retryable_idle_status status \<longleftrightarrow> status = UnifiedTimeout \<or> status = UnifiedWouldBlock"

definition is_terminal_error_status :: "UnifiedIOStatus \<Rightarrow> bool" where
  "is_terminal_error_status status \<longleftrightarrow> status = UnifiedSysError \<or> status = UnifiedNotInitialized"

definition should_continue_loop :: "UnifiedIOResult \<Rightarrow> bool" where
  "should_continue_loop result \<longleftrightarrow> un_status result = UnifiedOk \<or> is_retryable_idle_status (un_status result)"

definition classify_loop_control :: "UnifiedIOResult \<Rightarrow> LoopControl" where
  "classify_loop_control result =
     (if un_status result = UnifiedOk then ContinueWork
      else if is_retryable_idle_status (un_status result) then ContinueIdle
      else StopLoop)"

section \<open>Conversions\<close>

fun batch_to_unified_status :: "BatchIOStatus \<Rightarrow> UnifiedIOStatus" where
  "batch_to_unified_status BatchOk = UnifiedOk"
| "batch_to_unified_status BatchTimeout = UnifiedTimeout"
| "batch_to_unified_status BatchCancelled = UnifiedCancelled"
| "batch_to_unified_status BatchWouldBlock = UnifiedWouldBlock"
| "batch_to_unified_status BatchSysError = UnifiedSysError"

fun epoll_to_unified_status :: "EpollWaitStatus \<Rightarrow> UnifiedIOStatus" where
  "epoll_to_unified_status EpollOk = UnifiedOk"
| "epoll_to_unified_status EpollTimeout = UnifiedTimeout"
| "epoll_to_unified_status EpollCancelled = UnifiedCancelled"
| "epoll_to_unified_status EpollSysError = UnifiedSysError"

fun uring_to_unified_status :: "IoUringWaitStatus \<Rightarrow> UnifiedIOStatus" where
  "uring_to_unified_status UringOk = UnifiedOk"
| "uring_to_unified_status UringTimeout = UnifiedTimeout"
| "uring_to_unified_status UringCancelled = UnifiedCancelled"
| "uring_to_unified_status UringNotInitialized = UnifiedNotInitialized"
| "uring_to_unified_status UringSysError = UnifiedSysError"

fun poll_to_unified_status :: "BusyPollStatus \<Rightarrow> UnifiedIOStatus" where
  "poll_to_unified_status PollCompleted = UnifiedOk"
| "poll_to_unified_status PollTimeout = UnifiedTimeout"
| "poll_to_unified_status PollCancelled = UnifiedCancelled"
| "poll_to_unified_status PollStopped = UnifiedStopped"

definition batch_to_unified_result :: "BatchIOResult \<Rightarrow> UnifiedIOResult" where
  "batch_to_unified_result r =
     \<lparr>un_count = br_count r, un_error = br_error r, un_status = batch_to_unified_status (br_status r)\<rparr>"

definition epoll_to_unified_result :: "EpollWaitResult \<Rightarrow> UnifiedIOResult" where
  "epoll_to_unified_result r =
     \<lparr>un_count = of_int (if er_count r > 0 then er_count r else 0), un_error = er_error r,
      un_status = epoll_to_unified_status (er_status r)\<rparr>"

definition uring_to_unified_result :: "IoUringWaitResult \<Rightarrow> UnifiedIOResult" where
  "uring_to_unified_result r =
     \<lparr>un_count = of_int (if ur_count r > 0 then ur_count r else 0), un_error = ur_error r,
      un_status = uring_to_unified_status (ur_status r)\<rparr>"

definition poll_to_unified_result :: "BusyPollResult \<Rightarrow> UnifiedIOResult" where
  "poll_to_unified_result r =
     \<lparr>un_count = bp_data_hits r, un_error = 0, un_status = poll_to_unified_status (bp_status r)\<rparr>"

section \<open>Correctness\<close>

lemma should_continue_iff: "should_continue_loop r \<longleftrightarrow> classify_loop_control r \<noteq> StopLoop"
  by (simp add: should_continue_loop_def classify_loop_control_def)

lemma terminal_errors_stop: "is_terminal_error_status (un_status r) \<Longrightarrow> classify_loop_control r = StopLoop"
  by (auto simp: is_terminal_error_status_def classify_loop_control_def is_retryable_idle_status_def)

lemma classify_status [simp]:
  "classify_loop_control \<lparr>un_count = c, un_error = e, un_status = UnifiedOk\<rparr> = ContinueWork"
  "classify_loop_control \<lparr>un_count = c, un_error = e, un_status = UnifiedTimeout\<rparr> = ContinueIdle"
  "classify_loop_control \<lparr>un_count = c, un_error = e, un_status = UnifiedWouldBlock\<rparr> = ContinueIdle"
  "classify_loop_control \<lparr>un_count = c, un_error = e, un_status = UnifiedCancelled\<rparr> = StopLoop"
  "classify_loop_control \<lparr>un_count = c, un_error = e, un_status = UnifiedNotInitialized\<rparr> = StopLoop"
  "classify_loop_control \<lparr>un_count = c, un_error = e, un_status = UnifiedStopped\<rparr> = StopLoop"
  "classify_loop_control \<lparr>un_count = c, un_error = e, un_status = UnifiedSysError\<rparr> = StopLoop"
  by (simp_all add: classify_loop_control_def is_retryable_idle_status_def)

lemma wait_result_shape:
  assumes "wait_with_options options cancelled answers = Some (r, evs)"
  shows "er_status r = EpollOk \<longleftrightarrow> evs \<noteq> []" and "er_status r \<noteq> EpollSysError \<Longrightarrow> er_count r = int (length evs)"
    and "er_status r = EpollSysError \<Longrightarrow> er_count r = -1" and "er_status r = EpollCancelled \<Longrightarrow> eo_has_cancel options"
  using assms wait_run_result [of options "eo_timeout_ms options" answers r evs]
  by (auto simp: wait_with_options_def split: if_splits)

text \<open>
  A loop over \<^verbatim>\<open>EpollWrapper\<close> that follows \<^verbatim>\<open>classify_loop_control\<close> works exactly when it has events, and
  then knows their number; it stops on an error or a cancellation and otherwise goes round again. Over
  \<^verbatim>\<open>BusyPoller\<close> it never continues after the poller was stopped or cancelled, and never takes a finished
  poll run for work.\<close>

theorem io_status_loop_control:
  assumes "wait_with_options options cancelled answers = Some (r, evs)" and "length evs < 2 ^ 64"
    and "start_with_control control p start_time rounds = Some l"
  shows "(classify_loop_control (epoll_to_unified_result r) = ContinueWork \<longleftrightarrow> evs \<noteq> []) \<and>
    unat (un_count (epoll_to_unified_result r)) = length evs \<and>
    (classify_loop_control (epoll_to_unified_result r) = StopLoop \<longleftrightarrow>
       er_status r = EpollSysError \<or> er_status r = EpollCancelled) \<and>
    (classify_loop_control (poll_to_unified_result (pl_result l)) = ContinueIdle \<longleftrightarrow> bp_status (pl_result l) = PollTimeout) \<and>
    classify_loop_control (poll_to_unified_result (pl_result l)) \<noteq> ContinueWork"
proof -
  note shape = wait_result_shape [OF assms(1)]
  have none: "evs = []" if "er_status r = EpollSysError" using shape(1) that by auto
  have count: "unat (un_count (epoll_to_unified_result r)) = length evs"
  proof (cases "er_status r = EpollSysError")
    case True
    then show ?thesis using shape(3) none by (simp add: epoll_to_unified_result_def)
  next
    case False
    then have "un_count (epoll_to_unified_result r) = of_nat (length evs)"
      using shape(2) by (simp add: epoll_to_unified_result_def)
    then show ?thesis using assms(2) by (simp add: unat_of_nat_small)
  qed
  obtain k where "bp_status (pl_result l) \<noteq> PollCompleted"
    using poll_run_counts [OF assms(3) [unfolded start_with_control_def]] by blast
  then have poll: "(classify_loop_control (poll_to_unified_result (pl_result l)) = ContinueIdle \<longleftrightarrow> bp_status (pl_result l) = PollTimeout) \<and>
      classify_loop_control (poll_to_unified_result (pl_result l)) \<noteq> ContinueWork"
    by (cases "bp_status (pl_result l)") (simp_all add: poll_to_unified_result_def)
  have "(classify_loop_control (epoll_to_unified_result r) = ContinueWork \<longleftrightarrow> evs \<noteq> []) \<and>
    (classify_loop_control (epoll_to_unified_result r) = StopLoop \<longleftrightarrow>
       er_status r = EpollSysError \<or> er_status r = EpollCancelled)"
    using shape(1) none by (cases "er_status r") (simp_all add: epoll_to_unified_result_def)
  with count poll show ?thesis by simp
qed

theorem io_status_loop_control_witness:
  "\<exists>r l. wait_with_options EpollWaitOptions_default False [\<lparr>ea_result = Inr 9, ea_cancel = False\<rparr>] = Some (r, []) \<and>
     start_with_control BusyPollControl_default (BusyPoller BusyPollConfig_default) 0
     [busy_round False True 10, busy_round False False 20, busy_round True False 30] = Some l \<and>
     classify_loop_control (poll_to_unified_result (pl_result l)) \<noteq> ContinueWork \<and>
     unat (un_count (epoll_to_unified_result r)) = 0"
proof -
  obtain l where l: "start_with_control BusyPollControl_default (BusyPoller BusyPollConfig_default) 0
     [busy_round False True 10, busy_round False False 20, busy_round True False 30] = Some l"
    using busy_poll_sample by blast
  have w: "wait_with_options EpollWaitOptions_default False [\<lparr>ea_result = Inr 9, ea_cancel = False\<rparr>] =
      Some (\<lparr>er_count = -1, er_error = 9, er_status = EpollSysError\<rparr>, [])"
    by (simp add: wait_with_options_def EpollWaitOptions_default_def epoll_step_simps)
  from io_status_loop_control [OF w _ l] w l show ?thesis by simp
qed

end
