(* ===== verification/App_Messages.thy ===== *)
theory App_Messages
  imports Usn_Prelude "HOL-Library.AList"
begin

text \<open>
  The message structs of \<^verbatim>\<open>apps/messages.hpp\<close> and the sampling of \<^verbatim>\<open>core/tracing.hpp\<close>. The applications send the
  structs as they lie in memory, so each has its layout: little-endian fields at their natural alignment, with
  padding bytes whose value the source leaves open. An enumeration read from the wire can hold any byte.
\<close>

section \<open>Messages\<close>

datatype Side = Buy | Sell

fun Side_code :: "Side \<Rightarrow> u8" where
  "Side_code Buy = 1"
| "Side_code Sell = 2"

datatype OrderAction = New | Cancel | Replace

fun OrderAction_code :: "OrderAction \<Rightarrow> u8" where
  "OrderAction_code New = 1"
| "OrderAction_code Cancel = 2"
| "OrderAction_code Replace = 3"

record OrderRequest =
  or_client_order_id :: u64
  or_target_order_id :: u64
  or_instrument_id :: u32
  or_action :: u8
  or_side :: u8
  or_price :: u32
  or_quantity :: u32
  or_send_ts_ns :: u64

record OrderAck =
  oa_client_order_id :: u64
  oa_server_order_id :: u64
  oa_accepted :: bool

record MarketDataIncrement =
  md_seq :: u64
  md_stream_id :: u32
  md_instrument_id :: u32
  md_bid_price :: u32
  md_bid_qty :: u32
  md_ask_price :: u32
  md_ask_qty :: u32
  md_send_ts_ns :: u64

abbreviation (input) sizeof_OrderRequest :: nat where "sizeof_OrderRequest \<equiv> 40"
abbreviation (input) sizeof_OrderAck :: nat where "sizeof_OrderAck \<equiv> 24"
abbreviation (input) sizeof_MarketDataIncrement :: nat where "sizeof_MarketDataIncrement \<equiv> 40"

section \<open>Layout\<close>

definition OrderRequest_bytes :: "u16 \<Rightarrow> OrderRequest \<Rightarrow> u8 list" where
  "OrderRequest_bytes pad r =
     le_bytes 8 (or_client_order_id r) @ le_bytes 8 (or_target_order_id r) @ le_bytes 4 (or_instrument_id r) @
     [or_action r, or_side r] @ le_bytes 2 pad @ le_bytes 4 (or_price r) @ le_bytes 4 (or_quantity r) @
     le_bytes 8 (or_send_ts_ns r)"

definition OrderRequest_of_bytes :: "u8 list \<Rightarrow> OrderRequest" where
  "OrderRequest_of_bytes bs =
     \<lparr>or_client_order_id = of_le (take 8 bs), or_target_order_id = of_le (take 8 (drop 8 bs)),
      or_instrument_id = of_le (take 4 (drop 16 bs)), or_action = bs ! 20, or_side = bs ! 21,
      or_price = of_le (take 4 (drop 24 bs)), or_quantity = of_le (take 4 (drop 28 bs)),
      or_send_ts_ns = of_le (take 8 (drop 32 bs))\<rparr>"

definition OrderAck_bytes :: "56 word \<Rightarrow> OrderAck \<Rightarrow> u8 list" where
  "OrderAck_bytes pad a =
     le_bytes 8 (oa_client_order_id a) @ le_bytes 8 (oa_server_order_id a) @
     [if oa_accepted a then 1 else 0] @ le_bytes 7 pad"

definition OrderAck_of_bytes :: "u8 list \<Rightarrow> OrderAck" where
  "OrderAck_of_bytes bs =
     \<lparr>oa_client_order_id = of_le (take 8 bs), oa_server_order_id = of_le (take 8 (drop 8 bs)),
      oa_accepted = (bs ! 16 \<noteq> 0)\<rparr>"

definition MarketDataIncrement_bytes :: "MarketDataIncrement \<Rightarrow> u8 list" where
  "MarketDataIncrement_bytes d =
     le_bytes 8 (md_seq d) @ le_bytes 4 (md_stream_id d) @ le_bytes 4 (md_instrument_id d) @
     le_bytes 4 (md_bid_price d) @ le_bytes 4 (md_bid_qty d) @ le_bytes 4 (md_ask_price d) @
     le_bytes 4 (md_ask_qty d) @ le_bytes 8 (md_send_ts_ns d)"

definition MarketDataIncrement_of_bytes :: "u8 list \<Rightarrow> MarketDataIncrement" where
  "MarketDataIncrement_of_bytes bs =
     \<lparr>md_seq = of_le (take 8 bs), md_stream_id = of_le (take 4 (drop 8 bs)),
      md_instrument_id = of_le (take 4 (drop 12 bs)), md_bid_price = of_le (take 4 (drop 16 bs)),
      md_bid_qty = of_le (take 4 (drop 20 bs)), md_ask_price = of_le (take 4 (drop 24 bs)),
      md_ask_qty = of_le (take 4 (drop 28 bs)), md_send_ts_ns = of_le (take 8 (drop 32 bs))\<rparr>"

section \<open>Tracing\<close>

record TraceConfig =
  tc_enabled :: bool
  tc_sample_every :: u32

record Tracer =
  tr_config :: TraceConfig
  tr_counter :: u64

definition mk_Tracer :: "TraceConfig \<Rightarrow> Tracer" where
  "mk_Tracer config = \<lparr>tr_config = config, tr_counter = 0\<rparr>"

definition should_emit :: "Tracer \<Rightarrow> bool \<times> Tracer" where
  "should_emit t =
     (let t = t\<lparr>tr_counter := tr_counter t + 1\<rparr>
      in if \<not> tc_enabled (tr_config t) then (False, t)
         else if tc_sample_every (tr_config t) = 0 then (False, t)
         else (tr_counter t mod ucast (tc_sample_every (tr_config t)) = 0, t))"

section \<open>Correctness\<close>

lemma length_OrderRequest_bytes [simp]: "length (OrderRequest_bytes pad r) = sizeof_OrderRequest"
  by (simp add: OrderRequest_bytes_def)

lemma length_OrderAck_bytes [simp]: "length (OrderAck_bytes pad a) = sizeof_OrderAck"
  by (simp add: OrderAck_bytes_def)

lemma length_MarketDataIncrement_bytes [simp]: "length (MarketDataIncrement_bytes d) = sizeof_MarketDataIncrement"
  by (simp add: MarketDataIncrement_bytes_def)

text \<open>Each message survives the trip over the wire, whatever the padding holds.\<close>

lemma OrderRequest_roundtrip [simp]: "OrderRequest_of_bytes (OrderRequest_bytes pad r) = r"
  by (simp add: OrderRequest_of_bytes_def OrderRequest_bytes_def nth_append)

lemma OrderAck_roundtrip [simp]: "OrderAck_of_bytes (OrderAck_bytes pad a) = a"
  by (simp add: OrderAck_of_bytes_def OrderAck_bytes_def nth_append)

lemma MarketDataIncrement_roundtrip [simp]: "MarketDataIncrement_of_bytes (MarketDataIncrement_bytes d) = d"
  by (simp add: MarketDataIncrement_of_bytes_def MarketDataIncrement_bytes_def)

lemma OrderRequest_of_longer [simp]: "40 \<le> length bs \<Longrightarrow> OrderRequest_of_bytes (take 40 bs) = OrderRequest_of_bytes bs"
  by (simp add: OrderRequest_of_bytes_def drop_take min_def)

text \<open>Of \<open>n\<close> calls exactly every \<^verbatim>\<open>sample_every\<close>-th emits.\<close>

fun emit_run :: "nat \<Rightarrow> Tracer \<Rightarrow> nat \<times> Tracer" where
  "emit_run 0 t = (0, t)"
| "emit_run (Suc n) t = (let (k, t) = emit_run n t; (e, t) = should_emit t in ((if e then Suc k else k), t))"

lemma tracer_samples:
  assumes "0 < unat k" and "n < 2 ^ 64"
  shows "emit_run n (mk_Tracer \<lparr>tc_enabled = True, tc_sample_every = k\<rparr>) =
    (n div unat k, \<lparr>tr_config = \<lparr>tc_enabled = True, tc_sample_every = k\<rparr>, tr_counter = of_nat n\<rparr>)"
  using assms(2)
proof (induction n)
  case (Suc n)
  have k: "unat (ucast k :: u64) = unat k" by (rule unat_ucast_up) simp
  have "((of_nat (Suc n) :: u64) mod ucast k = 0) \<longleftrightarrow> Suc n mod unat k = 0"
  proof -
    have "unat ((of_nat (Suc n) :: u64) mod ucast k) = Suc n mod unat k"
      using Suc.prems k by (simp add: unat_mod_distrib unat_of_nat_small del: of_nat_Suc)
    then show ?thesis by (metis unsigned_0 unsigned_eq_0_iff)
  qed
  with Suc assms(1) show ?case by (simp add: should_emit_def Let_def div_Suc unsigned_eq_0_iff add.commute)
qed (simp add: mk_Tracer_def)

text \<open>The association lists of the applications.\<close>

lemma set_update_subset: "set (AList.update k v al) \<subseteq> insert (k, v) (set al)"
  by (induction al) auto

end
