(* ===== verification/Order_Gateway.thy ===== *)
theory Order_Gateway
  imports App_Messages Zero_Copy Packet_Ring Tcp_State_Machine Tcp_Reassembly Io_Status "HOL-Library.AList"
begin

text \<open>
  The order gateway \<^verbatim>\<open>apps/order_tcp/order_gateway.cpp\<close>: a single-threaded loop that accepts connections, reads
  frames into a ring and answers each order request with an acknowledgement built in a block of the mapped pool.

  What the kernel answers is an argument: the results of \<^verbatim>\<open>write\<close> in order, whether the configured drop time has
  passed at each popped packet, and for each event the outcome of \<^verbatim>\<open>accept4\<close> or \<^verbatim>\<open>read\<close>. The addresses of the two
  local buffers are arguments too: \<^verbatim>\<open>buf\<close>, which lives in the scope of one event in the source and whose storage
  the ring's descriptors still point to afterwards, and the local \<^verbatim>\<open>ack\<close>. Metrics are printed only and left out.
\<close>

section \<open>State\<close>

record ConnectionContext =
  cx_tcp :: TcpConnection
  cx_reassembly :: reassembly_buffer

datatype gw_output = Wrote int "u8 list" | Dropped int

record gateway_env =
  ge_buf :: ptr
  ge_ack :: ptr
  ge_pad :: "56 word"
  ge_write :: "nat \<Rightarrow> int"
  ge_drop :: "nat \<Rightarrow> bool"
  ge_backpressure :: int

text \<open>
  \<open>gw_out\<close> lists what was written and which connections were removed and closed, \<open>gw_writes\<close> and \<open>gw_popped\<close> count
  the calls that the environment answers, and \<open>gw_handled\<close> records the order payloads processed.
\<close>

record gateway =
  gw_conns :: "(int \<times> ConnectionContext) list"
  gw_pool :: zc_pool
  gw_live :: "u64 set"
  gw_mem :: mem
  gw_tracer :: Tracer
  gw_req_recv_total :: u64
  gw_ack_sent_total :: u64
  gw_reject_total :: u64
  gw_backpressure_hits :: u64
  gw_reorder_buffered_total :: u64
  gw_reorder_replayed_total :: u64
  gw_reorder_hole_events :: u64
  gw_reorder_hole_peak :: u64
  gw_reorder_hole_bytes_peak :: u64
  gw_accept_failures :: u64
  gw_unexpected_disconnects :: u64
  gw_keepalive_recv_total :: u64
  gw_active_conn_peak :: size_type
  gw_out :: "gw_output list"
  gw_writes :: nat
  gw_popped :: nat
  gw_handled :: "(int \<times> u8 list) list"

section \<open>Processing an order\<close>

text \<open>The live orders and whether a request is accepted.\<close>

definition apply_order :: "OrderRequest \<Rightarrow> u64 set \<Rightarrow> bool \<times> u64 set" where
  "apply_order req live =
     (if or_action req = OrderAction_code New then (True, insert (or_client_order_id req) live)
      else if or_action req = OrderAction_code Cancel
        then (or_target_order_id req \<in> live, live - {or_target_order_id req})
      else if or_action req = OrderAction_code Replace then (or_target_order_id req \<in> live, live)
      else (True, live))"

text \<open>
  Sending a frame: take a block, build the frame in it, write it, give the block back. A null block would be written
  through: undefined.
\<close>

definition gw_send ::
    "gateway_env \<Rightarrow> int \<Rightarrow> (ptr \<Rightarrow> mem \<Rightarrow> Packet \<times> mem) \<Rightarrow> gateway \<Rightarrow> (Packet \<times> int \<times> gateway) option" where
  "gw_send env fd build g =
     (case zp_allocate (gw_pool g) of
        None \<Rightarrow> None
      | Some (block, pool) \<Rightarrow>
          if block = nullptr then None
          else
            let (pkt, m) = build block (gw_mem g); nw = ge_write env (gw_writes g)
            in case zp_deallocate (pkt_data pkt) pool of
                 None \<Rightarrow> None
               | Some pool \<Rightarrow> Some (pkt, nw, g\<lparr>gw_pool := pool, gw_mem := m,
                   gw_out := gw_out g @ [Wrote fd (pkt_bytes m pkt)], gw_writes := Suc (gw_writes g)\<rparr>))"

text \<open>Counting and applying a request; the answer to it.\<close>

definition gw_account :: "gateway_env \<Rightarrow> int \<Rightarrow> size_type \<Rightarrow> u8 list \<Rightarrow> gateway \<Rightarrow> OrderAck \<times> gateway" where
  "gw_account env fd ring_len payload g =
     (let req = OrderRequest_of_bytes (take sizeof_OrderRequest payload);
          g = g\<lparr>gw_req_recv_total := gw_req_recv_total g + 1, gw_handled := gw_handled g @ [(fd, payload)]\<rparr>;
          (accepted, live) = apply_order req (gw_live g);
          g = g\<lparr>gw_live := live\<rparr>;
          g = (if \<not> accepted then g\<lparr>gw_reject_total := gw_reject_total g + 1\<rparr> else g);
          g = (if ge_backpressure env > 0 \<and> sint (ucast ring_len :: 32 word) \<ge> ge_backpressure env
               then g\<lparr>gw_backpressure_hits := gw_backpressure_hits g + 1\<rparr> else g)
      in (\<lparr>oa_client_order_id = or_client_order_id req, oa_server_order_id = or_client_order_id req + 1000000,
           oa_accepted = accepted\<rparr>, g))"

definition process_order_payload ::
    "gateway_env \<Rightarrow> int \<Rightarrow> size_type \<Rightarrow> u8 list \<Rightarrow> ConnectionContext \<Rightarrow> gateway \<Rightarrow> (ConnectionContext \<times> gateway) option" where
  "process_order_payload env fd ring_len payload ctx g =
     (if length payload < sizeof_OrderRequest then Some (ctx, g)
      else
        let tcp = (cx_tcp ctx)\<lparr>recv_seq := recv_seq (cx_tcp ctx) + of_nat (length payload)\<rparr>;
            (ack, g) = gw_account env fd ring_len payload g
        in case gw_send env fd (\<lambda>block m.
                  create_data tcp (ge_ack env) 24 block (mem_write m (ge_ack env) (OrderAck_bytes (ge_pad env) ack))) g of
             None \<Rightarrow> None
           | Some (pkt, nw, g) \<Rightarrow>
               Some (ctx\<lparr>cx_tcp := tcp\<rparr>,
                 if nw \<noteq> int (unat (pkt_len pkt))
                 then g\<lparr>gw_unexpected_disconnects := gw_unexpected_disconnects g + 1\<rparr>
                 else g\<lparr>gw_ack_sent_total := gw_ack_sent_total g + 1, gw_tracer := snd (should_emit (gw_tracer g))\<rparr>))"

section \<open>Processing a packet\<close>

definition gw_drop :: "int \<Rightarrow> gateway \<Rightarrow> gateway" where
  "gw_drop fd g = g\<lparr>gw_conns := AList.delete fd (gw_conns g), gw_out := gw_out g @ [Dropped fd]\<rparr>"

definition gw_store :: "int \<Rightarrow> ConnectionContext \<Rightarrow> gateway \<Rightarrow> gateway" where
  "gw_store fd ctx g = g\<lparr>gw_conns := AList.update fd ctx (gw_conns g)\<rparr>"

text \<open>The control path: segments without payload that carry FIN or ACK.\<close>

definition gw_close_reply :: "gateway_env \<Rightarrow> int \<Rightarrow> TcpConnection \<Rightarrow> gateway \<Rightarrow> (TcpConnection \<times> gateway) option" where
  "gw_close_reply env fd conn g =
     (case gw_send env fd (create_ack conn (send_ack conn)) g of
        None \<Rightarrow> None
      | Some (_, _, g) \<Rightarrow>
          if conn_state conn = CLOSE_WAIT then
            let (ok, conn) = initiate_close conn
            in if ok then
                 case gw_send env fd (create_fin conn) g of
                   None \<Rightarrow> None
                 | Some (_, _, g) \<Rightarrow> Some (conn\<lparr>send_seq := send_seq conn + 1\<rparr>, g)
               else Some (conn, g)
          else Some (conn, g))"

definition gw_control ::
    "gateway_env \<Rightarrow> int \<Rightarrow> TcpHeader \<Rightarrow> size_type \<Rightarrow> ConnectionContext \<Rightarrow> gateway \<Rightarrow> gateway option" where
  "gw_control env fd h len ctx g =
     (let conn = snd (handle_incoming (cx_tcp ctx) h len);
          g = (if has_ack h \<and> \<not> has_fin h then g\<lparr>gw_keepalive_recv_total := gw_keepalive_recv_total g + 1\<rparr> else g)
      in case (if has_fin h then gw_close_reply env fd conn g else Some (conn, g)) of
           None \<Rightarrow> None
         | Some (conn, g) \<Rightarrow>
             let g = gw_store fd (ctx\<lparr>cx_tcp := conn\<rparr>) g
             in Some (if conn_state conn = CLOSED then gw_drop fd g else g))"

text \<open>The replay of buffered segments, and the data path.\<close>

fun gw_replay ::
    "gateway_env \<Rightarrow> int \<Rightarrow> size_type \<Rightarrow> TcpBufferedSegment list \<Rightarrow> ConnectionContext \<Rightarrow> gateway \<Rightarrow>
     (ConnectionContext \<times> gateway) option" where
  "gw_replay env fd ring_len [] ctx g = Some (ctx, g)"
| "gw_replay env fd ring_len (seg # segs) ctx g =
     (case process_order_payload env fd ring_len (seg_data seg) ctx g of
        None \<Rightarrow> None
      | Some (ctx, g) \<Rightarrow> gw_replay env fd ring_len segs ctx g)"

definition gw_buffer :: "u32 \<Rightarrow> ptr \<Rightarrow> size_type \<Rightarrow> ConnectionContext \<Rightarrow> gateway \<Rightarrow> ConnectionContext \<times> gateway" where
  "gw_buffer seq payload len ctx g =
     (let (ok, b) = reassembly_insert (gw_mem g) seq payload len (cx_reassembly ctx);
          ctx = ctx\<lparr>cx_reassembly := b\<rparr>
      in if ok then
           let g = g\<lparr>gw_reorder_buffered_total := gw_reorder_buffered_total g + 1\<rparr>;
               holes = hole_count (recv_seq (cx_tcp ctx)) b;
               hole_bytes = total_hole_bytes (recv_seq (cx_tcp ctx)) b;
               g = (if holes > 0 then g\<lparr>gw_reorder_hole_events := gw_reorder_hole_events g + 1\<rparr> else g)
           in (ctx, g\<lparr>gw_reorder_hole_peak := max (gw_reorder_hole_peak g) holes,
                      gw_reorder_hole_bytes_peak := max (gw_reorder_hole_bytes_peak g) (ucast hole_bytes)\<rparr>)
         else (ctx, g))"

definition gw_data ::
    "gateway_env \<Rightarrow> int \<Rightarrow> size_type \<Rightarrow> u32 \<Rightarrow> ptr \<Rightarrow> size_type \<Rightarrow> ConnectionContext \<Rightarrow> gateway \<Rightarrow>
     (ConnectionContext \<times> gateway) option" where
  "gw_data env fd ring_len seq payload len ctx g =
     (if len > 0 \<and> seq \<noteq> recv_seq (cx_tcp ctx) then Some (gw_buffer seq payload len ctx g)
      else
        case process_order_payload env fd ring_len (mem_read (gw_mem g) payload (unat len)) ctx g of
          None \<Rightarrow> None
        | Some (ctx, g) \<Rightarrow>
            let (replayed, segs, b) = pop_contiguous (recv_seq (cx_tcp ctx)) (cx_reassembly ctx);
                ctx = ctx\<lparr>cx_reassembly := b\<rparr>
            in if replayed > 0
               then gw_replay env fd ring_len segs ctx (g\<lparr>gw_reorder_replayed_total := gw_reorder_replayed_total g + replayed\<rparr>)
               else Some (ctx, g))"

definition gw_packet :: "gateway_env \<Rightarrow> size_type \<Rightarrow> Packet \<Rightarrow> gateway \<Rightarrow> gateway option" where
  "gw_packet env ring_len pkt g =
     (let fd = uint (pkt_port pkt); drop = ge_drop env (gw_popped g); g = g\<lparr>gw_popped := Suc (gw_popped g)\<rparr>
      in if drop then Some (gw_drop fd g)
         else
           case map_of (gw_conns g) fd of
             None \<Rightarrow> Some g
           | Some ctx \<Rightarrow>
               (case parse (gw_mem g) pkt of
                  None \<Rightarrow> Some g
                | Some (h, payload, len) \<Rightarrow>
                    if is_malformed_header h then Some g
                    else if len = 0 \<and> (has_fin h \<or> has_ack h) then gw_control env fd h len ctx g
                    else
                      case gw_data env fd ring_len (th_seq_num h) payload len ctx g of
                        None \<Rightarrow> None
                      | Some (ctx, g) \<Rightarrow> Some (gw_store fd ctx g)))"

function gw_drain :: "gateway_env \<Rightarrow> packet_ring \<Rightarrow> gateway \<Rightarrow> (packet_ring \<times> gateway) option" where
  "gw_drain env ring g =
     (case ring_try_pop ring of
        (None, ring) \<Rightarrow> Some (ring, g)
      | (Some pkt, ring) \<Rightarrow>
          (case gw_packet env (ring_size ring) pkt g of
             None \<Rightarrow> None
           | Some g \<Rightarrow> gw_drain env ring g))"
  by pat_completeness auto
termination
  by (relation "measure (\<lambda>(_, r, _). unat (write_pos r) - unat (read_pos r))") (auto dest: ring_try_pop_less [OF sym])

section \<open>Events\<close>

text \<open>The outcome of \<^verbatim>\<open>accept4\<close> (with the result of adding the descriptor to epoll) and of \<^verbatim>\<open>read\<close>.\<close>

datatype gw_accept = AcceptFailed | Accepted int u16 bool

datatype gw_read = ReadBytes "u8 list" | ReadError int

definition gw_new_connection :: "u16 \<Rightarrow> ConnectionContext" where
  "gw_new_connection sin_port =
     \<lparr>cx_tcp = TcpConnection_default\<lparr>local_ip := htonl 0x7F000001, remote_ip := htonl 0x7F000001, local_port := 9000,
        remote_port := ntohs sin_port, recv_seq := 1, send_seq := 1\<rparr>,
      cx_reassembly = reassembly_empty\<rparr>"

definition gw_on_accept :: "gw_accept \<Rightarrow> gateway \<Rightarrow> gateway" where
  "gw_on_accept outcome g =
     (case outcome of
        AcceptFailed \<Rightarrow> g\<lparr>gw_accept_failures := gw_accept_failures g + 1\<rparr>
      | Accepted conn_fd sin_port added \<Rightarrow>
          if \<not> added then g\<lparr>gw_out := gw_out g @ [Dropped conn_fd]\<rparr>
          else
            let conns = (if map_of (gw_conns g) conn_fd = None
                         then gw_conns g @ [(conn_fd, gw_new_connection sin_port)] else gw_conns g)
            in g\<lparr>gw_conns := conns, gw_active_conn_peak := max (gw_active_conn_peak g) (of_nat (length conns))\<rparr>)"

definition gw_on_read :: "gateway_env \<Rightarrow> int \<Rightarrow> gw_read \<Rightarrow> packet_ring \<times> gateway \<Rightarrow> packet_ring \<times> gateway" where
  "gw_on_read env fd outcome = (\<lambda>(ring, g).
     let g = g\<lparr>gw_mem := mem_write (gw_mem g) (ge_buf env) (replicate 2048 0)\<rparr>;
         closed = gw_drop fd (g\<lparr>gw_unexpected_disconnects := gw_unexpected_disconnects g + 1\<rparr>)
     in case outcome of
          ReadError errno \<Rightarrow> if errno \<noteq> EAGAIN \<and> errno \<noteq> EWOULDBLOCK then (ring, closed) else (ring, g)
        | ReadBytes bs \<Rightarrow>
            if bs = [] then (ring, closed)
            else
              let g = g\<lparr>gw_mem := mem_write (gw_mem g) (ge_buf env) bs\<rparr>;
                  pkt = (mk_Packet (ge_buf env) (of_nat (length bs)) 0)\<lparr>pkt_port := of_int fd\<rparr>
              in (snd (ring_try_push pkt ring), g))"

text \<open>
  One turn of the main loop after \<^verbatim>\<open>epoll\<close> reported events: all of them first, then the ring. \<open>acc\<close> and \<open>rd\<close> give the
  outcomes for the \<open>i\<close>-th event.
\<close>

fun gw_events ::
    "gateway_env \<Rightarrow> 32 word \<Rightarrow> (nat \<Rightarrow> gw_accept) \<Rightarrow> (nat \<Rightarrow> gw_read) \<Rightarrow> nat \<Rightarrow> epoll_event list \<Rightarrow>
     packet_ring \<times> gateway \<Rightarrow> packet_ring \<times> gateway" where
  "gw_events env listen_fd acc rd i [] s = s"
| "gw_events env listen_fd acc rd i (ev # evs) (ring, g) =
     (let fd = data_fd (ev_data ev);
          s = (if fd = listen_fd then (ring, gw_on_accept (acc i) g) else gw_on_read env (sint fd) (rd i) (ring, g))
      in gw_events env listen_fd acc rd (Suc i) evs s)"

record gw_round =
  gr_answers :: "epoll_answer list"
  gr_accept :: "nat \<Rightarrow> gw_accept"
  gr_read :: "nat \<Rightarrow> gw_read"

datatype gw_outcome = GwUndefined | GwEnded "packet_ring \<times> gateway" | GwRunning "packet_ring \<times> gateway"

fun gateway_main :: "gateway_env \<Rightarrow> 32 word \<Rightarrow> gw_round list \<Rightarrow> packet_ring \<times> gateway \<Rightarrow> gw_outcome" where
  "gateway_main env listen_fd [] s = GwRunning s"
| "gateway_main env listen_fd (round # rounds) s =
     (case wait_with_options (EpollWaitOptions_default\<lparr>eo_timeout_ms := -1\<rparr>) False (gr_answers round) of
        None \<Rightarrow> GwRunning s
      | Some (wait_result, evs) \<Rightarrow>
          let io_result = epoll_to_unified_result wait_result
          in if un_status io_result = UnifiedSysError then GwEnded s
             else if un_status io_result = UnifiedCancelled then GwEnded s
             else if classify_loop_control io_result \<noteq> ContinueWork then gateway_main env listen_fd rounds s
             else
               let (ring, g) = gw_events env listen_fd (gr_accept round) (gr_read round) 0 evs s
               in case gw_drain env ring g of
                    None \<Rightarrow> GwUndefined
                  | Some s \<Rightarrow> gateway_main env listen_fd rounds s)"

text \<open>The state before the loop: a pool of 128 blocks of 36 bytes, of which one is taken and never given back.\<close>

definition gateway_init :: "(size_type \<Rightarrow> bool \<Rightarrow> ptr option) \<Rightarrow> int \<Rightarrow> mem \<Rightarrow> (packet_ring \<times> gateway) option" where
  "gateway_init mmap trace_every m =
     (case ZeroCopyMemoryPool mmap (20 + 16) 128 False of
        ZcPool pool \<Rightarrow>
          (case zp_allocate pool of
             None \<Rightarrow> None
           | Some (_, pool) \<Rightarrow>
               (case zp_allocate pool of
                  None \<Rightarrow> None
                | Some (b, pool) \<Rightarrow>
                    (case zp_deallocate b pool of
                       None \<Rightarrow> None
                     | Some pool \<Rightarrow>
                         Some (PacketRing 64,
                           \<lparr>gw_conns = [], gw_pool = pool, gw_live = {}, gw_mem = m,
                            gw_tracer = mk_Tracer \<lparr>tc_enabled = trace_every > 0, tc_sample_every = of_int (max 1 trace_every)\<rparr>,
                            gw_req_recv_total = 0, gw_ack_sent_total = 0, gw_reject_total = 0, gw_backpressure_hits = 0,
                            gw_reorder_buffered_total = 0, gw_reorder_replayed_total = 0, gw_reorder_hole_events = 0,
                            gw_reorder_hole_peak = 0, gw_reorder_hole_bytes_peak = 0, gw_accept_failures = 0,
                            gw_unexpected_disconnects = 0, gw_keepalive_recv_total = 0, gw_active_conn_peak = 0,
                            gw_out = [], gw_writes = 0, gw_popped = 0, gw_handled = []\<rparr>))))
      | _ \<Rightarrow> None)"

section \<open>Sending and answering\<close>

declare gw_drain.simps [simp del]

text \<open>
  The gateway can answer: its pool has the free block \<open>b\<close> next, and the local \<^verbatim>\<open>ack\<close> does not overlap the 44 bytes
  written there.
\<close>

definition gw_ready :: "gateway_env \<Rightarrow> ptr \<Rightarrow> gateway \<Rightarrow> bool" where
  "gw_ready env b g \<longleftrightarrow> (\<exists>free live. zp_inv (gw_pool g) (b # free) live) \<and>
     (ge_ack env + 24 \<le> b \<or> b + 44 \<le> ge_ack env)"

lemma zp_block_size_kept:
  "zp_allocate z = Some (b, z') \<Longrightarrow> zp_block_size z' = zp_block_size z"
  "zp_deallocate b z = Some z' \<Longrightarrow> zp_block_size z' = zp_block_size z"
  by (auto simp: zp_allocate_def zp_deallocate_def Let_def split: if_splits)

lemma gw_send_ok:
  assumes "gw_ready env b g" and "build b (gw_mem g) = (pkt, m)" and "pkt_data pkt = b"
  obtains pool where "gw_send env fd build g = Some (pkt, ge_write env (gw_writes g), g\<lparr>gw_pool := pool, gw_mem := m,
      gw_out := gw_out g @ [Wrote fd (pkt_bytes m pkt)], gw_writes := Suc (gw_writes g)\<rparr>)"
    "gw_ready env b (g\<lparr>gw_pool := pool\<rparr>)" "zp_block_size pool = zp_block_size (gw_pool g)"
proof -
  from assms(1) obtain free live where inv: "zp_inv (gw_pool g) (b # free) live" by (auto simp: gw_ready_def)
  obtain p' p'' where p: "zp_allocate (gw_pool g) = Some (b, p')" "zp_deallocate b p' = Some p''"
      "zp_inv p'' (b # free) live" "b \<noteq> nullptr"
    by (rule zpool.borrow [OF inv])
  have "zp_block_size p'' = zp_block_size (gw_pool g)" using zp_block_size_kept p(1,2) by metis
  with p assms show ?thesis by (intro that [of p'']) (auto simp: gw_send_def gw_ready_def)
qed

lemma gw_ready_cong: "gw_pool g' = gw_pool g \<Longrightarrow> gw_ready env b g' = gw_ready env b g"
  by (simp add: gw_ready_def)

text \<open>The frame that acknowledges a request.\<close>

definition ack_frame :: "gateway_env \<Rightarrow> TcpConnection \<Rightarrow> OrderAck \<Rightarrow> u8 list" where
  "ack_frame env tcp ack = sealed_bytes (segment_header (local_port tcp) (remote_port tcp) (send_seq tcp) (recv_seq tcp)
     24 (window_size tcp)) (OrderAck_bytes (ge_pad env) ack) (local_ip tcp) (remote_ip tcp)"

definition order_ack :: "OrderRequest \<Rightarrow> bool \<Rightarrow> OrderAck" where
  "order_ack req accepted = \<lparr>oa_client_order_id = or_client_order_id req,
     oa_server_order_id = or_client_order_id req + 1000000, oa_accepted = accepted\<rparr>"

lemma create_ack_frame:
  assumes "ge_ack env + 24 \<le> b \<or> b + 44 \<le> ge_ack env"
    and "create_data tcp (ge_ack env) 24 b (mem_write m (ge_ack env) (OrderAck_bytes (ge_pad env) ack)) = (pkt, m')"
  shows "pkt = mk_Packet b 44 0" and "pkt_bytes m' pkt = ack_frame env tcp ack"
proof -
  have dis: "unat (24 :: size_type) + 20 < 2 ^ 64" "ge_ack env + unat (24 :: size_type) \<le> b \<or> b + 20 \<le> ge_ack env"
    using assms(1) by auto
  from create_data_seal [OF dis] assms(2) have c: "pkt = mk_Packet b 44 0"
    "m' = seal_segment b (segment_header (local_port tcp) (remote_port tcp) (send_seq tcp) (recv_seq tcp) 24 (window_size tcp))
      (OrderAck_bytes (ge_pad env) ack) (local_ip tcp) (remote_ip tcp) (mem_write m (ge_ack env) (OrderAck_bytes (ge_pad env) ack))"
    by auto
  then show "pkt = mk_Packet b 44 0" by simp
  show "pkt_bytes m' pkt = ack_frame env tcp ack"
    using seal_bytes [where ps = "OrderAck_bytes (ge_pad env) ack" and buffer = b]
    by (simp add: c pkt_bytes_def ack_frame_def)
qed

lemma create_ack_mem:
  assumes "ge_ack env + 24 \<le> b \<or> b + 44 \<le> ge_ack env"
    and "create_data tcp (ge_ack env) 24 b (mem_write m (ge_ack env) (OrderAck_bytes (ge_pad env) ack)) = (pkt, m')"
    and "q + k \<le> b \<or> b + 44 \<le> q" and "q + k \<le> ge_ack env \<or> ge_ack env + 24 \<le> q"
  shows "mem_read m' q k = mem_read m q k"
proof -
  have dis: "unat (24 :: size_type) + 20 < 2 ^ 64" "ge_ack env + unat (24 :: size_type) \<le> b \<or> b + 20 \<le> ge_ack env"
    using assms(1) by auto
  from create_data_seal [OF dis] assms(2) obtain h where
    "m' = seal_segment b h (OrderAck_bytes (ge_pad env) ack) (local_ip tcp) (remote_ip tcp) (mem_write m (ge_ack env) (OrderAck_bytes (ge_pad env) ack))"
    by auto
  moreover have "q + i < b \<or> b + 20 + length (OrderAck_bytes (ge_pad env) ack) \<le> q + i"
    "q + i < ge_ack env \<or> ge_ack env + length (OrderAck_bytes (ge_pad env) ack) \<le> q + i" if "i < k" for i
    using that assms(3,4) by auto
  ultimately have "m' (q + i) = m (q + i)" if "i < k" for i
    using that by (simp only: seal_frame mem_write_outside)
  then show ?thesis by (auto intro: nth_equalityI)
qed

lemma gw_account_spec:
  assumes "40 \<le> length payload" and "apply_order (OrderRequest_of_bytes payload) (gw_live g) = (accepted, live)"
    and "gw_account env fd n payload g = (ack, g')"
  shows "ack = order_ack (OrderRequest_of_bytes payload) accepted" and "gw_live g' = live"
    and "gw_handled g' = gw_handled g @ [(fd, payload)]" and "gw_pool g' = gw_pool g" and "gw_conns g' = gw_conns g"
    and "gw_popped g' = gw_popped g" and "gw_out g' = gw_out g" and "gw_mem g' = gw_mem g"
  using assms by (auto simp: gw_account_def order_ack_def Let_def split: if_splits)

lemma process_ok:
  assumes "gw_ready env b g" and "40 \<le> length payload"
    and "apply_order (OrderRequest_of_bytes payload) (gw_live g) = (accepted, live)"
    and "tcp = (cx_tcp ctx)\<lparr>recv_seq := recv_seq (cx_tcp ctx) + of_nat (length payload)\<rparr>"
  obtains g' where "process_order_payload env fd n payload ctx g = Some (ctx\<lparr>cx_tcp := tcp\<rparr>, g')"
    "gw_ready env b g'" "gw_live g' = live" "gw_handled g' = gw_handled g @ [(fd, payload)]"
    "gw_conns g' = gw_conns g" "gw_popped g' = gw_popped g"
    "gw_out g' = gw_out g @ [Wrote fd (ack_frame env tcp (order_ack (OrderRequest_of_bytes payload) accepted))]"
    "mem_read (gw_mem g') b 44 = ack_frame env tcp (order_ack (OrderRequest_of_bytes payload) accepted)"
    "zp_block_size (gw_pool g') = zp_block_size (gw_pool g)"
    "\<forall>q k. (q + k \<le> b \<or> b + 44 \<le> q) \<and> (q + k \<le> ge_ack env \<or> ge_ack env + 24 \<le> q) \<longrightarrow> mem_read (gw_mem g') q k = mem_read (gw_mem g) q k"
proof -
  obtain ack g1 where a: "gw_account env fd n payload g = (ack, g1)" by fastforce
  note acc = gw_account_spec [OF assms(2,3) a]
  let ?build = "\<lambda>block m. create_data tcp (ge_ack env) 24 block (mem_write m (ge_ack env) (OrderAck_bytes (ge_pad env) ack))"
  have ready: "gw_ready env b g1" using assms(1) gw_ready_cong [OF acc(4)] by simp
  obtain pkt m where b: "?build b (gw_mem g1) = (pkt, m)" by fastforce
  from create_ack_frame [OF _ b] ready have f: "pkt = mk_Packet b 44 0" "pkt_bytes m pkt = ack_frame env tcp ack"
    by (auto simp: gw_ready_def)
  have mem: "\<forall>q k. (q + k \<le> b \<or> b + 44 \<le> q) \<and> (q + k \<le> ge_ack env \<or> ge_ack env + 24 \<le> q) \<longrightarrow> mem_read m q k = mem_read (gw_mem g) q k"
    using create_ack_mem [OF _ b] ready acc(8) by (simp add: gw_ready_def)
  obtain pool where s: "gw_send env fd ?build g1 = Some (pkt, ge_write env (gw_writes g1), g1\<lparr>gw_pool := pool, gw_mem := m,
      gw_out := gw_out g1 @ [Wrote fd (pkt_bytes m pkt)], gw_writes := Suc (gw_writes g1)\<rparr>)" "gw_ready env b (g1\<lparr>gw_pool := pool\<rparr>)"
    "zp_block_size pool = zp_block_size (gw_pool g1)"
    by (rule gw_send_ok [where fd = fd and build = ?build, OF ready b]) (simp_all add: f(1))
  have "\<exists>g'. process_order_payload env fd n payload ctx g = Some (ctx\<lparr>cx_tcp := tcp\<rparr>, g') \<and>
      gw_ready env b g' \<and> gw_live g' = live \<and> gw_handled g' = gw_handled g @ [(fd, payload)] \<and>
      gw_conns g' = gw_conns g \<and> gw_popped g' = gw_popped g \<and> gw_out g' = gw_out g @ [Wrote fd (ack_frame env tcp ack)] \<and>
      mem_read (gw_mem g') b 44 = ack_frame env tcp ack \<and> zp_block_size (gw_pool g') = zp_block_size (gw_pool g) \<and> gw_mem g' = m"
    using assms(2) s f acc by (simp add: process_order_payload_def Let_def assms(4) [symmetric] a gw_ready_def pkt_bytes_def)
  with that acc(1) mem show ?thesis by blast
qed

text \<open>
  What the book of live orders means: an order is live when it was entered and not cancelled since, or was live before
  and not cancelled at all.
\<close>

definition cancels :: "u64 \<Rightarrow> OrderRequest \<Rightarrow> bool" where
  "cancels x r \<longleftrightarrow> or_action r = OrderAction_code Cancel \<and> or_target_order_id r = x"

definition entered :: "u64 \<Rightarrow> OrderRequest list \<Rightarrow> bool" where
  "entered x reqs \<longleftrightarrow> (\<exists>rs r rs'. reqs = rs @ r # rs' \<and> or_action r = OrderAction_code New \<and>
     or_client_order_id r = x \<and> (\<forall>r' \<in> set rs'. \<not> cancels x r'))"

definition order_live :: "u64 set \<Rightarrow> OrderRequest list \<Rightarrow> u64 set" where
  "order_live before reqs = {x. (x \<in> before \<and> (\<forall>r \<in> set reqs. \<not> cancels x r)) \<or> entered x reqs}"

definition order_accepted :: "OrderRequest \<Rightarrow> u64 set \<Rightarrow> bool" where
  "order_accepted r live \<longleftrightarrow>
     (or_action r = OrderAction_code Cancel \<or> or_action r = OrderAction_code Replace \<longrightarrow> or_target_order_id r \<in> live)"

lemma entered_Nil [simp]: "\<not> entered x []"
  by (simp add: entered_def)

lemma entered_snoc:
  "entered x (reqs @ [r]) \<longleftrightarrow> (or_action r = OrderAction_code New \<and> or_client_order_id r = x) \<or> (entered x reqs \<and> \<not> cancels x r)"
proof
  assume "entered x (reqs @ [r])"
  then obtain rs n rs' where d: "reqs @ [r] = rs @ n # rs'" "or_action n = OrderAction_code New"
    "or_client_order_id n = x" "\<forall>r' \<in> set rs'. \<not> cancels x r'" by (auto simp: entered_def)
  show "(or_action r = OrderAction_code New \<and> or_client_order_id r = x) \<or> (entered x reqs \<and> \<not> cancels x r)"
  proof (cases rs' rule: rev_cases)
    case Nil
    with d show ?thesis by simp
  next
    case (snoc rs'' l)
    with d(1) have "l = r" "reqs = rs @ n # rs''" by auto
    with d snoc show ?thesis by (auto simp: entered_def)
  qed
next
  assume "(or_action r = OrderAction_code New \<and> or_client_order_id r = x) \<or> (entered x reqs \<and> \<not> cancels x r)"
  then show "entered x (reqs @ [r])"
  proof
    assume "entered x reqs \<and> \<not> cancels x r"
    then obtain rs n rs' where "reqs = rs @ n # rs'" "or_action n = OrderAction_code New"
      "or_client_order_id n = x" "\<forall>r' \<in> set rs'. \<not> cancels x r'" "\<not> cancels x r" by (auto simp: entered_def)
    then show ?thesis unfolding entered_def by (intro exI [of _ rs] exI [of _ n] exI [of _ "rs' @ [r]"]) auto
  qed (unfold entered_def, intro exI [of _ reqs] exI [of _ r] exI [of _ "[]"], simp)
qed

lemma order_live_Nil [simp]: "order_live before [] = before"
  by (simp add: order_live_def)

lemma order_live_snoc:
  "apply_order r (order_live before reqs) = (order_accepted r (order_live before reqs), order_live before (reqs @ [r]))"
  by (auto simp: apply_order_def order_accepted_def order_live_def entered_snoc cancels_def)

lemma ack_frame_payload: "length (ack_frame env tcp ack) = 44" "OrderAck_of_bytes (drop 20 (ack_frame env tcp ack)) = ack"
  by (simp_all add: ack_frame_def sealed_bytes_def Let_def)

definition request :: "TcpBufferedSegment \<Rightarrow> OrderRequest" where
  "request seg = OrderRequest_of_bytes (seg_data seg)"

text \<open>The answers that a list of requests deserves, given the requests \<open>done\<close> before.\<close>

fun expected_acks :: "u64 set \<Rightarrow> OrderRequest list \<Rightarrow> OrderRequest list \<Rightarrow> OrderAck list" where
  "expected_acks before done [] = []"
| "expected_acks before done (r # rs) =
     order_ack r (order_accepted r (order_live before done)) # expected_acks before (done @ [r]) rs"

definition acks_in :: "u8 list list \<Rightarrow> OrderAck list" where
  "acks_in frames = map (\<lambda>frame. OrderAck_of_bytes (drop 20 frame)) frames"

lemma replay_ok:
  assumes "gw_ready env b g" and "\<forall>seg \<in> set segs. 40 \<le> length (seg_data seg)"
    and "gw_live g = order_live before done"
  obtains ctx' g' frames where "gw_replay env fd n segs ctx g = Some (ctx', g')" "gw_ready env b g'"
    "gw_out g' = gw_out g @ map (Wrote fd) frames" "acks_in frames = expected_acks before done (map request segs)"
    "gw_live g' = order_live before (done @ map request segs)"
    "gw_handled g' = gw_handled g @ map (\<lambda>seg. (fd, seg_data seg)) segs" "gw_conns g' = gw_conns g"
    "gw_popped g' = gw_popped g" "cx_reassembly ctx' = cx_reassembly ctx"
    "recv_seq (cx_tcp ctx') = recv_seq (cx_tcp ctx) + of_nat (length (delivered segs))"
  using assms
proof (induction segs arbitrary: thesis ctx g "done")
  case Nil
  show ?case by (rule Nil.prems(1) [of ctx g "[]"]) (use Nil.prems in \<open>simp_all add: acks_in_def\<close>)
next
  case (Cons seg segs)
  let ?tcp = "(cx_tcp ctx)\<lparr>recv_seq := recv_seq (cx_tcp ctx) + of_nat (length (seg_data seg))\<rparr>"
  let ?ack = "order_ack (request seg) (order_accepted (request seg) (order_live before done))"
  have long: "40 \<le> length (seg_data seg)" and rest: "\<forall>seg \<in> set segs. 40 \<le> length (seg_data seg)"
    using Cons.prems(3) by auto
  have "apply_order (OrderRequest_of_bytes (seg_data seg)) (gw_live g) =
      (order_accepted (request seg) (order_live before done), order_live before (done @ [request seg]))"
    unfolding Cons.prems(4) by (simp add: order_live_snoc request_def)
  then obtain g1 where g1: "process_order_payload env fd n (seg_data seg) ctx g = Some (ctx\<lparr>cx_tcp := ?tcp\<rparr>, g1)"
    "gw_ready env b g1" "gw_live g1 = order_live before (done @ [request seg])" "gw_handled g1 = gw_handled g @ [(fd, seg_data seg)]"
    "gw_conns g1 = gw_conns g" "gw_popped g1 = gw_popped g" "gw_out g1 = gw_out g @ [Wrote fd (ack_frame env ?tcp ?ack)]"
    unfolding request_def by (rule process_ok [OF Cons.prems(2) long _ refl])
  obtain ctx' g' frames where IH: "gw_replay env fd n segs (ctx\<lparr>cx_tcp := ?tcp\<rparr>) g1 = Some (ctx', g')" "gw_ready env b g'"
    "gw_out g' = gw_out g1 @ map (Wrote fd) frames" "acks_in frames = expected_acks before (done @ [request seg]) (map request segs)"
    "gw_live g' = order_live before ((done @ [request seg]) @ map request segs)"
    "gw_handled g' = gw_handled g1 @ map (\<lambda>seg. (fd, seg_data seg)) segs" "gw_conns g' = gw_conns g1"
    "gw_popped g' = gw_popped g1" "cx_reassembly ctx' = cx_reassembly (ctx\<lparr>cx_tcp := ?tcp\<rparr>)"
    "recv_seq (cx_tcp ctx') = recv_seq (cx_tcp (ctx\<lparr>cx_tcp := ?tcp\<rparr>)) + of_nat (length (delivered segs))"
    by (rule Cons.IH [OF _ g1(2) rest g1(3)])
  show ?case
    by (rule Cons.prems(1) [of ctx' g' "ack_frame env ?tcp ?ack # frames"])
      (use g1 IH in \<open>simp_all add: acks_in_def ack_frame_payload\<close>)
qed

section \<open>The gateway from its start\<close>

lemma upt_two: "2 \<le> n \<Longrightarrow> [0..<n] = 0 # 1 # [2..<n]"
  by (simp add: upt_conv_Cons numeral_2_eq_2)

lemma gateway_init_ready:
  assumes "mmap 4608 False = Some base" and "0 < base" and "ge_ack env + 24 \<le> base + 36 \<or> base + 80 \<le> ge_ack env"
  obtains g where "gateway_init mmap t m = Some (PacketRing 64, g)" "gw_ready env (base + 36) g" "gw_conns g = []"
    "gw_live g = {}" "gw_handled g = []" "gw_mem g = m" "gw_out g = []" "zp_block_size (gw_pool g) = 36"
    "\<exists>free. zp_inv (gw_pool g) ((base + 36) # free) {base}" "gw_writes g = 0" "gw_req_recv_total g = 0"
proof -
  have "\<exists>z. ZeroCopyMemoryPool mmap 36 128 False = ZcPool z \<and> zb_ptr (zp_buffer z) = base \<and> zp_block_size z = 36"
    using assms(1) by (simp add: ZeroCopyMemoryPool_def zc_create_def Let_def)
  then obtain z where z: "ZeroCopyMemoryPool mmap 36 128 False = ZcPool z" "zb_ptr (zp_buffer z) = base" "zp_block_size z = 36" by blast
  note view = ZeroCopyMemoryPool_view [OF z(1)]
  have "unat (128 :: size_type) \<ge> 2" by simp
  then have "map (mp_block (as_memory_pool z)) [0..<unat (128 :: size_type)] =
      mp_block (as_memory_pool z) 0 # mp_block (as_memory_pool z) 1 # map (mp_block (as_memory_pool z)) [2..<unat (128 :: size_type)]"
    by (simp only: upt_two list.map)
  moreover have "mp_block (as_memory_pool z) 0 = base" "mp_block (as_memory_pool z) 1 = base + 36"
    using view(2) z(2) by (simp_all add: mp_block_def as_memory_pool_def)
  moreover have "mp_inv (as_memory_pool z) (map (mp_block (as_memory_pool z)) [0..<unat (128 :: size_type)]) {}"
    by (rule MemoryPool_inv(1) [OF view(1)]) (use z(2) assms(2) in simp_all)
  ultimately obtain rest where "zp_inv z (base # (base + 36) # rest) {}" by (auto simp only: zp_inv_def)
  from zpool.alloc_block [OF this] obtain z1 where z1: "zp_allocate z = Some (base, z1)"
    "zp_inv z1 ((base + 36) # rest) {base}" by blast
  obtain z2 z3 where z3: "zp_allocate z1 = Some (base + 36, z2)" "zp_deallocate (base + 36) z2 = Some z3"
    "zp_inv z3 ((base + 36) # rest) {base}"
    by (rule zpool.borrow [OF z1(2)])
  have "\<exists>g. gateway_init mmap t m = Some (PacketRing 64, g) \<and> gw_pool g = z3 \<and> gw_conns g = [] \<and>
      gw_live g = {} \<and> gw_handled g = [] \<and> gw_mem g = m \<and> gw_out g = [] \<and> gw_writes g = 0 \<and> gw_req_recv_total g = 0"
    using z(1) z1(1) z3(1,2) by (simp add: gateway_init_def)
  then obtain g where g: "gateway_init mmap t m = Some (PacketRing 64, g)" "gw_pool g = z3" "gw_conns g = []"
      "gw_live g = {}" "gw_handled g = []" "gw_mem g = m" "gw_out g = []" "gw_writes g = 0" "gw_req_recv_total g = 0" by blast
  have "gw_ready env (base + 36) g" unfolding gw_ready_def g(2) using z3(3) assms(3) by auto
  moreover have "zp_block_size (gw_pool g) = 36" unfolding g(2) using zp_block_size_kept z(3) z1(1) z3(1,2) by metis
  moreover have "\<exists>free. zp_inv (gw_pool g) ((base + 36) # free) {base}" unfolding g(2) using z3(3) by blast
  ultimately show ?thesis using g by (intro that)
qed

lemma ack_frame_flag: "oa_accepted ack = accepted \<Longrightarrow> ack_frame env tcp ack ! 36 = (if accepted then 1 else 0)"
  by (simp add: ack_frame_def sealed_bytes_def Let_def nth_append OrderAck_bytes_def)

text \<open>An environment in which every write of 44 bytes succeeds, and a start on memory full of zeros.\<close>

definition ex_env :: gateway_env where
  "ex_env = \<lparr>ge_buf = 4096, ge_ack = 8192, ge_pad = 0, ge_write = \<lambda>_. 44, ge_drop = \<lambda>_. False, ge_backpressure = 0\<rparr>"

definition ex_mmap :: "size_type \<Rightarrow> bool \<Rightarrow> ptr option" where
  "ex_mmap = (\<lambda>_ _. Some 65536)"

lemma ex_start:
  obtains g where "gateway_init ex_mmap 0 (\<lambda>_. 0) = Some (PacketRing 64, g)" "gw_ready ex_env 65572 g" "gw_conns g = []"
    "gw_live g = {}" "gw_handled g = []" "gw_mem g = (\<lambda>_. 0)" "gw_out g = []" "zp_block_size (gw_pool g) = 36"
  by (rule gateway_init_ready [where mmap = ex_mmap and base = 65536 and env = ex_env and t = 0 and m = "\<lambda>_. 0"])
    (simp_all add: ex_mmap_def ex_env_def)

definition ex_request :: "OrderAction \<Rightarrow> u64 \<Rightarrow> u64 \<Rightarrow> OrderRequest" where
  "ex_request action x target = \<lparr>or_client_order_id = x, or_target_order_id = target, or_instrument_id = 1,
     or_action = OrderAction_code action, or_side = 0, or_price = 100, or_quantity = 1, or_send_ts_ns = 0\<rparr>"

definition ex_segment :: "u32 \<Rightarrow> OrderRequest \<Rightarrow> TcpBufferedSegment" where
  "ex_segment sq r = \<lparr>seg_seq = sq, seg_data = OrderRequest_bytes 0 r\<rparr>"

text \<open>
  \<^bold>\<open>C9\<close>. The gateway answers a series of order requests correctly: every request gets one acknowledgement, in order,
  with its own identifier and the server's; a cancel or a replace is accepted exactly when its target was entered and
  not cancelled since, everything else is accepted; and the book afterwards holds exactly those orders. No call meets
  undefined behaviour, and the pool is as ready as before.\<close>

theorem gateway_answers_orders:
  assumes "gw_ready env b g" and "\<forall>seg \<in> set segs. 40 \<le> length (seg_data seg)"
  shows "\<exists>ctx' g' frames. gw_replay env fd n segs ctx g = Some (ctx', g') \<and> gw_ready env b g' \<and>
    gw_out g' = gw_out g @ map (Wrote fd) frames \<and> acks_in frames = expected_acks (gw_live g) [] (map request segs) \<and>
    gw_live g' = order_live (gw_live g) (map request segs)"
proof -
  have live: "gw_live g = order_live (gw_live g) []" by simp
  show ?thesis by (rule replay_ok [where ctx = ctx and fd = fd and n = n, OF assms live]) auto
qed

theorem gateway_answers_orders_witness:
  "\<exists>ring g ctx' g' frames. gateway_init ex_mmap 0 (\<lambda>_. 0) = Some (ring, g) \<and>
    gw_replay ex_env 5 0 [ex_segment 1 (ex_request New 7 0), ex_segment 41 (ex_request Cancel 8 7), ex_segment 81 (ex_request Cancel 9 7)]
      (gw_new_connection 0) g = Some (ctx', g') \<and> gw_out g' = map (Wrote 5) frames \<and>
    map oa_accepted (acks_in frames) = [True, True, False] \<and> gw_live g' = {}"
proof -
  obtain g where g: "gateway_init ex_mmap 0 (\<lambda>_. 0) = Some (PacketRing 64, g)" "gw_ready ex_env 65572 g" "gw_live g = {}" "gw_out g = []"
    by (rule ex_start)
  let ?segs = "[ex_segment 1 (ex_request New 7 0), ex_segment 41 (ex_request Cancel 8 7), ex_segment 81 (ex_request Cancel 9 7)]"
  have "\<forall>seg \<in> set ?segs. 40 \<le> length (seg_data seg)" by (simp add: ex_segment_def)
  from gateway_answers_orders [OF g(2) this, of 5 0 "gw_new_connection 0"] obtain ctx' g' frames where
    r: "gw_replay ex_env 5 0 ?segs (gw_new_connection 0) g = Some (ctx', g')" "gw_out g' = map (Wrote 5) frames"
      "acks_in frames = expected_acks {} [] (map request ?segs)" "gw_live g' = order_live {} (map request ?segs)"
    using g(3,4) by auto
  have reqs: "map request ?segs = ([] @ [ex_request New 7 0]) @ [ex_request Cancel 8 7, ex_request Cancel 9 7]"
    by (simp add: request_def ex_segment_def)
  have one: "order_live {} ([] @ [ex_request New 7 0]) = {7}"
    using order_live_snoc [of "ex_request New 7 0" "{}" "[]"] by (simp add: apply_order_def ex_request_def)
  have two: "order_live {} ([ex_request New 7 0] @ [ex_request Cancel 8 7]) = {}"
    using order_live_snoc [of "ex_request Cancel 8 7" "{}" "[ex_request New 7 0]"] one
    by (simp add: apply_order_def ex_request_def)
  have three: "order_live {} ([ex_request New 7 0, ex_request Cancel 8 7] @ [ex_request Cancel 9 7]) = {}"
    using order_live_snoc [of "ex_request Cancel 9 7" "{}" "[ex_request New 7 0, ex_request Cancel 8 7]"] two
    by (simp add: apply_order_def ex_request_def)
  have "map oa_accepted (acks_in frames) = [True, True, False]"
    using r(3) one two unfolding reqs by (simp add: order_ack_def order_accepted_def) (simp add: ex_request_def)
  moreover have "gw_live g' = {}" using r(4) three unfolding reqs by simp
  ultimately show ?thesis using g(1) r(1,2) by (intro exI conjI)
qed

text \<open>
  \<^bold>\<open>C31\<close>. The blocks of the pool are 36 bytes long but an acknowledgement takes 44: the frame that answers an order
  ends 8 bytes behind the block it is built in, and the flag that says whether the order was accepted is the first
  byte outside.\<close>

theorem gateway_ack_overruns_block:
  assumes "mmap 4608 False = Some base" and "0 < base" and "ge_ack env + 24 \<le> base + 36 \<or> base + 80 \<le> ge_ack env"
    and "gateway_init mmap t m = Some (ring, g)" and "40 \<le> length payload"
  shows "\<exists>ctx' g' frame. process_order_payload env fd n payload ctx g = Some (ctx', g') \<and> gw_out g' = [Wrote fd frame] \<and>
    frame = mem_read (gw_mem g') (base + 36) 44 \<and> zp_block_size (gw_pool g') = 36 \<and>
    gw_mem g' ((base + 36) + 36) = (if oa_accepted (OrderAck_of_bytes (drop 20 frame)) then 1 else 0)"
proof -
  obtain g0 where g0: "gateway_init mmap t m = Some (PacketRing 64, g0)" "gw_ready env (base + 36) g0" "gw_out g0 = []"
    "zp_block_size (gw_pool g0) = 36" by (rule gateway_init_ready [where mmap = mmap, OF assms(1-3)])
  with assms(4) have ready: "gw_ready env (base + 36) g" and out: "gw_out g = []" and bs: "zp_block_size (gw_pool g) = 36" by auto
  obtain accepted live where a: "apply_order (OrderRequest_of_bytes payload) (gw_live g) = (accepted, live)" by fastforce
  let ?tcp = "(cx_tcp ctx)\<lparr>recv_seq := recv_seq (cx_tcp ctx) + of_nat (length payload)\<rparr>"
  let ?ack = "order_ack (OrderRequest_of_bytes payload) accepted"
  obtain g' where g': "process_order_payload env fd n payload ctx g = Some (ctx\<lparr>cx_tcp := ?tcp\<rparr>, g')"
    "gw_out g' = gw_out g @ [Wrote fd (ack_frame env ?tcp ?ack)]" "mem_read (gw_mem g') (base + 36) 44 = ack_frame env ?tcp ?ack"
    "zp_block_size (gw_pool g') = zp_block_size (gw_pool g)"
    by (rule process_ok [OF ready assms(5) a refl])
  have "gw_mem g' ((base + 36) + 36) = ack_frame env ?tcp ?ack ! 36"
    using g'(3) nth_mem_read [of 36 44 "gw_mem g'" "base + 36"] by simp
  also have "\<dots> = (if accepted then 1 else 0)" by (rule ack_frame_flag [where accepted = accepted]) (simp add: order_ack_def)
  finally have "gw_mem g' ((base + 36) + 36) = (if oa_accepted (OrderAck_of_bytes (drop 20 (ack_frame env ?tcp ?ack))) then 1 else 0)"
    by (simp add: ack_frame_payload order_ack_def)
  moreover have "gw_out g' = [Wrote fd (ack_frame env ?tcp ?ack)]" "zp_block_size (gw_pool g') = 36" using g'(2,4) out bs by simp_all
  ultimately show ?thesis using g'(1) g'(3) [symmetric] by (intro exI conjI)
qed

theorem gateway_ack_overruns_block_witness:
  "\<exists>g ctx' g'. gateway_init ex_mmap 0 (\<lambda>_. 0) = Some (PacketRing 64, g) \<and>
    process_order_payload ex_env 5 0 (OrderRequest_bytes 0 (ex_request New 7 0)) (gw_new_connection 0) g = Some (ctx', g') \<and>
    zp_block_size (gw_pool g') = 36 \<and> gw_mem g' 65608 \<in> {0, 1}"
proof -
  obtain g where g: "gateway_init ex_mmap 0 (\<lambda>_. 0) = Some (PacketRing 64, g)" by (rule ex_start)
  have h: "ex_mmap 4608 False = Some 65536" "(0 :: nat) < 65536" "ge_ack ex_env + 24 \<le> 65536 + 36 \<or> 65536 + 80 \<le> ge_ack ex_env"
    "40 \<le> length (OrderRequest_bytes 0 (ex_request New 7 0))" by (simp_all add: ex_mmap_def ex_env_def)
  from gateway_ack_overruns_block [OF h(1-3) g h(4), of 5 0 "gw_new_connection 0"] g show ?thesis
    by (auto split: if_splits)
qed

end
