(* ===== verification/Gateway_Stream.thy ===== *)
theory Gateway_Stream
  imports Order_Gateway
begin

text \<open>
  The gateway of \<^verbatim>\<open>Order_Gateway\<close> on the byte stream of a client: the payloads it processes are a prefix of the stream
  whatever order its segments arrive in.
\<close>

section \<open>In-order processing\<close>

definition handled_bytes :: "int \<Rightarrow> gateway \<Rightarrow> u8 list" where
  "handled_bytes fd g = concat (map snd (filter (\<lambda>(f, _). f = fd) (gw_handled g)))"

text \<open>
  What the gateway knows of a byte stream \<open>st\<close> that arrives on \<open>fd\<close>, after \<open>k\<close> segments that started at the numbers \<open>seen\<close>: it
  has handled a prefix, expects the byte after it, and buffers other slices of the stream; every segment seen is
  buffered or starts in the part handled.
\<close>

definition gw_behind ::
    "(u32 \<Rightarrow> u8) \<Rightarrow> gateway_env \<Rightarrow> ptr \<Rightarrow> int \<Rightarrow> nat \<Rightarrow> u32 set \<Rightarrow> ConnectionContext \<Rightarrow> gateway \<Rightarrow> bool" where
  "gw_behind st env b fd k seen ctx g \<longleftrightarrow>
     gw_ready env b g \<and> reassembly_inv (cx_reassembly ctx) \<and> slices_of st (segments (cx_reassembly ctx)) \<and>
     (\<forall>(sq, d) \<in> set (segments (cx_reassembly ctx)). 40 \<le> length d) \<and>
     length (handled_bytes fd g) + bytes_in (segments (cx_reassembly ctx)) \<le> 2048 * k \<and>
     (\<forall>sq \<in> seen. sq \<in> fst ` set (segments (cx_reassembly ctx)) \<or> (0 < unat sq \<and> unat sq \<le> length (handled_bytes fd g))) \<and>
     handled_bytes fd g = stream_slice st 1 (length (handled_bytes fd g)) \<and>
     recv_seq (cx_tcp ctx) = 1 + of_nat (length (handled_bytes fd g))"

text \<open>Between two segments nothing that could be handled at once is buffered.\<close>

definition gw_stream ::
    "(u32 \<Rightarrow> u8) \<Rightarrow> gateway_env \<Rightarrow> ptr \<Rightarrow> int \<Rightarrow> nat \<Rightarrow> u32 set \<Rightarrow> ConnectionContext \<Rightarrow> gateway \<Rightarrow> bool" where
  "gw_stream st env b fd k seen ctx g \<longleftrightarrow>
     gw_behind st env b fd k seen ctx g \<and> recv_seq (cx_tcp ctx) \<notin> fst ` set (segments (cx_reassembly ctx))"

lemma handled_bytes_append [simp]:
  "gw_handled g' = gw_handled g @ map (\<lambda>seg. (fd, seg_data seg)) segs \<Longrightarrow> handled_bytes fd g' = handled_bytes fd g @ delivered segs"
  by (simp add: handled_bytes_def delivered_def filter_map comp_def)

lemma gw_buffer_stream:
  assumes "gw_stream st env b fd k seen ctx g" and "sq \<noteq> recv_seq (cx_tcp ctx)" and "k < 2 ^ 20" and "p \<noteq> nullptr"
    and "mem_read (gw_mem g) p (unat len) = stream_slice st sq (unat len)" and "40 \<le> unat len" "unat len \<le> 2048"
    and "gw_buffer sq p len ctx g = (ctx', g')"
  shows "gw_stream st env b fd (Suc k) (insert sq seen) ctx' g'" and "gw_conns g' = gw_conns g" and "gw_popped g' = gw_popped g"
proof -
  obtain r b' where i: "reassembly_insert (gw_mem g) sq p len (cx_reassembly ctx) = (r, b')" by fastforce
  have ctx: "ctx' = ctx\<lparr>cx_reassembly := b'\<rparr>" and g: "gw_pool g' = gw_pool g" "gw_handled g' = gw_handled g"
    and same: "gw_conns g' = gw_conns g" "gw_popped g' = gw_popped g"
    using assms(8) by (auto simp: gw_buffer_def i Let_def split: if_splits)
  show "gw_conns g' = gw_conns g" "gw_popped g' = gw_popped g" by (fact same)+
  have inv: "reassembly_inv (cx_reassembly ctx)"
    and size: "length (handled_bytes fd g) + bytes_in (segments (cx_reassembly ctx)) \<le> 2048 * k"
    using assms(1) by (auto simp: gw_stream_def gw_behind_def)
  have inv': "reassembly_inv b'" using size assms(3,7) by (intro insert_inv [OF inv i]) simp
  have srt: "sorted_map (segments (cx_reassembly ctx))" using inv by (simp add: reassembly_inv_def)
  have "len \<noteq> 0" using assms(6) by auto
  with insert_spec [OF srt i] assms(4)
  have sets: "set (segments b') \<subseteq> insert (sq, mem_read (gw_mem g) p (unat len)) (set (segments (cx_reassembly ctx)))"
    and keys: "fst ` set (segments b') = insert sq (fst ` set (segments (cx_reassembly ctx)))"
    and bytes: "length (handled_bytes fd g) + bytes_in (segments b') \<le> 2048 * Suc k"
    using size assms(7) by (auto split: if_splits)
  have "gw_ready env b g' = gw_ready env b g" by (rule gw_ready_cong [OF g(1)])
  moreover have "handled_bytes fd g' = handled_bytes fd g" using g(2) by (simp add: handled_bytes_def)
  moreover have "recv_seq (cx_tcp ctx) \<notin> fst ` set (segments b')" using keys assms(1,2) by (auto simp: gw_stream_def)
  ultimately show "gw_stream st env b fd (Suc k) (insert sq seen) ctx' g'"
    using assms(1,5,6) inv' sets bytes by (auto simp: gw_stream_def gw_behind_def ctx slices_of_def keys)
qed

lemma gw_handle_stream:
  assumes "gw_behind st env b fd k seen ctx g" and "k < 2 ^ 20"
    and "payload = stream_slice st (recv_seq (cx_tcp ctx)) (length payload)" and "40 \<le> length payload" "length payload \<le> 2048"
  obtains ctx' g' where "process_order_payload env fd n payload ctx g = Some (ctx', g')"
    "gw_behind st env b fd (Suc k) (insert (recv_seq (cx_tcp ctx)) seen) ctx' g'"
    "gw_conns g' = gw_conns g" "gw_popped g' = gw_popped g"
proof -
  obtain accepted live where a: "apply_order (OrderRequest_of_bytes payload) (gw_live g) = (accepted, live)" by fastforce
  have ready: "gw_ready env b g" and hb: "handled_bytes fd g = stream_slice st 1 (length (handled_bytes fd g))"
    and rs: "recv_seq (cx_tcp ctx) = 1 + of_nat (length (handled_bytes fd g))"
    and size: "length (handled_bytes fd g) + bytes_in (segments (cx_reassembly ctx)) \<le> 2048 * k"
    using assms(1) by (auto simp: gw_behind_def)
  let ?ctx' = "ctx\<lparr>cx_tcp := (cx_tcp ctx)\<lparr>recv_seq := recv_seq (cx_tcp ctx) + of_nat (length payload)\<rparr>\<rparr>"
  obtain g' where g': "process_order_payload env fd n payload ctx g = Some (?ctx', g')" "gw_ready env b g'"
    "gw_handled g' = gw_handled g @ [(fd, payload)]" "gw_conns g' = gw_conns g" "gw_popped g' = gw_popped g"
    by (rule process_ok [OF ready assms(4) a refl])
  have h: "handled_bytes fd g' = handled_bytes fd g @ payload" using g'(3) by (simp add: handled_bytes_def)
  also have "\<dots> = stream_slice st 1 (length (handled_bytes fd g)) @
      stream_slice st (1 + of_nat (length (handled_bytes fd g))) (length payload)" using hb assms(3) rs by metis
  finally have whole: "handled_bytes fd g' = stream_slice st 1 (length (handled_bytes fd g'))"
    by (simp add: h stream_slice_append)
  have "recv_seq (cx_tcp ctx) = of_nat (1 + length (handled_bytes fd g))" using rs by simp
  then have "unat (recv_seq (cx_tcp ctx)) = 1 + length (handled_bytes fd g)"
    using size assms(2) by (simp add: unat_of_nat_small del: of_nat_add of_nat_Suc)
  then have "gw_behind st env b fd (Suc k) (insert (recv_seq (cx_tcp ctx)) seen) ?ctx' g'"
    unfolding gw_behind_def using assms(1,4,5) g'(2) whole h rs
    by (auto simp: gw_behind_def add.assoc)
  with g' show ?thesis by (intro that [OF g'(1)])
qed

lemma contiguous_starts:
  assumes "contiguous c segs c'" and "seg \<in> set segs" and "seg_data seg \<noteq> []"
  shows "\<exists>j < length (delivered segs). seg_seq seg = c + of_nat j"
  using assms
proof (induction segs arbitrary: c)
  case (Cons s segs)
  show ?case
  proof (cases "seg = s")
    case True
    with Cons.prems show ?thesis by (intro exI [of _ 0]) auto
  next
    case False
    with Cons.prems obtain j where "j < length (delivered segs)" "seg_seq seg = c + of_nat (length (seg_data s)) + of_nat j"
      using Cons.IH [of "c + of_nat (length (seg_data s))"] by auto
    then show ?thesis by (intro exI [of _ "length (seg_data s) + j"]) (simp add: add.assoc)
  qed
qed simp

text \<open>What is taken out of the buffer continues the stream, and what stays does not.\<close>

lemma gw_popped_basic:
  assumes "gw_behind st env b fd k seen ctx g"
    and "pop_contiguous (recv_seq (cx_tcp ctx)) (cx_reassembly ctx) = (m, segs, b')"
  obtains c where "contiguous (recv_seq (cx_tcp ctx)) segs c" "c \<notin> fst ` set (segments b')"
    "set (segments (cx_reassembly ctx)) = set (segments b') \<union> as_pair ` set segs"
    "bytes_in (segments (cx_reassembly ctx)) = bytes_in (segments b') + length (delivered segs)"
    "reassembly_inv b'" "unat m = length (delivered segs)"
    "\<forall>x \<in> set segs. seg_data x = stream_slice st (seg_seq x) (length (seg_data x))"
    "\<forall>x \<in> set segs. 40 \<le> length (seg_data x)"
proof -
  have old: "reassembly_inv (cx_reassembly ctx)" "sorted_map (segments (cx_reassembly ctx))" "slices_of st (segments (cx_reassembly ctx))"
    "\<forall>(sq, d) \<in> set (segments (cx_reassembly ctx)). 40 \<le> length d"
    using assms(1) by (auto simp: gw_behind_def reassembly_inv_def)
  from pop_contiguous_spec [OF old(2) assms(2)] obtain c where c: "contiguous (recv_seq (cx_tcp ctx)) segs c"
    "c \<notin> fst ` set (segments b')" "set (segments (cx_reassembly ctx)) = set (segments b') \<union> as_pair ` set segs"
    "bytes_in (segments (cx_reassembly ctx)) = bytes_in (segments b') + length (delivered segs)" by auto
  have "as_pair x \<in> set (segments (cx_reassembly ctx))" if "x \<in> set segs" for x
    using c(3) that by simp
  then have "\<forall>x \<in> set segs. seg_data x = stream_slice st (seg_seq x) (length (seg_data x))" "\<forall>x \<in> set segs. 40 \<le> length (seg_data x)"
    using old(3,4) by (fastforce simp: slices_of_def as_pair_def)+
  with c pop_inv [OF old(1) assms(2)] show ?thesis by (intro that) auto
qed

lemma gw_popped_starts:
  assumes "gw_behind st env b fd k seen ctx g" and "k \<le> 2 ^ 20"
    and "pop_contiguous (recv_seq (cx_tcp ctx)) (cx_reassembly ctx) = (m, segs, b')"
    and "got = handled_bytes fd g @ delivered segs" and "sq \<in> seen"
  shows "sq \<in> fst ` set (segments b') \<or> (0 < unat sq \<and> unat sq \<le> length got)"
proof -
  obtain c where c: "contiguous (recv_seq (cx_tcp ctx)) segs c"
    "set (segments (cx_reassembly ctx)) = set (segments b') \<union> as_pair ` set segs"
    "bytes_in (segments (cx_reassembly ctx)) = bytes_in (segments b') + length (delivered segs)"
    "\<forall>x \<in> set segs. 40 \<le> length (seg_data x)" by (rule gw_popped_basic [OF assms(1,3)])
  have old: "length (handled_bytes fd g) + bytes_in (segments (cx_reassembly ctx)) \<le> 2048 * k"
    "recv_seq (cx_tcp ctx) = 1 + of_nat (length (handled_bytes fd g))" using assms(1) by (simp_all add: gw_behind_def)
  have start: "0 < unat (seg_seq x) \<and> unat (seg_seq x) \<le> length got" if x: "x \<in> set segs" for x
  proof -
    have "seg_data x \<noteq> []" using c(4) x by fastforce
    from contiguous_starts [OF c(1) x this] obtain j where j: "j < length (delivered segs)"
      "seg_seq x = of_nat (1 + length (handled_bytes fd g) + j)" using old(2) by auto
    moreover have "1 + length (handled_bytes fd g) + j < 2 ^ 32" using j(1) old(1) c(3) assms(2) by simp
    ultimately have "unat (seg_seq x) = 1 + length (handled_bytes fd g) + j"
      by (simp add: unat_of_nat_small del: of_nat_add of_nat_Suc)
    with j(1) assms(4) show ?thesis by simp
  qed
  have keys: "fst ` set (segments (cx_reassembly ctx)) = fst ` set (segments b') \<union> seg_seq ` set segs"
    unfolding c(2) image_Un by (simp add: image_image as_pair_def)
  have "sq \<in> fst ` set (segments (cx_reassembly ctx)) \<or> (0 < unat sq \<and> unat sq \<le> length (handled_bytes fd g))"
    using assms(1,5) unfolding gw_behind_def by blast
  then show ?thesis
  proof (elim disjE)
    assume "sq \<in> fst ` set (segments (cx_reassembly ctx))"
    then show ?thesis unfolding keys using start by (elim UnE imageE) simp_all
  qed (simp add: assms(4))
qed

lemma gw_popped_slices:
  assumes "gw_behind st env b fd k seen ctx g" and "k \<le> 2 ^ 20"
    and "pop_contiguous (recv_seq (cx_tcp ctx)) (cx_reassembly ctx) = (m, segs, b')"
    and "got = handled_bytes fd g @ delivered segs"
  shows "got = stream_slice st 1 (length got)" and "1 + of_nat (length got) \<notin> fst ` set (segments b')"
    and "\<forall>seg \<in> set segs. 40 \<le> length (seg_data seg)" and "segs \<noteq> [] \<longrightarrow> m > 0"
    and "reassembly_inv b' \<and> slices_of st (segments b') \<and> (\<forall>(sq, d) \<in> set (segments b'). 40 \<le> length d) \<and>
      length got + bytes_in (segments b') \<le> 2048 * k"
proof -
  obtain c where c: "contiguous (recv_seq (cx_tcp ctx)) segs c" "c \<notin> fst ` set (segments b')"
    "set (segments (cx_reassembly ctx)) = set (segments b') \<union> as_pair ` set segs"
    "bytes_in (segments (cx_reassembly ctx)) = bytes_in (segments b') + length (delivered segs)"
    "reassembly_inv b'" "unat m = length (delivered segs)"
    "\<forall>x \<in> set segs. seg_data x = stream_slice st (seg_seq x) (length (seg_data x))"
    "\<forall>x \<in> set segs. 40 \<le> length (seg_data x)" by (rule gw_popped_basic [OF assms(1,3)])
  have old: "slices_of st (segments (cx_reassembly ctx))" "\<forall>(sq, d) \<in> set (segments (cx_reassembly ctx)). 40 \<le> length d"
    "length (handled_bytes fd g) + bytes_in (segments (cx_reassembly ctx)) \<le> 2048 * k"
    "handled_bytes fd g = stream_slice st 1 (length (handled_bytes fd g))"
    "recv_seq (cx_tcp ctx) = 1 + of_nat (length (handled_bytes fd g))"
    using assms(1) by (auto simp: gw_behind_def)
  from contiguous_slices [OF c(1)] c(7) have d: "delivered segs = stream_slice st (recv_seq (cx_tcp ctx)) (length (delivered segs))"
    "c = recv_seq (cx_tcp ctx) + of_nat (length (delivered segs))" by blast+
  have "got = stream_slice st 1 (length (handled_bytes fd g)) @
      stream_slice st (1 + of_nat (length (handled_bytes fd g))) (length (delivered segs))"
    using assms(4) old(4,5) d(1) by metis
  then show "got = stream_slice st 1 (length got)" using assms(4) by (simp add: stream_slice_append)
  show "1 + of_nat (length got) \<notin> fst ` set (segments b')" using c(2) d(2) old(5) assms(4) by (simp add: add.assoc)
  show "\<forall>seg \<in> set segs. 40 \<le> length (seg_data seg)" by (fact c(8))
  show "segs \<noteq> [] \<longrightarrow> m > 0" using c(6,8) by (cases segs) (auto simp: word_less_nat_alt)
  show "reassembly_inv b' \<and> slices_of st (segments b') \<and> (\<forall>(sq, d) \<in> set (segments b'). 40 \<le> length d) \<and>
      length got + bytes_in (segments b') \<le> 2048 * k"
    using old(1-3) c(3-5) assms(4) by (auto simp: slices_of_def)
qed

lemma gw_replay_stream:
  assumes "gw_behind st env b fd k seen ctx g" and "k \<le> 2 ^ 20"
    and "pop_contiguous (recv_seq (cx_tcp ctx)) (cx_reassembly ctx) = (m, segs, b')"
  shows "\<exists>ctx' g'. gw_replay env fd n segs (ctx\<lparr>cx_reassembly := b'\<rparr>) g = Some (ctx', g') \<and> gw_stream st env b fd k seen ctx' g' \<and>
    gw_conns g' = gw_conns g \<and> gw_popped g' = gw_popped g"
proof -
  note p = gw_popped_slices [OF assms refl]
  have g: "gw_ready env b g" "gw_live g = order_live (gw_live g) []"
    "recv_seq (cx_tcp ctx) = 1 + of_nat (length (handled_bytes fd g))" using assms(1) by (auto simp: gw_behind_def)
  obtain ctx' g' where r: "gw_replay env fd n segs (ctx\<lparr>cx_reassembly := b'\<rparr>) g = Some (ctx', g')" "gw_ready env b g'"
    "gw_handled g' = gw_handled g @ map (\<lambda>seg. (fd, seg_data seg)) segs" "gw_conns g' = gw_conns g"
    "gw_popped g' = gw_popped g" "cx_reassembly ctx' = cx_reassembly (ctx\<lparr>cx_reassembly := b'\<rparr>)"
    "recv_seq (cx_tcp ctx') = recv_seq (cx_tcp (ctx\<lparr>cx_reassembly := b'\<rparr>)) + of_nat (length (delivered segs))"
    by (rule replay_ok [OF g(1) p(3) g(2)])
  have hb: "handled_bytes fd g' = handled_bytes fd g @ delivered segs" by (rule handled_bytes_append [OF r(3)])
  have rs: "recv_seq (cx_tcp ctx') = 1 + of_nat (length (handled_bytes fd g'))" using r(7) g(3) hb by (simp add: add.assoc)
  have "gw_stream st env b fd k seen ctx' g'"
    unfolding gw_stream_def gw_behind_def rs using r(2,6) p(1,2,5) gw_popped_starts [OF assms refl]
    by (simp add: hb [symmetric])
  with r(1,4,5) show ?thesis by blast
qed

lemma gw_data_stream:
  assumes "gw_stream st env b fd k seen ctx g" and "k < 2 ^ 20" and "p \<noteq> nullptr"
    and "mem_read (gw_mem g) p (unat len) = stream_slice st sq (unat len)" and "40 \<le> unat len" "unat len \<le> 2048"
  shows "\<exists>ctx' g'. gw_data env fd n sq p len ctx g = Some (ctx', g') \<and> gw_stream st env b fd (Suc k) (insert sq seen) ctx' g' \<and>
    gw_conns g' = gw_conns g \<and> gw_popped g' = gw_popped g"
proof (cases "sq = recv_seq (cx_tcp ctx)")
  case False
  obtain ctx' g' where r: "gw_buffer sq p len ctx g = (ctx', g')" by fastforce
  have "0 < len" using assms(5) by (auto simp: word_less_nat_alt)
  then have "gw_data env fd n sq p len ctx g = Some (ctx', g')" using False r by (simp add: gw_data_def)
  with gw_buffer_stream [OF assms(1) False assms(2-6) r] show ?thesis by blast
next
  case True
  let ?payload = "mem_read (gw_mem g) p (unat len)"
  have pl: "?payload = stream_slice st (recv_seq (cx_tcp ctx)) (length ?payload)" "40 \<le> length ?payload" "length ?payload \<le> 2048"
    using True assms(4-6) by simp_all
  have behind: "gw_behind st env b fd k seen ctx g" using assms(1) by (simp add: gw_stream_def)
  obtain ctx1 g1 where one: "process_order_payload env fd n ?payload ctx g = Some (ctx1, g1)"
    "gw_behind st env b fd (Suc k) (insert (recv_seq (cx_tcp ctx)) seen) ctx1 g1" "gw_conns g1 = gw_conns g" "gw_popped g1 = gw_popped g"
    by (rule gw_handle_stream [OF behind assms(2) pl])
  obtain m segs b' where pop: "pop_contiguous (recv_seq (cx_tcp ctx1)) (cx_reassembly ctx1) = (m, segs, b')" by (metis prod_cases3)
  define g2 where "g2 = (if m > 0 then g1\<lparr>gw_reorder_replayed_total := gw_reorder_replayed_total g1 + m\<rparr> else g1)"
  have behind2: "gw_behind st env b fd (Suc k) (insert sq seen) ctx1 g2"
    using one(2) True by (simp add: gw_behind_def g2_def gw_ready_def handled_bytes_def)
  have k: "Suc k \<le> 2 ^ 20" using assms(2) by simp
  obtain ctx' g' where r: "gw_replay env fd n segs (ctx1\<lparr>cx_reassembly := b'\<rparr>) g2 = Some (ctx', g')"
    "gw_stream st env b fd (Suc k) (insert sq seen) ctx' g'" "gw_conns g' = gw_conns g2" "gw_popped g' = gw_popped g2"
    using gw_replay_stream [OF behind2 k pop] by blast
  have "segs \<noteq> [] \<longrightarrow> m > 0" by (rule gw_popped_slices(4) [OF behind2 k pop refl])
  then have "gw_data env fd n sq p len ctx g = Some (ctx', g')"
    using True one(1) pop r(1) by (cases "m > 0") (auto simp: gw_data_def g2_def Let_def)
  with r(2-4) one(3,4) show ?thesis by (auto simp: g2_def)
qed

text \<open>
  Frames that arrive one after the other, each read and processed before the next: \<open>data_frame c payload\<close> is what
  \<^verbatim>\<open>create_data\<close> writes for the connection \<open>c\<close> of the sender.
\<close>

definition data_frame :: "TcpConnection \<Rightarrow> u8 list \<Rightarrow> u8 list" where
  "data_frame c payload = sealed_bytes (segment_header (local_port c) (remote_port c) (send_seq c) (recv_seq c) 24 (window_size c))
     payload (local_ip c) (remote_ip c)"

fun gw_receive :: "gateway_env \<Rightarrow> int \<Rightarrow> u8 list list \<Rightarrow> packet_ring \<times> gateway \<Rightarrow> (packet_ring \<times> gateway) option" where
  "gw_receive env fd [] s = Some s"
| "gw_receive env fd (frame # frames) s =
     (let (ring, g) = gw_on_read env fd (ReadBytes frame) s
      in case gw_drain env ring g of None \<Rightarrow> None | Some s \<Rightarrow> gw_receive env fd frames s)"

lemma length_data_frame [simp]: "length (data_frame c payload) = 20 + length payload"
  by (simp add: data_frame_def sealed_bytes_def Let_def)

lemma parse_port [simp]: "parse m (p\<lparr>pkt_port := x\<rparr>) = parse m p"
  by (simp add: parse_def Let_def)

text \<open>A frame and the bytes read with it: the header of the frame decides, and everything after it counts as payload.\<close>

lemma parse_frame_prefix:
  assumes "mem_read m buf (20 + length (payload @ extra)) = data_frame c payload @ extra" and "length (payload @ extra) \<le> 2028"
  obtains h where "parse m (mk_Packet buf (of_nat (20 + length (payload @ extra))) 0) = Some (h, buf + 20, of_nat (length (payload @ extra)))"
    "th_seq_num h = send_seq c" "\<not> is_malformed_header h" "\<not> has_fin h" "has_ack h" "\<not> has_syn h"
    "mem_read m (buf + 20) (length (payload @ extra)) = payload @ extra" "th_ack_num h = recv_seq c"
    "\<exists>x. th_window h = of_le [x, ucast (drop_bit 8 (window_size c))]"
proof -
  let ?h = "segment_header (local_port c) (remote_port c) (send_seq c) (recv_seq c) 24 (window_size c)" and ?n = "length (payload @ extra)"
  define ck where "ck = calculate_checksum (wire_header ?h @ payload) (local_ip c) (remote_ip c)"
  have fr: "mem_read m buf (20 + ?n) = (wire_header ?h @ payload @ extra)[16 := ucast (drop_bit 8 ck), 17 := ucast ck]"
    using assms(1) by (simp add: data_frame_def sealed_bytes_def ck_def Let_def list_update_append)
  have hd: "mem_read m buf 20 = (wire_header ?h)[16 := ucast (drop_bit 8 ck), 17 := ucast ck]"
    and pl: "mem_read m (buf + 20) ?n = payload @ extra"
    using arg_cong [OF fr, of "take 20"] arg_cong [OF fr, of "drop 20"] by (simp_all add: take_update_swap)
  have len: "(20 :: size_type) \<le> of_nat (20 + ?n)"
    using assms(2) by (simp add: word_le_nat_alt unat_of_nat_small del: of_nat_add length_append)
  have minus: "of_nat (20 + ?n) - 20 = (of_nat ?n :: size_type)" by simp
  show ?thesis
    by (rule that [OF parse_sealed [OF hd _ len, unfolded minus]])
      (use pl in \<open>simp_all add: flag_defs is_malformed_header_def\<close>, blast)
qed

lemmas parse_data_frame = parse_frame_prefix [where extra = "[]", unfolded append_Nil2]

text \<open>Reading pushes one packet that points to the local buffer; draining takes the packets out one by one.\<close>

definition gw_request_packet :: "gateway_env \<Rightarrow> int \<Rightarrow> nat \<Rightarrow> Packet" where
  "gw_request_packet env fd n = (mk_Packet (ge_buf env) (of_nat n) 0)\<lparr>pkt_port := of_int fd\<rparr>"

lemma gw_read_pushes:
  assumes "ring_inv (Suc n) ring" and "length (ring_contents ring) < unat (ring_capacity ring)" and "frame \<noteq> []"
  obtains ring' m where "gw_on_read env fd (ReadBytes frame) (ring, g) = (ring', g\<lparr>gw_mem := m\<rparr>)"
    "ring_contents ring' = ring_contents ring @ [gw_request_packet env fd (length frame)]" "ring_inv n ring'"
    "ring_capacity ring' = ring_capacity ring" "mem_read m (ge_buf env) (length frame) = frame"
proof -
  let ?p = "gw_request_packet env fd (length frame)" and ?m = "mem_write (mem_write (gw_mem g) (ge_buf env) (replicate 2048 0)) (ge_buf env) frame"
  obtain ok ring' where push: "ring_try_push ?p ring = (ok, ring')" by fastforce
  note sp = ring_push_spec [OF assms(1) push]
  have "gw_on_read env fd (ReadBytes frame) (ring, g) = (ring', g\<lparr>gw_mem := ?m\<rparr>)"
    using push assms(3) by (simp add: gw_on_read_def Let_def gw_request_packet_def)
  moreover have "ring_contents ring' = ring_contents ring @ [?p]" using sp(1) assms(2) by (simp add: spec_push_def)
  ultimately show ?thesis using sp(2,3) by (intro that [of ring' ?m]) simp_all
qed

lemma gw_drain_empty: "ring_inv n ring \<Longrightarrow> ring_contents ring = [] \<Longrightarrow> gw_drain env ring g = Some (ring, g)"
  by (simp add: gw_drain.simps [of env ring] ring_pop_empty)

lemma gw_drain_next:
  assumes "ring_inv n ring" and "ring_contents ring = p # ps"
  obtains ring' where "\<forall>g. gw_drain env ring g = (case gw_packet env (ring_size ring') p g of None \<Rightarrow> None | Some g \<Rightarrow> gw_drain env ring' g)"
    "ring_inv n ring'" "ring_contents ring' = ps"
proof -
  obtain x ring' where pop: "ring_try_pop ring = (x, ring')" by fastforce
  note pp = ring_pop_spec [OF assms(1) pop]
  have c: "x = Some p" "ring_contents ring' = ps" using pp(1) assms(2) by (simp_all add: spec_pop_def)
  with pop pp(2) show ?thesis by (intro that [of ring']) (simp_all add: gw_drain.simps [of env ring])
qed

lemma gw_receive_one:
  assumes "ring_inv (Suc n) ring" and "ring_contents ring = []"
    and "frame \<noteq> []" and "gw_on_read env fd (ReadBytes frame) (ring, g) = (ring1, g1)"
  obtains ring2 where "gw_drain env ring1 g1 =
      (case gw_packet env (ring_size ring2) (gw_request_packet env fd (length frame)) g1 of None \<Rightarrow> None | Some g2 \<Rightarrow> Some (ring2, g2))"
    "ring_inv n ring2" "ring_contents ring2 = []" "\<exists>m. g1 = g\<lparr>gw_mem := m\<rparr> \<and> mem_read m (ge_buf env) (length frame) = frame"
proof -
  have "length (ring_contents ring) < unat (ring_capacity ring)" using assms(2) ring_inv_capacity_pos [OF assms(1)] by simp
  then obtain m where r: "ring_contents ring1 = [gw_request_packet env fd (length frame)]" "ring_inv n ring1"
    "g1 = g\<lparr>gw_mem := m\<rparr>" "mem_read m (ge_buf env) (length frame) = frame"
    by (rule gw_read_pushes [OF assms(1) _ assms(3), of env fd g]) (use assms(2,4) in auto)
  obtain ring2 where d: "\<forall>g. gw_drain env ring1 g = (case gw_packet env (ring_size ring2) (gw_request_packet env fd (length frame)) g of
      None \<Rightarrow> None | Some g \<Rightarrow> gw_drain env ring2 g)" "ring_inv n ring2" "ring_contents ring2 = []"
    by (rule gw_drain_next [where env = env, OF r(2,1)])
  show ?thesis using spec [OF d(1), of g1] gw_drain_empty [OF d(2,3)] r(3,4) by (intro that [OF _ d(2,3)]) (auto split: option.split)
qed

lemma gw_stream_cong:
  "gw_pool g' = gw_pool g \<Longrightarrow> gw_handled g' = gw_handled g \<Longrightarrow> gw_stream st env b fd k seen ctx g' = gw_stream st env b fd k seen ctx g"
  by (simp add: gw_stream_def gw_behind_def gw_ready_def handled_bytes_def)

lemma gw_frame_prefix:
  assumes "ring_inv (Suc n) ring" and "ring_contents ring = []" and "0 \<le> fd" "fd < 65536" and "\<forall>i. \<not> ge_drop env i"
    and "map_of (gw_conns g) fd = Some ctx" and "0 < length (payload @ extra)" "length (payload @ extra) \<le> 2028"
  obtains ring' m where "gw_receive env fd [data_frame c payload @ extra] (ring, g) =
      (case gw_data env fd (ring_size ring') (send_seq c) (ge_buf env + 20) (of_nat (length (payload @ extra))) ctx
          (g\<lparr>gw_mem := m, gw_popped := Suc (gw_popped g)\<rparr>) of
         None \<Rightarrow> None | Some (ctx, g) \<Rightarrow> Some (ring', gw_store fd ctx g))"
    "ring_inv n ring'" "ring_contents ring' = []" "mem_read m (ge_buf env + 20) (length (payload @ extra)) = payload @ extra"
proof -
  obtain ring1 g1 where rd: "gw_on_read env fd (ReadBytes (data_frame c payload @ extra)) (ring, g) = (ring1, g1)" by fastforce
  let ?p = "gw_request_packet env fd (length (data_frame c payload @ extra))"
  have ne: "data_frame c payload @ extra \<noteq> []" using assms(7) length_data_frame [of c payload] by fastforce
  obtain ring2 m where dr: "gw_drain env ring1 g1 = (case gw_packet env (ring_size ring2) ?p g1 of None \<Rightarrow> None | Some g2 \<Rightarrow> Some (ring2, g2))"
    "ring_inv n ring2" "ring_contents ring2 = []" "g1 = g\<lparr>gw_mem := m\<rparr>" "mem_read m (ge_buf env) (20 + length (payload @ extra)) = data_frame c payload @ extra"
    by (rule gw_receive_one [OF assms(1,2) ne rd]) (auto simp: add.assoc)
  obtain h where h: "parse m (mk_Packet (ge_buf env) (of_nat (20 + length (payload @ extra))) 0) = Some (h, ge_buf env + 20, of_nat (length (payload @ extra)))"
    "th_seq_num h = send_seq c" "\<not> is_malformed_header h" "mem_read m (ge_buf env + 20) (length (payload @ extra)) = payload @ extra"
    by (rule parse_frame_prefix [OF dr(5) assms(8)])
  have len: "unat (of_nat (length (payload @ extra)) :: size_type) = length (payload @ extra)"
    using assms(8) by (simp add: unat_of_nat_small del: length_append)
  have nz: "(of_nat (length (payload @ extra)) :: size_type) \<noteq> 0" by (rule notI) (use len assms(7) in \<open>simp del: length_append\<close>)
  have fd: "uint (of_int fd :: u16) = fd" using assms(3,4) by (simp add: unsigned_of_int take_bit_int_eq_self)
  have "gw_packet env (ring_size ring2) ?p g1 =
      (case gw_data env fd (ring_size ring2) (send_seq c) (ge_buf env + 20) (of_nat (length (payload @ extra))) ctx
          (g\<lparr>gw_mem := m, gw_popped := Suc (gw_popped g)\<rparr>) of None \<Rightarrow> None | Some (ctx, g) \<Rightarrow> Some (gw_store fd ctx g))"
    using h(1-3) nz assms(5,6) dr(4) fd by (simp add: gw_packet_def gw_request_packet_def Let_def add.assoc)
  then show ?thesis using rd dr(1-3) h(4) by (intro that [of ring2 m]) (simp_all split: option.split)
qed

lemmas gw_frame_arrives = gw_frame_prefix [where extra = "[]", unfolded append_Nil2]

text \<open>A frame on one connection leaves the others as they are.\<close>

definition gw_only :: "int \<Rightarrow> gateway \<Rightarrow> gateway \<Rightarrow> bool" where
  "gw_only fd g g' \<longleftrightarrow> gw_conns g' = gw_conns g \<and> (\<exists>ps. gw_handled g' = gw_handled g @ map (Pair fd) ps)"

lemma gw_only_refl: "gw_conns g' = gw_conns g \<Longrightarrow> gw_handled g' = gw_handled g \<Longrightarrow> gw_only fd g g'"
  by (auto simp: gw_only_def)

lemma gw_only_trans: "gw_only fd g g' \<Longrightarrow> gw_only fd g' g'' \<Longrightarrow> gw_only fd g g''"
  unfolding gw_only_def by (metis append_assoc map_append)

lemma gw_send_only: "gw_send env fd build g = Some (pkt, nw, g') \<Longrightarrow> gw_only fd' g g'"
  by (rule gw_only_refl) (auto simp: gw_send_def split: option.splits if_splits prod.splits)

lemma process_only:
  assumes "process_order_payload env fd n payload ctx g = Some (ctx', g')"
  shows "gw_only fd g g'"
proof (cases "length payload < 40")
  case True
  then show ?thesis using assms by (simp add: process_order_payload_def gw_only_refl)
next
  case False
  obtain ack g1 where a: "gw_account env fd n payload g = (ack, g1)" by fastforce
  then have "gw_conns g1 = gw_conns g" "gw_handled g1 = gw_handled g @ map (Pair fd) [payload]"
    by (auto simp: gw_account_def Let_def split: if_splits prod.splits)
  then have g1: "gw_only fd g g1" unfolding gw_only_def by blast
  from assms False a obtain pkt nw g2 build where s: "gw_send env fd build g1 = Some (pkt, nw, g2)"
    "gw_conns g' = gw_conns g2" "gw_handled g' = gw_handled g2"
    by (auto simp: process_order_payload_def Let_def split: option.splits if_splits)
  from gw_only_trans [OF gw_only_trans [OF g1 gw_send_only [OF s(1)]] gw_only_refl [OF s(2,3)]] show ?thesis .
qed

lemma gw_replay_only: "gw_replay env fd n segs ctx g = Some (ctx', g') \<Longrightarrow> gw_only fd g g'"
  by (induction segs arbitrary: ctx g) (auto split: option.splits intro: gw_only_refl gw_only_trans dest!: process_only)

lemma gw_data_only:
  assumes "gw_data env fd n sq p len ctx g = Some (ctx', g')"
  shows "gw_only fd g g'"
proof (cases "len > 0 \<and> sq \<noteq> recv_seq (cx_tcp ctx)")
  case True
  with assms show ?thesis by (intro gw_only_refl) (auto simp: gw_data_def gw_buffer_def Let_def split: if_splits prod.splits)
next
  case False
  let ?replayed = "\<lambda>g1 k. g1\<lparr>gw_reorder_replayed_total := gw_reorder_replayed_total g1 + k\<rparr>"
  have "(case process_order_payload env fd n (mem_read (gw_mem g) p (unat len)) ctx g of None \<Rightarrow> None
    | Some (ctx, g) \<Rightarrow> let (k, segs, b) = pop_contiguous (recv_seq (cx_tcp ctx)) (cx_reassembly ctx); ctx = ctx\<lparr>cx_reassembly := b\<rparr>
        in if k > 0 then gw_replay env fd n segs ctx (?replayed g k) else Some (ctx, g)) = Some (ctx', g')"
    using assms by (simp only: gw_data_def if_not_P [OF False])
  then obtain ctx1 g1 segs ctx2 k where one: "process_order_payload env fd n (mem_read (gw_mem g) p (unat len)) ctx g = Some (ctx1, g1)"
    "g' = g1 \<or> gw_replay env fd n segs ctx2 (?replayed g1 k) = Some (ctx', g')"
    by (auto simp: Let_def split: option.splits prod.splits if_splits)
  have "gw_only fd g1 (?replayed g1 k)" by (rule gw_only_refl) simp_all
  with one(2) have "gw_only fd g1 g'" by (auto intro: gw_only_refl gw_only_trans dest!: gw_replay_only)
  with process_only [OF one(1)] show ?thesis by (rule gw_only_trans)
qed

lemma gw_frame_stream:
  assumes "ring_inv (Suc n) ring" and "ring_contents ring = []" and "0 \<le> fd" "fd < 65536" and "\<forall>i. \<not> ge_drop env i"
    and "map_of (gw_conns g) fd = Some ctx" and "gw_stream st env b fd k seen ctx g" and "k < 2 ^ 20"
    and "payload = stream_slice st (send_seq c) (length payload)" and "40 \<le> length payload" "length payload \<le> 2028"
  shows "\<exists>ring' g' g'' ctx'. gw_receive env fd [data_frame c payload] (ring, g) = Some (ring', g') \<and>
    ring_inv n ring' \<and> ring_contents ring' = [] \<and> g' = gw_store fd ctx' g'' \<and> gw_only fd g g'' \<and>
    gw_stream st env b fd (Suc k) (insert (send_seq c) seen) ctx' g'"
proof -
  let ?l = "of_nat (length payload) :: size_type"
  obtain ring' m where r: "gw_receive env fd [data_frame c payload] (ring, g) =
      (case gw_data env fd (ring_size ring') (send_seq c) (ge_buf env + 20) ?l ctx (g\<lparr>gw_mem := m, gw_popped := Suc (gw_popped g)\<rparr>) of
         None \<Rightarrow> None | Some (ctx, g) \<Rightarrow> Some (ring', gw_store fd ctx g))"
    "ring_inv n ring'" "ring_contents ring' = []" "mem_read m (ge_buf env + 20) (length payload) = payload"
    by (rule gw_frame_arrives [where payload = payload and c = c, OF assms(1-6) _ assms(11)]) (use assms(10) in auto)
  let ?g = "g\<lparr>gw_mem := m, gw_popped := Suc (gw_popped g)\<rparr>"
  have len: "unat ?l = length payload" using assms(11) by (simp add: unat_of_nat_small)
  have st: "gw_stream st env b fd k seen ctx ?g" using assms(7) gw_stream_cong [of ?g g] by simp
  have pl: "mem_read (gw_mem ?g) (ge_buf env + 20) (unat ?l) = stream_slice st (send_seq c) (unat ?l)" using r(4) assms(9) len by simp
  have l: "40 \<le> unat ?l" "unat ?l \<le> 2048" using len assms(10,11) by simp_all
  obtain ctx' g' where d: "gw_data env fd (ring_size ring') (send_seq c) (ge_buf env + 20) ?l ctx ?g = Some (ctx', g')"
    "gw_stream st env b fd (Suc k) (insert (send_seq c) seen) ctx' g'"
    using gw_data_stream [OF st assms(8) _ pl l, of "ring_size ring'"] by auto
  have "gw_only fd g g'" using gw_only_trans [OF _ gw_data_only [OF d(1)]] by (simp add: gw_only_refl)
  moreover have "gw_stream st env b fd (Suc k) (insert (send_seq c) seen) ctx' (gw_store fd ctx' g')"
    using d(2) gw_stream_cong [of "gw_store fd ctx' g'" g'] by (simp add: gw_store_def)
  ultimately show ?thesis using r(1-3) d(1) by auto
qed

lemma accept_fresh:
  assumes "gw_conns g = []"
  shows "gw_conns (gw_on_accept (Accepted fd port True) g) = [(fd, gw_new_connection port)]"
    "gw_pool (gw_on_accept (Accepted fd port True) g) = gw_pool g"
    "gw_handled (gw_on_accept (Accepted fd port True) g) = gw_handled g"
  using assms by (simp_all add: gw_on_accept_def Let_def)

section \<open>Several clients\<close>

text \<open>The accepting of several clients.\<close>

definition gw_accepts :: "(int \<Rightarrow> u16) \<Rightarrow> int list \<Rightarrow> gateway \<Rightarrow> gateway" where
  "gw_accepts port fds g = fold (\<lambda>fd. gw_on_accept (Accepted fd (port fd) True)) fds g"

text \<open>The gateway serves the stream \<open>st fd\<close> of every client; \<open>arrived\<close> lists the segments so far, with the descriptor each came on.\<close>

definition starts :: "(int \<times> TcpConnection \<times> u8 list) list \<Rightarrow> int \<Rightarrow> u32 set" where
  "starts arrived fd = {send_seq c | c payload. (fd, c, payload) \<in> set arrived}"

definition gw_clients ::
    "(int \<Rightarrow> u32 \<Rightarrow> u8) \<Rightarrow> gateway_env \<Rightarrow> ptr \<Rightarrow> int set \<Rightarrow> (int \<times> TcpConnection \<times> u8 list) list \<Rightarrow> gateway \<Rightarrow> bool" where
  "gw_clients st env b fds arrived g \<longleftrightarrow>
     (\<forall>fd \<in> fds. \<exists>ctx. map_of (gw_conns g) fd = Some ctx \<and> gw_stream (st fd) env b fd (length arrived) (starts arrived fd) ctx g)"

lemma starts_snoc: "starts (arrived @ [(fd, c, payload)]) fd' = (if fd' = fd then insert (send_seq c) (starts arrived fd') else starts arrived fd')"
  by (auto simp: starts_def)

lemma gw_only_bytes: "gw_only fd g g' \<Longrightarrow> fd' \<noteq> fd \<Longrightarrow> handled_bytes fd' g' = handled_bytes fd' g"
  by (auto simp: gw_only_def handled_bytes_def filter_map comp_def)

lemma gw_stream_other:
  assumes "gw_stream st env b fd k seen ctx g" and "handled_bytes fd g' = handled_bytes fd g" and "gw_ready env b g'"
  shows "gw_stream st env b fd (Suc k) seen ctx g'"
proof -
  have "gw_behind st env b fd (Suc k) seen ctx g'" using assms by (simp add: gw_stream_def gw_behind_def)
  with assms(1) show ?thesis unfolding gw_stream_def by blast
qed

lemma gw_turn_clients:
  assumes "ring_inv (Suc n) ring" and "ring_contents ring = []" and "fd \<in> {0..<65536}" and "\<forall>i. \<not> ge_drop env i"
    and "gw_clients st env b fds arrived g" and "fd \<in> fds" and "length arrived < 2 ^ 20"
    and "payload = stream_slice (st fd) (send_seq c) (length payload)" and "40 \<le> length payload" "length payload \<le> 2028"
  shows "\<exists>ring' g'. gw_receive env fd [data_frame c payload] (ring, g) = Some (ring', g') \<and> ring_inv n ring' \<and> ring_contents ring' = [] \<and>
    gw_clients st env b fds (arrived @ [(fd, c, payload)]) g' \<and> gw_ready env b g' \<and>
    (\<forall>fd'. fd' \<noteq> fd \<longrightarrow> map_of (gw_conns g') fd' = map_of (gw_conns g) fd' \<and> handled_bytes fd' g' = handled_bytes fd' g)"
proof -
  obtain ctx where ctx: "map_of (gw_conns g) fd = Some ctx" "gw_stream (st fd) env b fd (length arrived) (starts arrived fd) ctx g"
    using bspec [OF assms(5) [unfolded gw_clients_def] assms(6)] by blast
  have fd: "0 \<le> fd" "fd < 65536" using assms(3) by auto
  obtain ring' g' g'' ctx' where r: "gw_receive env fd [data_frame c payload] (ring, g) = Some (ring', g')" "ring_inv n ring'"
    "ring_contents ring' = []" "g' = gw_store fd ctx' g''" "gw_only fd g g''"
    "gw_stream (st fd) env b fd (Suc (length arrived)) (insert (send_seq c) (starts arrived fd)) ctx' g'"
    using gw_frame_stream [OF assms(1,2) fd assms(4) ctx assms(7-10)] by blast
  have ready: "gw_ready env b g'" using r(6) by (simp add: gw_stream_def gw_behind_def)
  have same: "map_of (gw_conns g') fd' = map_of (gw_conns g) fd'" "handled_bytes fd' g' = handled_bytes fd' g" if "fd' \<noteq> fd" for fd'
    using r(4,5) that gw_only_bytes [OF r(5) that]
    by (auto simp: gw_store_def gw_only_def update_conv' handled_bytes_def)
  have "\<exists>ctx. map_of (gw_conns g') fd' = Some ctx \<and>
      gw_stream (st fd') env b fd' (length (arrived @ [(fd, c, payload)])) (starts (arrived @ [(fd, c, payload)]) fd') ctx g'" if other: "fd' \<in> fds" for fd'
  proof (cases "fd' = fd")
    case True
    have "map_of (gw_conns g') fd = Some ctx'" using r(4) by (simp add: gw_store_def update_conv')
    with True r(6) show ?thesis by (simp add: starts_snoc)
  next
    case False
    obtain ctx2 where c2: "map_of (gw_conns g) fd' = Some ctx2" "gw_stream (st fd') env b fd' (length arrived) (starts arrived fd') ctx2 g"
      using bspec [OF assms(5) [unfolded gw_clients_def] other] by blast
    from gw_stream_other [OF c2(2) same(2) [OF False] ready] c2(1) same(1) [OF False] False show ?thesis by (simp add: starts_snoc)
  qed
  then show ?thesis using r(1-3) ready same unfolding gw_clients_def by blast
qed

text \<open>What the invariant of a connection says to its client.\<close>

lemma gw_stream_expects:
  assumes "gw_stream st env b fd k seen ctx g" and "k < 2 ^ 20"
  shows "handled_bytes fd g = stream_slice st 1 (length (handled_bytes fd g))"
    and "recv_seq (cx_tcp ctx) = 1 + of_nat (length (handled_bytes fd g))" and "recv_seq (cx_tcp ctx) \<notin> seen"
proof -
  let ?n = "length (handled_bytes fd g)"
  have behind: "gw_behind st env b fd k seen ctx g" and new: "recv_seq (cx_tcp ctx) \<notin> fst ` set (segments (cx_reassembly ctx))"
    using assms(1) unfolding gw_stream_def by blast+
  have f: "?n \<le> 2048 * k" "\<forall>sq \<in> seen. sq \<in> fst ` set (segments (cx_reassembly ctx)) \<or> (0 < unat sq \<and> unat sq \<le> ?n)"
    using behind by (simp_all add: gw_behind_def)
  show "handled_bytes fd g = stream_slice st 1 ?n" and rs: "recv_seq (cx_tcp ctx) = 1 + of_nat ?n"
    using behind by (simp_all add: gw_behind_def)
  have "unat (recv_seq (cx_tcp ctx)) = 1 + ?n"
    using f(1) assms(2) unat_of_nat_small [of "1 + ?n", where 'a = 32] by (simp add: rs)
  with f(2) new show "recv_seq (cx_tcp ctx) \<notin> seen" by fastforce
qed

lemma gw_accepts_spec:
  assumes "map_of (gw_conns g) = (\<lambda>_. None)"
  shows "gw_pool (gw_accepts port fds g) = gw_pool g" "gw_handled (gw_accepts port fds g) = gw_handled g"
    and "map_of (gw_conns (gw_accepts port fds g)) fd = (if fd \<in> set fds then Some (gw_new_connection (port fd)) else None)"
proof -
  have "gw_pool (gw_accepts port fds g) = gw_pool g \<and> gw_handled (gw_accepts port fds g) = gw_handled g \<and>
    (\<forall>fd. map_of (gw_conns (gw_accepts port fds g)) fd = (if fd \<in> set fds then Some (gw_new_connection (port fd)) else None))"
  proof (induction fds rule: rev_induct)
    case (snoc x fds)
    then show ?case by (auto simp: gw_accepts_def gw_on_accept_def Let_def map_add_def split: option.splits)
  qed (simp add: gw_accepts_def assms)
  then show "gw_pool (gw_accepts port fds g) = gw_pool g" "gw_handled (gw_accepts port fds g) = gw_handled g"
    and "map_of (gw_conns (gw_accepts port fds g)) fd = (if fd \<in> set fds then Some (gw_new_connection (port fd)) else None)" by blast+
qed

end
