(* ===== verification/Gateway_Turns.thy ===== *)
theory Gateway_Turns
  imports Gateway_Stream
begin

text \<open>
  Turns of the gateway's loop in which at most one connection is read, and what the whole loop makes of the byte streams of its clients in
  such turns: clients may connect at any time, also in a turn that reads, and a read may find nothing.
\<close>

section \<open>What a turn brings\<close>

text \<open>The descriptors that \<^verbatim>\<open>epoll\<close> reports in a turn, the outcomes of the accepts among them and of the reads, with their descriptors.\<close>

definition round_fds :: "gw_round \<Rightarrow> 32 word list" where
  "round_fds round =
     (case wait_with_options (EpollWaitOptions_default\<lparr>eo_timeout_ms := -1\<rparr>) False (gr_answers round) of
        None \<Rightarrow> [] | Some (_, evs) \<Rightarrow> map (\<lambda>ev. data_fd (ev_data ev)) evs)"

fun accepts_of :: "32 word \<Rightarrow> (nat \<Rightarrow> gw_accept) \<Rightarrow> nat \<Rightarrow> 32 word list \<Rightarrow> gw_accept list" where
  "accepts_of listen_fd acc i [] = []"
| "accepts_of listen_fd acc i (w # ws) = (if w = listen_fd then [acc i] else []) @ accepts_of listen_fd acc (Suc i) ws"

fun reads_of :: "32 word \<Rightarrow> (nat \<Rightarrow> gw_read) \<Rightarrow> nat \<Rightarrow> 32 word list \<Rightarrow> (int \<times> gw_read) list" where
  "reads_of listen_fd rd i [] = []"
| "reads_of listen_fd rd i (w # ws) = (if w = listen_fd then [] else [(sint w, rd i)]) @ reads_of listen_fd rd (Suc i) ws"

definition turn_accepts :: "32 word \<Rightarrow> gw_round \<Rightarrow> gw_accept list" where
  "turn_accepts listen_fd round = accepts_of listen_fd (gr_accept round) 0 (round_fds round)"

definition turn_reads :: "32 word \<Rightarrow> gw_round \<Rightarrow> (int \<times> gw_read) list" where
  "turn_reads listen_fd round = reads_of listen_fd (gr_read round) 0 (round_fds round)"

text \<open>A read that leaves the connection open.\<close>

fun read_open :: "gw_read \<Rightarrow> bool" where
  "read_open (ReadBytes bs) \<longleftrightarrow> bs \<noteq> []"
| "read_open (ReadError errno) \<longleftrightarrow> errno = EAGAIN \<or> errno = EWOULDBLOCK"

lemma read_accept_commute:
  assumes "read_open r"
  shows "gw_on_read env fd r (ring, gw_on_accept a g) = (fst (gw_on_read env fd r (ring, g)), gw_on_accept a (snd (gw_on_read env fd r (ring, g))))"
  using assms by (cases r; cases a) (simp_all add: gw_on_read_def gw_on_accept_def Let_def)

lemma read_accepts_commute:
  assumes "read_open r" and "gw_on_read env fd r (ring, g) = (ring', g')"
  shows "gw_on_read env fd r (ring, fold gw_on_accept accs g) = (ring', fold gw_on_accept accs g')"
  using assms(2)
proof (induction accs arbitrary: g g')
  case (Cons a accs)
  from read_accept_commute [OF assms(1), of env fd ring a g] Cons.prems Cons.IH show ?case by simp
qed simp

text \<open>In a turn with at most one read all accepts can be taken first.\<close>

lemma gw_events_none:
  assumes "reads_of listen_fd rd i (map (\<lambda>ev. data_fd (ev_data ev)) evs) = []"
  shows "gw_events env listen_fd acc rd i evs (ring, g) =
    (ring, fold gw_on_accept (accepts_of listen_fd acc i (map (\<lambda>ev. data_fd (ev_data ev)) evs)) g)"
  using assms by (induction evs arbitrary: i g) (simp_all add: Let_def split: if_splits)

lemma gw_events_one:
  assumes "reads_of listen_fd rd i (map (\<lambda>ev. data_fd (ev_data ev)) evs) = [(fd, r)]" and "read_open r"
  shows "gw_events env listen_fd acc rd i evs (ring, g) =
    gw_on_read env fd r (ring, fold gw_on_accept (accepts_of listen_fd acc i (map (\<lambda>ev. data_fd (ev_data ev)) evs)) g)"
  using assms(1)
proof (induction evs arbitrary: i g)
  case (Cons ev evs)
  show ?case
  proof (cases "data_fd (ev_data ev) = listen_fd")
    case True
    with Cons show ?thesis by (simp add: Let_def)
  next
    case False
    obtain ring' g' where r: "gw_on_read env fd r (ring, g) = (ring', g')" by fastforce
    have rest: "reads_of listen_fd rd (Suc i) (map (\<lambda>ev. data_fd (ev_data ev)) evs) = []" "sint (data_fd (ev_data ev)) = fd" "rd i = r"
      using Cons.prems False by simp_all
    show ?thesis using False r rest(2,3) gw_events_none [OF rest(1)] read_accepts_commute [OF assms(2) r] by (simp add: Let_def)
  qed
qed simp

lemma gateway_turn:
  assumes "round_fds round \<noteq> []"
  obtains evs where "map (\<lambda>ev. data_fd (ev_data ev)) evs = round_fds round"
    "\<forall>rounds s. gateway_main env listen_fd (round # rounds) s =
      (case gw_events env listen_fd (gr_accept round) (gr_read round) 0 evs s of (ring, g) \<Rightarrow>
        (case gw_drain env ring g of None \<Rightarrow> GwUndefined | Some s \<Rightarrow> gateway_main env listen_fd rounds s))"
proof -
  obtain r evs where w: "wait_with_options (EpollWaitOptions_default\<lparr>eo_timeout_ms := -1\<rparr>) False (gr_answers round) = Some (r, evs)"
    and evs: "map (\<lambda>ev. data_fd (ev_data ev)) evs = round_fds round"
    using assms by (auto simp: round_fds_def split: option.splits)
  then have "er_status r = EpollOk" using wait_result_shape(1) [OF w] assms by auto
  then have "un_status (epoll_to_unified_result r) = UnifiedOk" by (simp add: epoll_to_unified_result_def)
  then show thesis by (intro that [OF evs]) (simp add: w classify_loop_control_def Let_def split_beta)
qed

text \<open>What a turn does, when it reads nothing and when it reads one connection.\<close>

lemma turn_without_read:
  assumes "round_fds round \<noteq> []" and "turn_reads listen_fd round = []" and "ring_inv n ring" and "ring_contents ring = []"
  shows "gateway_main env listen_fd (round # rounds) (ring, g) =
    gateway_main env listen_fd rounds (ring, fold gw_on_accept (turn_accepts listen_fd round) g)"
proof -
  obtain evs where evs: "map (\<lambda>ev. data_fd (ev_data ev)) evs = round_fds round"
    "\<forall>rounds s. gateway_main env listen_fd (round # rounds) s =
      (case gw_events env listen_fd (gr_accept round) (gr_read round) 0 evs s of (ring, g) \<Rightarrow>
        (case gw_drain env ring g of None \<Rightarrow> GwUndefined | Some s \<Rightarrow> gateway_main env listen_fd rounds s))"
    using gateway_turn [OF assms(1)] by blast
  have "gw_events env listen_fd (gr_accept round) (gr_read round) 0 evs (ring, g) = (ring, fold gw_on_accept (turn_accepts listen_fd round) g)"
    using gw_events_none [of listen_fd "gr_read round" 0 evs] assms(2) evs(1) by (simp add: turn_accepts_def turn_reads_def)
  then show ?thesis using evs(2) gw_drain_empty [OF assms(3,4)] by simp
qed

lemma turn_with_read:
  assumes "round_fds round \<noteq> []" and "turn_reads listen_fd round = [(fd, r)]" and "read_open r"
  shows "gateway_main env listen_fd (round # rounds) (ring, g) =
    (case gw_on_read env fd r (ring, fold gw_on_accept (turn_accepts listen_fd round) g) of (ring, g) \<Rightarrow>
      (case gw_drain env ring g of None \<Rightarrow> GwUndefined | Some s \<Rightarrow> gateway_main env listen_fd rounds s))"
proof -
  obtain evs where evs: "map (\<lambda>ev. data_fd (ev_data ev)) evs = round_fds round"
    "\<forall>rounds s. gateway_main env listen_fd (round # rounds) s =
      (case gw_events env listen_fd (gr_accept round) (gr_read round) 0 evs s of (ring, g) \<Rightarrow>
        (case gw_drain env ring g of None \<Rightarrow> GwUndefined | Some s \<Rightarrow> gateway_main env listen_fd rounds s))"
    using gateway_turn [OF assms(1)] by blast
  have "gw_events env listen_fd (gr_accept round) (gr_read round) 0 evs (ring, g) =
      gw_on_read env fd r (ring, fold gw_on_accept (turn_accepts listen_fd round) g)"
    using gw_events_one [OF _ assms(3), of listen_fd "gr_read round" 0 evs] assms(2) evs(1) by (simp add: turn_accepts_def turn_reads_def)
  then show ?thesis using evs(2) by simp
qed

lemma turn_with_frame:
  assumes "round_fds round \<noteq> []" and "turn_reads listen_fd round = [(fd, ReadBytes frame)]" and "frame \<noteq> []"
  shows "gateway_main env listen_fd (round # rounds) (ring, g) =
    (case gw_receive env fd [frame] (ring, fold gw_on_accept (turn_accepts listen_fd round) g) of
       None \<Rightarrow> GwUndefined | Some s \<Rightarrow> gateway_main env listen_fd rounds s)"
  using turn_with_read [OF assms(1,2)] assms(3) by (simp add: split_beta split: option.split)

text \<open>A turn that only reads one connection, whatever the read returns.\<close>

lemma turn_reads_only:
  assumes "turn_accepts listen_fd round = []" and "turn_reads listen_fd round = [(fd, r)]"
  shows "gateway_main env listen_fd (round # rounds) s =
    (case gw_on_read env fd r s of (ring, g) \<Rightarrow>
      (case gw_drain env ring g of None \<Rightarrow> GwUndefined | Some s \<Rightarrow> gateway_main env listen_fd rounds s))"
proof -
  have "round_fds round \<noteq> []" using assms(2) by (auto simp: turn_reads_def)
  then obtain evs where evs: "map (\<lambda>ev. data_fd (ev_data ev)) evs = round_fds round"
    "\<forall>rounds s. gateway_main env listen_fd (round # rounds) s =
      (case gw_events env listen_fd (gr_accept round) (gr_read round) 0 evs s of (ring, g) \<Rightarrow>
        (case gw_drain env ring g of None \<Rightarrow> GwUndefined | Some s \<Rightarrow> gateway_main env listen_fd rounds s))"
    using gateway_turn by blast
  obtain ev rest where ev: "evs = ev # rest" using evs(1) assms(2) by (cases evs) (auto simp: turn_reads_def)
  then have one: "sint (data_fd (ev_data ev)) = fd" "gr_read round 0 = r" "data_fd (ev_data ev) \<noteq> listen_fd"
    "reads_of listen_fd (gr_read round) 1 (map (\<lambda>ev. data_fd (ev_data ev)) rest) = []"
    "accepts_of listen_fd (gr_accept round) 1 (map (\<lambda>ev. data_fd (ev_data ev)) rest) = []"
    using assms by (simp_all add: turn_reads_def turn_accepts_def flip: evs(1) split: if_splits)
  have "gw_events env listen_fd (gr_accept round) (gr_read round) 0 evs s = gw_on_read env fd r s"
    using one gw_events_none [OF one(4)] by (cases s; cases "gw_on_read env fd r s") (simp add: ev Let_def)
  then show ?thesis by (simp only: evs(2) [rule_format])
qed

text \<open>
  The turns of the loop when one client connects, in the first turn, and then each of the byte strings \<open>frames\<close> is returned by a read
  of its own on that connection, in a turn of its own.
\<close>

fun client_turns :: "32 word \<Rightarrow> int \<Rightarrow> u16 \<Rightarrow> u8 list list \<Rightarrow> gw_round list \<Rightarrow> bool" where
  "client_turns listen_fd fd port frames [] \<longleftrightarrow> False"
| "client_turns listen_fd fd port frames (round # rounds) \<longleftrightarrow>
     turn_accepts listen_fd round = [Accepted fd port True] \<and> turn_reads listen_fd round = [] \<and>
     list_all2 (\<lambda>round frame. turn_accepts listen_fd round = [] \<and> turn_reads listen_fd round = [(fd, ReadBytes frame)]) rounds frames"

lemma reading_turns:
  assumes "list_all2 (\<lambda>round frame. turn_accepts listen_fd round = [] \<and> turn_reads listen_fd round = [(fd, ReadBytes frame)]) rounds frames"
  shows "gateway_main env listen_fd rounds s = (case gw_receive env fd frames s of None \<Rightarrow> GwUndefined | Some s \<Rightarrow> GwRunning s)"
  using assms
proof (induction rounds frames arbitrary: s rule: list_all2_induct)
  case (Cons round rounds frame frames)
  from turn_reads_only [of listen_fd round fd] Cons.hyps(1) Cons.IH show ?case
    by (simp add: split_beta Let_def del: gateway_main.simps split: option.split)
qed simp

lemma loop_receives:
  assumes "gateway_init mmap t m = Some (ring, g)" and "client_turns listen_fd fd port frames rounds"
    and "gw_receive env fd frames (ring, gw_on_accept (Accepted fd port True) g) = Some (ring', g')"
  shows "gateway_main env listen_fd rounds (ring, g) = GwRunning (ring', g')"
proof -
  obtain round rest where rounds: "rounds = round # rest" using assms(2) by (cases rounds) simp_all
  have "ring = PacketRing 64" using assms(1) by (auto simp: gateway_init_def split: zc_result.splits option.splits)
  then have ring: "ring_inv 0 ring" "ring_contents ring = []" using PacketRing_inv [of 64 0] by simp_all
  have fds: "round_fds round \<noteq> []" using assms(2) rounds by (auto simp: turn_accepts_def)
  show ?thesis
    using assms(2,3) reading_turns [of listen_fd fd rest frames env] turn_without_read [OF fds _ ring, of listen_fd env rest g]
    by (simp add: rounds del: gateway_main.simps)
qed

section \<open>The invariant of the loop\<close>

text \<open>The clients that connect in a turn, and the gateway serving the connections \<open>F\<close>.\<close>

definition new_clients :: "32 word \<Rightarrow> gw_round \<Rightarrow> int set" where
  "new_clients listen_fd round = {fd. \<exists>port. Accepted fd port True \<in> set (turn_accepts listen_fd round)}"

definition gw_serving ::
    "(int \<Rightarrow> u32 \<Rightarrow> u8) \<Rightarrow> gateway_env \<Rightarrow> ptr \<Rightarrow> int set \<Rightarrow> (int \<times> TcpConnection \<times> u8 list) list \<Rightarrow> gateway \<Rightarrow> bool" where
  "gw_serving st env b F arrived g \<longleftrightarrow> gw_ready env b g \<and> dom (map_of (gw_conns g)) = F \<and> gw_clients st env b F arrived g \<and>
     (\<forall>fd. fd \<notin> F \<longrightarrow> handled_bytes fd g = [] \<and> starts arrived fd = {})"

lemma serving_same:
  assumes "gw_serving st env b F arrived g" and "gw_pool g' = gw_pool g" "gw_conns g' = gw_conns g" "gw_handled g' = gw_handled g"
  shows "gw_serving st env b F arrived g'"
proof -
  have hb: "handled_bytes x g' = handled_bytes x g" for x using assms(4) by (simp add: handled_bytes_def)
  have ready: "gw_ready env b g' = gw_ready env b g" using assms(2) by (simp add: gw_ready_def)
  show ?thesis using assms(1) by (simp add: gw_serving_def gw_clients_def hb ready assms(3) gw_stream_cong [OF assms(2,4)])
qed

lemma serving_accept:
  assumes "gw_serving st env b F arrived g"
  shows "gw_serving st env b (F \<union> {fd. \<exists>port. a = Accepted fd port True}) arrived (gw_on_accept a g)"
proof (cases "\<exists>fd port. a = Accepted fd port True \<and> fd \<notin> F")
  case True
  then obtain fd port where a: "a = Accepted fd port True" "fd \<notin> F" by blast
  let ?g = "gw_on_accept a g"
  have none: "map_of (gw_conns g) fd = None" using a(2) assms by (auto simp: gw_serving_def)
  then have conns: "map_of (gw_conns ?g) = (map_of (gw_conns g))(fd \<mapsto> gw_new_connection port)"
    using a(1) by (auto simp: gw_on_accept_def Let_def map_add_def split: option.splits)
  have same: "gw_pool ?g = gw_pool g" "gw_handled ?g = gw_handled g" using a(1) by (simp_all add: gw_on_accept_def Let_def)
  then have hb: "handled_bytes x ?g = handled_bytes x g" for x by (simp add: handled_bytes_def)
  have ready: "gw_ready env b ?g" using assms same(1) by (simp add: gw_serving_def gw_ready_def)
  have "handled_bytes fd g = []" "starts arrived fd = {}" using assms a(2) by (simp_all add: gw_serving_def)
  then have new: "gw_stream (st fd) env b fd (length arrived) (starts arrived fd) (gw_new_connection port) ?g"
    using ready hb by (simp add: gw_stream_def gw_behind_def gw_new_connection_def reassembly_empty_def reassembly_inv_def slices_of_def stream_slice_def)
  have clients: "gw_clients st env b F arrived g" using assms by (simp add: gw_serving_def)
  have old: "\<exists>ctx. map_of (gw_conns ?g) x = Some ctx \<and> gw_stream (st x) env b x (length arrived) (starts arrived x) ctx ?g" if x: "x \<in> F" for x
  proof -
    obtain ctx where "map_of (gw_conns g) x = Some ctx" "gw_stream (st x) env b x (length arrived) (starts arrived x) ctx g"
      using bspec [OF clients [unfolded gw_clients_def] x] by (elim exE conjE)
    moreover have "x \<noteq> fd" using a(2) x by blast
    ultimately show ?thesis by (simp add: conns gw_stream_cong [OF same])
  qed
  have "map_of (gw_conns ?g) fd = Some (gw_new_connection port)" by (simp add: conns)
  with new old have "gw_clients st env b (insert fd F) arrived ?g" unfolding gw_clients_def by blast
  moreover have "F \<union> {fd. \<exists>port. a = Accepted fd port True} = insert fd F" using a(1) by auto
  moreover have "dom (map_of (gw_conns ?g)) = insert fd F" "\<forall>x. x \<notin> insert fd F \<longrightarrow> handled_bytes x ?g = [] \<and> starts arrived x = {}"
    using assms hb by (simp_all add: gw_serving_def conns)
  ultimately show ?thesis using ready by (simp only: gw_serving_def simp_thms)
next
  case False
  then have F: "F \<union> {fd. \<exists>port. a = Accepted fd port True} = F" by auto
  have "map_of (gw_conns g) fd = None \<Longrightarrow> fd \<notin> F" for fd using assms by (auto simp: gw_serving_def)
  then have "gw_conns (gw_on_accept a g) = gw_conns g"
    using False by (cases a) (auto simp: gw_on_accept_def Let_def)
  moreover have "gw_pool (gw_on_accept a g) = gw_pool g" "gw_handled (gw_on_accept a g) = gw_handled g"
    by (cases a; simp add: gw_on_accept_def Let_def)+
  ultimately show ?thesis using serving_same [OF assms] F by simp
qed

lemma serving_accepts:
  "gw_serving st env b F arrived g \<Longrightarrow>
    gw_serving st env b (F \<union> {fd. \<exists>port. Accepted fd port True \<in> set accs}) arrived (fold gw_on_accept accs g)"
proof (induction accs arbitrary: F g)
  case (Cons a accs)
  have "F \<union> {fd. \<exists>port. a = Accepted fd port True} \<union> {fd. \<exists>port. Accepted fd port True \<in> set accs} =
    F \<union> {fd. \<exists>port. Accepted fd port True \<in> set (a # accs)}" by auto
  with Cons.IH [OF serving_accept [OF Cons.prems, of a]] show ?case by simp
qed simp

text \<open>
  What a turn may bring: \<open>[]\<close> when nothing is read (no connection is ready, or the read would block), \<open>[(fd, c, payload)]\<close> when the one
  connection read is \<open>fd\<close> and the read returns one data frame, with the payload at its place in the stream of the client.
\<close>

fun turn_brings ::
    "32 word \<Rightarrow> (int \<Rightarrow> u32 \<Rightarrow> u8) \<Rightarrow> int set \<Rightarrow> gw_round \<Rightarrow> (int \<times> TcpConnection \<times> u8 list) list \<Rightarrow> bool" where
  "turn_brings listen_fd st F round [] \<longleftrightarrow> round_fds round \<noteq> [] \<and>
     (turn_reads listen_fd round = [] \<or> (\<exists>fd. turn_reads listen_fd round = [(fd, ReadError EAGAIN)]))"
| "turn_brings listen_fd st F round [(fd, c, payload)] \<longleftrightarrow>
     turn_reads listen_fd round = [(fd, ReadBytes (data_frame c payload))] \<and> fd \<in> F \<union> new_clients listen_fd round \<and> fd \<in> {0..<65536} \<and>
     payload = stream_slice (st fd) (send_seq c) (length payload) \<and> 40 \<le> length payload \<and> length payload \<le> 2028"
| "turn_brings listen_fd st F round _ \<longleftrightarrow> False"

fun turns_bring ::
    "32 word \<Rightarrow> (int \<Rightarrow> u32 \<Rightarrow> u8) \<Rightarrow> int set \<Rightarrow> gw_round list \<Rightarrow> (int \<times> TcpConnection \<times> u8 list) list list \<Rightarrow> bool" where
  "turns_bring listen_fd st F [] [] \<longleftrightarrow> True"
| "turns_bring listen_fd st F (round # rounds) (arrival # arrivals) \<longleftrightarrow>
     turn_brings listen_fd st F round arrival \<and> turns_bring listen_fd st (F \<union> new_clients listen_fd round) rounds arrivals"
| "turns_bring listen_fd st F _ _ \<longleftrightarrow> False"

lemma serving_turn:
  assumes "\<forall>i. \<not> ge_drop env i" and "turn_brings listen_fd st F round arrival" and "gw_serving st env b F arrived g"
    and "ring_inv (Suc n) ring" and "ring_contents ring = []" and "length arrived < 2 ^ 20"
  obtains ring' g' where "\<forall>rounds. gateway_main env listen_fd (round # rounds) (ring, g) = gateway_main env listen_fd rounds (ring', g')"
    "ring_inv n ring'" "ring_contents ring' = []" "gw_serving st env b (F \<union> new_clients listen_fd round) (arrived @ arrival) g'"
proof -
  let ?F = "F \<union> new_clients listen_fd round" and ?g = "fold gw_on_accept (turn_accepts listen_fd round) g"
  have fds: "round_fds round \<noteq> []" using assms(2) by (cases rule: turn_brings.elims(2)) (auto simp: turn_reads_def)
  have acc: "gw_serving st env b ?F arrived ?g" using serving_accepts [OF assms(3)] by (simp add: new_clients_def)
  have ring: "ring_inv n ring" using assms(4) by (rule ring_inv_mono) simp
  consider (quiet) "arrival = []" "turn_reads listen_fd round = []"
    | (blocked) fd where "arrival = []" "turn_reads listen_fd round = [(fd, ReadError EAGAIN)]"
    | (frame) fd c payload where "arrival = [(fd, c, payload)]" "turn_reads listen_fd round = [(fd, ReadBytes (data_frame c payload))]"
        "fd \<in> ?F" "fd \<in> {0..<65536}" "payload = stream_slice (st fd) (send_seq c) (length payload)" "40 \<le> length payload" "length payload \<le> 2028"
    using assms(2) by (cases rule: turn_brings.elims(2)) auto
  then show thesis
  proof cases
    case quiet
    show thesis
      by (rule that [OF _ ring assms(5)]) (use turn_without_read [OF fds quiet(2) assms(4,5)] acc quiet(1) in simp_all)
  next
    case blocked
    let ?g' = "?g\<lparr>gw_mem := mem_write (gw_mem ?g) (ge_buf env) (replicate 2048 0)\<rparr>"
    have "gw_on_read env fd (ReadError EAGAIN) (ring, ?g) = (ring, ?g')" by (simp add: gw_on_read_def Let_def)
    then have "\<forall>rounds. gateway_main env listen_fd (round # rounds) (ring, g) = gateway_main env listen_fd rounds (ring, ?g')"
      using turn_with_read [OF fds blocked(2)] gw_drain_empty [OF assms(4,5)] by simp
    moreover have "gw_serving st env b ?F (arrived @ arrival) ?g'" unfolding blocked(1) append_Nil2 by (rule serving_same [OF acc]) simp_all
    ultimately show thesis using that ring assms(5) by blast
  next
    case frame
    have clients: "gw_clients st env b ?F arrived ?g" using acc by (simp add: gw_serving_def)
    have ne: "data_frame c payload \<noteq> []" using frame(6) length_data_frame [of c payload] by fastforce
    obtain ring' g' where r: "gw_receive env fd [data_frame c payload] (ring, ?g) = Some (ring', g')" "ring_inv n ring'" "ring_contents ring' = []"
      "gw_clients st env b ?F (arrived @ [(fd, c, payload)]) g'" "gw_ready env b g'"
      "\<forall>fd'. fd' \<noteq> fd \<longrightarrow> map_of (gw_conns g') fd' = map_of (gw_conns ?g) fd' \<and> handled_bytes fd' g' = handled_bytes fd' ?g"
      using gw_turn_clients [OF assms(4,5) frame(4) assms(1) clients frame(3) assms(6) frame(5-7)] by (elim exE conjE)
    have "map_of (gw_conns g') fd \<noteq> None" using r(4) frame(3) unfolding gw_clients_def by (metis option.distinct(1))
    then have "x \<in> dom (map_of (gw_conns g')) \<longleftrightarrow> x \<in> ?F" for x
      using r(6) frame(3) acc by (cases "x = fd") (auto simp: gw_serving_def domIff)
    then have "dom (map_of (gw_conns g')) = ?F" by blast
    moreover have "\<forall>x. x \<notin> ?F \<longrightarrow> handled_bytes x g' = [] \<and> starts (arrived @ [(fd, c, payload)]) x = {}"
      using r(6) acc frame(3) by (auto simp: gw_serving_def starts_snoc)
    ultimately have "gw_serving st env b ?F (arrived @ arrival) g'" using r(4,5) frame(1) by (simp only: gw_serving_def simp_thms)
    moreover have "\<forall>rounds. gateway_main env listen_fd (round # rounds) (ring, g) = gateway_main env listen_fd rounds (ring', g')"
      using turn_with_frame [OF fds frame(2) ne] r(1) by simp
    ultimately show thesis using that r(2,3) by blast
  qed
qed

lemma turns_serve:
  assumes "\<forall>i. \<not> ge_drop env i" and "turns_bring listen_fd st F rounds arrivals" and "gw_serving st env b F arrived g"
    and "ring_inv (length rounds) ring" and "ring_contents ring = []" and "length arrived + length rounds < 2 ^ 20"
  shows "\<exists>ring' g'. gateway_main env listen_fd rounds (ring, g) = GwRunning (ring', g') \<and>
    gw_serving st env b (F \<union> (\<Union>round \<in> set rounds. new_clients listen_fd round)) (arrived @ concat arrivals) g' \<and>
    length (arrived @ concat arrivals) \<le> length arrived + length rounds"
  using assms(2-6)
proof (induction listen_fd st F rounds arrivals arbitrary: arrived ring g rule: turns_bring.induct)
  case (2 listen_fd st F round rounds arrival arrivals)
  have br: "turn_brings listen_fd st F round arrival" "turns_bring listen_fd st (F \<union> new_clients listen_fd round) rounds arrivals"
    using 2(2) by simp_all
  have inv: "ring_inv (Suc (length rounds)) ring" and k: "length arrived < 2 ^ 20" using 2(4,6) by simp_all
  obtain ring1 g1 where one: "\<forall>rounds. gateway_main env listen_fd (round # rounds) (ring, g) = gateway_main env listen_fd rounds (ring1, g1)"
    "ring_inv (length rounds) ring1" "ring_contents ring1 = []" "gw_serving st env b (F \<union> new_clients listen_fd round) (arrived @ arrival) g1"
    by (rule serving_turn [OF assms(1) br(1) 2(3) inv 2(5) k])
  have len: "length arrival \<le> 1" using br(1) by (cases rule: turn_brings.elims(2)) auto
  then have "length (arrived @ arrival) + length rounds < 2 ^ 20" using 2(6) by simp
  from 2(1) [OF br(2) one(4,2,3) this] one(1) len show ?case by (auto simp: Un_assoc simp del: gateway_main.simps)
qed simp_all

section \<open>In-order processing by the loop\<close>

text \<open>
  \<^bold>\<open>C2\<close>. From its start the main loop of the gateway processes the byte stream of every client in order and exactly once, for every run
  in which a turn reads at most one connection and a read returns one data frame or would block, the payload of the frame being a slice of
  the stream of 40 to 2028 bytes, with no connection dropped by option and no control frames, over fewer than \<open>2\<^sup>2\<^sup>0\<close> turns. Clients may
  connect in any turn, take turns in any way, and send their segments in any order and any number of times: the loop is still running at the
  end (no undefined behaviour, no exit), exactly the clients that connected are registered, the payloads processed on a connection
  are a prefix of that client's stream from sequence number 1, the number expected is the one after them, and no segment that
  has arrived on the connection starts there, so nothing that could be processed is left out.\<close>

theorem gateway_in_order:
  assumes "mmap 4608 False = Some base" and "0 < base" and "ge_ack env + 24 \<le> base + 36 \<or> base + 80 \<le> ge_ack env"
    and "gateway_init mmap t m = Some (ring, g)" and "\<forall>i. \<not> ge_drop env i" and "length rounds < 2 ^ 20"
    and "turns_bring listen_fd st {} rounds arrivals"
  shows "\<exists>ring' g'. gateway_main env listen_fd rounds (ring, g) = GwRunning (ring', g') \<and>
    dom (map_of (gw_conns g')) = (\<Union>round \<in> set rounds. new_clients listen_fd round) \<and>
    (\<forall>fd ctx. map_of (gw_conns g') fd = Some ctx \<longrightarrow>
       handled_bytes fd g' = stream_slice (st fd) 1 (length (handled_bytes fd g')) \<and>
       recv_seq (cx_tcp ctx) = 1 + of_nat (length (handled_bytes fd g')) \<and>
       (\<forall>c payload. [(fd, c, payload)] \<in> set arrivals \<longrightarrow> send_seq c \<noteq> recv_seq (cx_tcp ctx)))"
proof -
  obtain g0 where g0: "gateway_init mmap t m = Some (PacketRing 64, g0)" "gw_ready env (base + 36) g0" "gw_conns g0 = []"
    "gw_handled g0 = []" by (rule gateway_init_ready [where mmap = mmap, OF assms(1-3)])
  have eq: "ring = PacketRing 64" "g = g0" using assms(4) g0(1) by auto
  have ring: "ring_inv (length rounds) ring" "ring_contents ring = []" using PacketRing_inv [of 64 "length rounds"] assms(6) eq by simp_all
  have start: "gw_serving st env (base + 36) {} [] g"
    using g0(2-4) eq by (simp add: gw_serving_def gw_clients_def handled_bytes_def starts_def)
  have few: "length [] + length rounds < 2 ^ 20" using assms(6) by simp
  obtain ring' g' where r: "gateway_main env listen_fd rounds (ring, g) = GwRunning (ring', g')"
    "gw_serving st env (base + 36) (\<Union>round \<in> set rounds. new_clients listen_fd round) (concat arrivals) g'" "length (concat arrivals) \<le> length rounds"
    using turns_serve [OF assms(5,7) start ring few] by auto
  then have dom: "dom (map_of (gw_conns g')) = (\<Union>round \<in> set rounds. new_clients listen_fd round)"
    and clients: "gw_clients st env (base + 36) (\<Union>round \<in> set rounds. new_clients listen_fd round) (concat arrivals) g'"
    by (simp_all add: gw_serving_def)
  have "handled_bytes fd g' = stream_slice (st fd) 1 (length (handled_bytes fd g')) \<and>
      recv_seq (cx_tcp ctx) = 1 + of_nat (length (handled_bytes fd g')) \<and>
      (\<forall>c payload. [(fd, c, payload)] \<in> set arrivals \<longrightarrow> send_seq c \<noteq> recv_seq (cx_tcp ctx))" if ctx: "map_of (gw_conns g') fd = Some ctx" for fd ctx
  proof -
    have "fd \<in> (\<Union>round \<in> set rounds. new_clients listen_fd round)" unfolding dom [symmetric] using ctx by (rule domI)
    from bspec [OF clients [unfolded gw_clients_def] this] ctx
    have st: "gw_stream (st fd) env (base + 36) fd (length (concat arrivals)) (starts (concat arrivals) fd) ctx g'" by simp
    have "length (concat arrivals) < 2 ^ 20" using r(3) assms(6) by simp
    note f = gw_stream_expects [OF st this]
    have "send_seq c \<noteq> recv_seq (cx_tcp ctx)" if seg: "[(fd, c, payload)] \<in> set arrivals" for c payload
    proof -
      have "(fd, c, payload) \<in> set (concat arrivals)" using seg by force
      then have "send_seq c \<in> starts (concat arrivals) fd" unfolding starts_def by blast
      with f(3) show ?thesis by metis
    qed
    with f(1,2) show ?thesis by blast
  qed
  with r(1) dom show ?thesis by blast
qed

text \<open>
  Two clients: the second connects in the turn that reads the second segment of the first, then one of the second client arrives,
  a read would block, and the first segment of the first client arrives.
\<close>

definition ex_gw_turn :: "64 word list \<Rightarrow> gw_accept \<Rightarrow> gw_read \<Rightarrow> gw_round" where
  "ex_gw_turn fds acc rd = \<lparr>gr_answers = [\<lparr>ea_result = Inl (map (\<lambda>fd. \<lparr>ev_events = 1, ev_data = fd\<rparr>) fds), ea_cancel = False\<rparr>],
     gr_accept = \<lambda>_. acc, gr_read = \<lambda>_. rd\<rparr>"

lemma ex_gw_turn_fds:
  "round_fds (ex_gw_turn [3] acc rd) = [3]" "round_fds (ex_gw_turn [3, 5] acc rd) = [3, 5]" "round_fds (ex_gw_turn [5] acc rd) = [5]"
  "round_fds (ex_gw_turn [6] acc rd) = [6]"
proof -
  let ?w = "\<lambda>fds. wait_with_options (EpollWaitOptions_default\<lparr>eo_timeout_ms := -1\<rparr>) False
    [\<lparr>ea_result = Inl (map (\<lambda>fd. \<lparr>ev_events = 1, ev_data = fd\<rparr>) fds), ea_cancel = False\<rparr>]"
  have fds: "map (\<lambda>ev. data_fd (ev_data ev)) (snd (the (?w [3]))) = [3]" "map (\<lambda>ev. data_fd (ev_data ev)) (snd (the (?w [3, 5]))) = [3, 5]"
    "map (\<lambda>ev. data_fd (ev_data ev)) (snd (the (?w [5]))) = [5]" "map (\<lambda>ev. data_fd (ev_data ev)) (snd (the (?w [6]))) = [6]"
    by code_simp+
  have "?w [3] \<noteq> None" "?w [3, 5] \<noteq> None" "?w [5] \<noteq> None" "?w [6] \<noteq> None" by code_simp+
  with fds show "round_fds (ex_gw_turn [3] acc rd) = [3]" "round_fds (ex_gw_turn [3, 5] acc rd) = [3, 5]" "round_fds (ex_gw_turn [5] acc rd) = [5]"
    "round_fds (ex_gw_turn [6] acc rd) = [6]"
    by (auto simp: round_fds_def ex_gw_turn_def)
qed

definition ex_gw_turns :: "gw_round list" where
  "ex_gw_turns = [ex_gw_turn [3] (Accepted 5 0 True) (ReadError 11),
     ex_gw_turn [3, 5] (Accepted 6 0 True) (ReadBytes (data_frame (TcpConnection_default\<lparr>send_seq := 41\<rparr>) (replicate 40 0))),
     ex_gw_turn [6] AcceptFailed (ReadBytes (data_frame (TcpConnection_default\<lparr>send_seq := 1\<rparr>) (replicate 40 1))),
     ex_gw_turn [6] AcceptFailed (ReadError 11),
     ex_gw_turn [5] AcceptFailed (ReadBytes (data_frame (TcpConnection_default\<lparr>send_seq := 1\<rparr>) (replicate 40 0)))]"

theorem gateway_in_order_witness:
  "\<exists>ring g ring' g'. gateway_init ex_mmap 0 (\<lambda>_. 0) = Some (ring, g) \<and> gateway_main ex_env 3 ex_gw_turns (ring, g) = GwRunning (ring', g') \<and>
     dom (map_of (gw_conns g')) = {5, 6} \<and> handled_bytes 5 g' = replicate (length (handled_bytes 5 g')) 0 \<and> handled_bytes 5 g' \<noteq> []"
proof -
  obtain g where g: "gateway_init ex_mmap 0 (\<lambda>_. 0) = Some (PacketRing 64, g)" by (rule ex_start)
  let ?st = "\<lambda>fd _. if fd = (5 :: int) then 0 else 1 :: u8"
  let ?arrivals = "[[], [(5, TcpConnection_default\<lparr>send_seq := 41\<rparr>, replicate 40 0)], [(6, TcpConnection_default\<lparr>send_seq := 1\<rparr>, replicate 40 1)], [],
    [(5, TcpConnection_default\<lparr>send_seq := 1\<rparr>, replicate 40 (0 :: u8))]]"
  have new: "(\<Union>round \<in> set ex_gw_turns. new_clients 3 round) = {5, 6}"
    by (auto simp: ex_gw_turns_def new_clients_def turn_accepts_def ex_gw_turn_fds) (auto simp: ex_gw_turn_def)
  have h: "ex_mmap 4608 False = Some 65536" "(0 :: nat) < 65536" "ge_ack ex_env + 24 \<le> 65536 + 36 \<or> 65536 + 80 \<le> ge_ack ex_env"
    "\<forall>i. \<not> ge_drop ex_env i" "length ex_gw_turns < 2 ^ 20"
    by (simp_all add: ex_mmap_def ex_env_def ex_gw_turns_def)
  have br: "turns_bring 3 ?st {} ex_gw_turns ?arrivals"
    by (simp add: ex_gw_turns_def new_clients_def turn_accepts_def turn_reads_def ex_gw_turn_fds)
      (simp add: ex_gw_turn_def stream_slice_def map_replicate_const)
  from gateway_in_order [OF h(1-3) g h(4,5) br] obtain ring' g' where
    r: "gateway_main ex_env 3 ex_gw_turns (PacketRing 64, g) = GwRunning (ring', g')" "dom (map_of (gw_conns g')) = {5, 6}"
    and each: "\<forall>fd ctx. map_of (gw_conns g') fd = Some ctx \<longrightarrow>
       handled_bytes fd g' = stream_slice (?st fd) 1 (length (handled_bytes fd g')) \<and>
       recv_seq (cx_tcp ctx) = 1 + of_nat (length (handled_bytes fd g')) \<and>
       (\<forall>c payload. [(fd, c, payload)] \<in> set ?arrivals \<longrightarrow> send_seq c \<noteq> recv_seq (cx_tcp ctx))"
    unfolding new by (elim exE conjE)
  obtain ctx where ctx: "map_of (gw_conns g') 5 = Some ctx" using r(2) by blast
  note five = each [rule_format, OF ctx]
  have "recv_seq (cx_tcp ctx) \<noteq> 1" using five by fastforce
  then have "handled_bytes 5 g' \<noteq> []" using five by auto
  moreover have "handled_bytes 5 g' = replicate (length (handled_bytes 5 g')) 0"
    using conjunct1 [OF five] by (simp add: stream_slice_def map_replicate_const)
  ultimately show ?thesis using g r by blast
qed

end
