(* ===== verification/Fd_Trace.thy ===== *)
theory Fd_Trace
  imports Usn_Prelude "HOL-Library.Multiset"
begin

text \<open>
  The system calls that the socket classes make, as a trace, and what a trace means for the descriptor table of the
  process: \<^verbatim>\<open>socket\<close> and \<^verbatim>\<open>accept4\<close> open the descriptor they return, \<^verbatim>\<open>close\<close> closes one. A trace is clean when it closes
  only what is open.
\<close>

datatype sock_type = SOCK_STREAM | SOCK_STREAM_NONBLOCK | SOCK_DGRAM

datatype sock_opt = SO_REUSEADDR | TCP_NODELAY | SO_RCVTIMEO int int | IP_MULTICAST_TTL int | IP_ADD_MEMBERSHIP u32 u32

datatype sys_event =
    SysSocket sock_type int
  | SysSetsockopt int sock_opt
  | SysBind int u32 u16
  | SysListen int int
  | SysSetfl int u32
  | SysConnect int u32 u16
  | SysPoll int int
  | SysAccept int bool int
  | SysRead int nat
  | SysWrite int "u8 list"
  | SysSendto int "u8 list" u32 u16
  | SysRecvfrom int nat
  | SysEpollCreate int
  | SysClose int

text \<open>The descriptor a call opens, when it opens one.\<close>

fun opened :: "sys_event \<Rightarrow> int option" where
  "opened (SysSocket _ fd) = (if 0 \<le> fd then Some fd else None)"
| "opened (SysAccept _ _ fd) = (if 0 \<le> fd then Some fd else None)"
| "opened (SysEpollCreate fd) = (if 0 \<le> fd then Some fd else None)"
| "opened _ = None"

fun fd_step :: "sys_event \<Rightarrow> int set \<Rightarrow> int set" where
  "fd_step (SysClose fd) fds = fds - {fd}"
| "fd_step e fds = (case opened e of None \<Rightarrow> fds | Some fd \<Rightarrow> insert fd fds)"

definition open_fds :: "sys_event list \<Rightarrow> int set" where
  "open_fds trace = fold fd_step trace {}"

fun step_clean :: "sys_event \<Rightarrow> int set \<Rightarrow> bool" where
  "step_clean (SysClose fd) fds = (fd \<in> fds)"
| "step_clean _ fds = True"

fun clean_from :: "int set \<Rightarrow> sys_event list \<Rightarrow> bool" where
  "clean_from fds [] = True"
| "clean_from fds (e # es) = (step_clean e fds \<and> clean_from (fd_step e fds) es)"

definition clean :: "sys_event list \<Rightarrow> bool" where
  "clean trace \<longleftrightarrow> clean_from {} trace"

text \<open>What the kernel guarantees: a new descriptor is not one that is open already.\<close>

definition kernel_fresh :: "sys_event list \<Rightarrow> int \<Rightarrow> bool" where
  "kernel_fresh trace fd \<longleftrightarrow> fd \<notin> open_fds trace"

named_theorems fd_simps \<open>what a trace does to the descriptor table\<close>

lemma clean_from_append [fd_simps]: "clean_from fds (xs @ ys) \<longleftrightarrow> clean_from fds xs \<and> clean_from (fold fd_step xs fds) ys"
  by (induction xs arbitrary: fds) auto

lemma open_fds_append [fd_simps]: "open_fds (xs @ ys) = fold fd_step ys (open_fds xs)"
  by (simp add: open_fds_def)

lemma clean_append [fd_simps]: "clean (xs @ ys) \<longleftrightarrow> clean xs \<and> clean_from (open_fds xs) ys"
  by (simp add: clean_def open_fds_def clean_from_append)

lemma open_fds_Nil [simp]: "open_fds [] = {}" by (simp add: open_fds_def)

lemma clean_Nil [simp]: "clean []" by (simp add: clean_def)

lemma open_fds_nonneg: "fd \<in> open_fds trace \<Longrightarrow> 0 \<le> fd"
proof (induction trace rule: rev_induct)
  case (snoc e trace)
  then show ?case by (cases e) (auto simp: open_fds_append split: if_splits)
qed simp

section \<open>Accounts\<close>

text \<open>
  The account of a program balances: the descriptors its variables own are, each exactly once, the ones that are open, and
  nothing was closed that was not open.
\<close>

definition accounted :: "int multiset \<Rightarrow> sys_event list \<Rightarrow> bool" where
  "accounted owned trace \<longleftrightarrow> clean trace \<and> finite (open_fds trace) \<and> owned = mset_set (open_fds trace)"

definition owned_by :: "int \<Rightarrow> int multiset" where
  "owned_by fd = (if 0 \<le> fd then {#fd#} else {#})"

definition held :: "int list \<Rightarrow> int multiset" where
  "held fds = filter_mset (\<lambda>fd. 0 \<le> fd) (mset fds)"

lemma held_simps [simp]: "held [] = {#}" "held (xs @ ys) = held xs + held ys" "held (x # xs) = owned_by x + held xs"
  by (simp_all add: held_def owned_by_def)

lemma owned_by_minus_one [simp]: "owned_by (-1) = {#}"
  by (simp add: owned_by_def)

text \<open>All but one variable, and what a change of one variable does.\<close>

definition held_others :: "nat \<Rightarrow> int list \<Rightarrow> int multiset" where
  "held_others v fds = held (take v fds) + held (drop (Suc v) fds)"

lemma held_split: "v < length fds \<Longrightarrow> held fds = owned_by (fds ! v) + held_others v fds"
  using arg_cong [OF id_take_nth_drop [of v fds], of held] by (simp add: held_others_def)

lemma held_others_update [simp]: "held_others v (fds[v := x]) = held_others v fds"
  by (simp add: held_others_def)

lemma held_update: "v < length fds \<Longrightarrow> held (fds[v := x]) = owned_by x + held_others v fds"
  by (simp add: held_others_def upd_conv_take_nth_drop)

lemma accounted_open: "accounted owned trace \<Longrightarrow> fd \<in># owned \<Longrightarrow> fd \<in> open_fds trace"
  by (simp add: accounted_def)

lemma accounted_close:
  assumes "accounted (owned_by fd + rest) trace" and "0 \<le> fd"
  shows "accounted rest (trace @ [SysClose fd])"
proof -
  have m: "add_mset fd rest = mset_set (open_fds trace)" and fin: "finite (open_fds trace)" and c: "clean trace"
    using assms by (simp_all add: accounted_def owned_by_def)
  have "fd \<in># mset_set (open_fds trace)" using m by (metis union_single_eq_member)
  then have mem: "fd \<in> open_fds trace" using fin by simp
  have "rest = mset_set (open_fds trace) - {#fd#}" using m by (metis add_mset_remove_trivial)
  also have "\<dots> = mset_set (open_fds trace - {fd})" using fin mem by (simp add: mset_set_Diff)
  finally show ?thesis using c fin mem by (simp add: accounted_def fd_simps)
qed

text \<open>
  A trace that starts where \<open>fds\<close> are open and opens at most the descriptor it returns, closing it again on the way when it
  fails: \<open>yields\<close>.
\<close>

definition yields :: "int set \<Rightarrow> sys_event list \<Rightarrow> int \<Rightarrow> bool" where
  "yields fds es fd \<longleftrightarrow> clean_from fds es \<and> fold fd_step es fds = (if 0 \<le> fd then insert fd fds else fds) \<and> (0 \<le> fd \<longrightarrow> fd \<notin> fds)"

lemma accounted_yields:
  assumes "accounted owned trace" and "yields (open_fds trace) es fd"
  shows "accounted (owned + owned_by fd) (trace @ es)"
  using assms by (simp add: accounted_def yields_def owned_by_def fd_simps)

section \<open>Programs\<close>

text \<open>Running operations as long as each is allowed.\<close>

fun fd_run :: "('op \<Rightarrow> 's \<Rightarrow> 's) \<Rightarrow> ('op \<Rightarrow> 's \<Rightarrow> bool) \<Rightarrow> 'op list \<Rightarrow> 's \<Rightarrow> 's option" where
  "fd_run exec ok [] s = Some s"
| "fd_run exec ok (p # ps) s = (if ok p s then fd_run exec ok ps (exec p s) else None)"

locale fd_program =
  fixes exec :: "'op \<Rightarrow> 's \<Rightarrow> 's"
    and ok :: "'op \<Rightarrow> 's \<Rightarrow> bool"
    and owned :: "'s \<Rightarrow> int multiset"
    and trace :: "'s \<Rightarrow> sys_event list"
  assumes step: "accounted (owned s) (trace s) \<Longrightarrow> ok p s \<Longrightarrow> accounted (owned (exec p s)) (trace (exec p s))"
begin

lemma run: "accounted (owned s) (trace s) \<Longrightarrow> fd_run exec ok ps s = Some s' \<Longrightarrow> accounted (owned s') (trace s')"
  by (induction ps arbitrary: s) (auto split: if_splits intro: step)

end

end
