(* ===== verification/Tcp_Socket.thy ===== *)
theory Tcp_Socket
  imports Fd_Trace Tcp_Protocol "HOL-Library.Signed_Division"
begin

text \<open>
  \<^verbatim>\<open>TcpSocket\<close> of \<^verbatim>\<open>protocol/tcp_socket.hpp\<close>: the system calls it makes on every path and the descriptor each object owns.
  What the kernel returns is an argument (one record per function); \<^verbatim>\<open>inet_pton\<close> is a function from text to addresses.
\<close>

abbreviation (input) EINPROGRESS :: int where "EINPROGRESS \<equiv> 115"
abbreviation (input) EBADF :: int where "EBADF \<equiv> 9"

section \<open>Opening\<close>

record server_answers =
  sv_socket :: int
  sv_bind :: int
  sv_listen :: int

definition tcp_create_server :: "u16 \<Rightarrow> int \<Rightarrow> bool \<Rightarrow> server_answers \<Rightarrow> int \<times> sys_event list" where
  "tcp_create_server port backlog nonblock k =
     (let fd = sv_socket k; s = [SysSocket (if nonblock then SOCK_STREAM_NONBLOCK else SOCK_STREAM) fd]
      in if fd < 0 then (-1, s)
         else
           let s = s @ [SysSetsockopt fd SO_REUSEADDR, SysSetsockopt fd TCP_NODELAY, SysBind fd (htonl 0) (htons port)]
           in if sv_bind k < 0 then (-1, s @ [SysClose fd])
              else if sv_listen k < 0 then (-1, s @ [SysListen fd backlog, SysClose fd])
              else (fd, s @ [SysListen fd backlog]))"

record connect_answers =
  co_socket :: int
  co_getfl :: int
  co_setfl :: int
  co_connect :: int
  co_errno :: int
  co_poll :: int
  co_getsockopt :: int
  co_so_error :: int

definition O_NONBLOCK :: u32 where "O_NONBLOCK = 2048"

text \<open>The part of \<^verbatim>\<open>connect_to\<close> after the address has been converted; \<open>s\<close> is the trace so far.\<close>

definition connect_wait :: "int \<Rightarrow> int \<Rightarrow> connect_answers \<Rightarrow> sys_event list \<Rightarrow> bool \<times> sys_event list" where
  "connect_wait fd timeout_ms k s =
     (if co_connect k < 0 \<and> co_errno k \<noteq> EINPROGRESS then (False, s)
      else if co_connect k < 0 then
        let s = s @ [SysPoll fd timeout_ms]
        in if co_poll k \<le> 0 then (False, s)
           else (\<not> (co_getsockopt k < 0 \<or> co_so_error k \<noteq> 0), s)
      else (True, s))"

definition tcp_connect_to ::
    "(string \<Rightarrow> u32 option) \<Rightarrow> string \<Rightarrow> u16 \<Rightarrow> int \<Rightarrow> connect_answers \<Rightarrow> int \<times> sys_event list" where
  "tcp_connect_to inet_pton ip port timeout_ms k =
     (let fd = co_socket k; s = [SysSocket SOCK_STREAM fd]
      in if fd < 0 then (-1, s)
         else
           case inet_pton ip of
             None \<Rightarrow> (-1, s @ [SysClose fd])
           | Some addr \<Rightarrow>
               let flags = co_getfl k
               in if flags < 0 then (-1, s @ [SysClose fd])
                  else
                    let s = s @ [SysSetfl fd (or (of_int flags) O_NONBLOCK)]
                    in if co_setfl k < 0 then (-1, s @ [SysClose fd])
                       else
                         let (ok, s) = connect_wait fd timeout_ms k (s @ [SysConnect fd addr (htons port)])
                         in if \<not> ok then (-1, s @ [SysClose fd])
                            else (fd, s @ [SysSetfl fd (of_int flags),
                                SysSetsockopt fd (SO_RCVTIMEO (timeout_ms sdiv 1000) ((timeout_ms smod 1000) * 1000))]))"

section \<open>Using\<close>

text \<open>
  \<open>Inl\<close> is the value returned, \<open>Inr\<close> the error number with -1. The member functions differ from the static ones only in
  the descriptor they use.
\<close>

definition tcp_accept_from :: "int \<Rightarrow> bool \<Rightarrow> int + int \<Rightarrow> (int + int) \<times> sys_event list" where
  "tcp_accept_from listen_fd nonblock result =
     (if listen_fd < 0 then (Inr EBADF, [])
      else (result, [SysAccept listen_fd nonblock (case result of Inl conn_fd \<Rightarrow> conn_fd | Inr _ \<Rightarrow> -1)]))"

definition tcp_read_from :: "int \<Rightarrow> nat \<Rightarrow> u8 list + int \<Rightarrow> (u8 list + int) \<times> sys_event list" where
  "tcp_read_from fd len result = (if fd < 0 then (Inr EBADF, []) else (result, [SysRead fd len]))"

definition tcp_write_to :: "int \<Rightarrow> u8 list \<Rightarrow> int + int \<Rightarrow> (int + int) \<times> sys_event list" where
  "tcp_write_to fd bs result = (if fd < 0 then (Inr EBADF, []) else (result, [SysWrite fd bs]))"

section \<open>Owning\<close>

text \<open>
  A program with a number of \<^verbatim>\<open>TcpSocket\<close> variables, each the descriptor it holds (\<open>-1\<close> for none); \<open>tk_raw\<close> lists the
  descriptors handed out by \<^verbatim>\<open>release\<close> and \<^verbatim>\<open>accept\<close>, which the caller owns.
\<close>

record tcp_sockets =
  tk_fd :: "int list"
  tk_raw :: "int list"
  tk_trace :: "sys_event list"

definition tcp_close :: "nat \<Rightarrow> tcp_sockets \<Rightarrow> tcp_sockets" where
  "tcp_close v s =
     (if 0 \<le> tk_fd s ! v then s\<lparr>tk_trace := tk_trace s @ [SysClose (tk_fd s ! v)], tk_fd := (tk_fd s)[v := -1]\<rparr> else s)"

text \<open>Assigning a temporary that holds \<open>fd\<close>; the move assignment from a variable, which leaves itself alone.\<close>

definition tcp_assign_temp :: "nat \<Rightarrow> int \<Rightarrow> tcp_sockets \<Rightarrow> tcp_sockets" where
  "tcp_assign_temp v fd s = (let s = tcp_close v s in s\<lparr>tk_fd := (tk_fd s)[v := fd]\<rparr>)"

definition tcp_move_assign :: "nat \<Rightarrow> nat \<Rightarrow> tcp_sockets \<Rightarrow> tcp_sockets" where
  "tcp_move_assign v w s =
     (if v = w then s
      else let s = tcp_close v s in s\<lparr>tk_fd := (tk_fd s)[v := tk_fd s ! w, w := -1]\<rparr>)"

text \<open>A new variable that takes over another (the move constructor) or starts empty (the default constructor).\<close>

definition tcp_move_construct :: "nat \<Rightarrow> tcp_sockets \<Rightarrow> tcp_sockets" where
  "tcp_move_construct w s = s\<lparr>tk_fd := (tk_fd s)[w := -1] @ [tk_fd s ! w]\<rparr>"

definition tcp_default_construct :: "tcp_sockets \<Rightarrow> tcp_sockets" where
  "tcp_default_construct s = s\<lparr>tk_fd := tk_fd s @ [-1]\<rparr>"

text \<open>The constructor that takes over a descriptor of the caller, which then no longer has it.\<close>

definition tcp_adopt :: "int \<Rightarrow> tcp_sockets \<Rightarrow> tcp_sockets" where
  "tcp_adopt fd s = s\<lparr>tk_fd := tk_fd s @ [fd], tk_raw := remove1 fd (tk_raw s)\<rparr>"

definition tcp_release :: "nat \<Rightarrow> tcp_sockets \<Rightarrow> int \<times> tcp_sockets" where
  "tcp_release v s =
     (let out = tk_fd s ! v
      in (out, s\<lparr>tk_fd := (tk_fd s)[v := -1], tk_raw := tk_raw s @ (if 0 \<le> out then [out] else [])\<rparr>))"

definition tcp_open :: "nat \<Rightarrow> int \<times> sys_event list \<Rightarrow> tcp_sockets \<Rightarrow> tcp_sockets" where
  "tcp_open v r s = tcp_assign_temp v (fst r) (s\<lparr>tk_trace := tk_trace s @ snd r\<rparr>)"

definition tcp_accept :: "nat \<Rightarrow> bool \<Rightarrow> int + int \<Rightarrow> tcp_sockets \<Rightarrow> (int + int) \<times> tcp_sockets" where
  "tcp_accept v nonblock result s =
     (let (r, es) = tcp_accept_from (tk_fd s ! v) nonblock result
      in (r, s\<lparr>tk_trace := tk_trace s @ es,
           tk_raw := tk_raw s @ (case r of Inl fd \<Rightarrow> if 0 \<le> fd then [fd] else [] | Inr _ \<Rightarrow> [])\<rparr>))"

definition tcp_read :: "nat \<Rightarrow> nat \<Rightarrow> u8 list + int \<Rightarrow> tcp_sockets \<Rightarrow> (u8 list + int) \<times> tcp_sockets" where
  "tcp_read v len result s =
     (let (r, es) = tcp_read_from (tk_fd s ! v) len result in (r, s\<lparr>tk_trace := tk_trace s @ es\<rparr>))"

definition tcp_write :: "nat \<Rightarrow> u8 list \<Rightarrow> int + int \<Rightarrow> tcp_sockets \<Rightarrow> (int + int) \<times> tcp_sockets" where
  "tcp_write v bs result s =
     (let (r, es) = tcp_write_to (tk_fd s ! v) bs result in (r, s\<lparr>tk_trace := tk_trace s @ es\<rparr>))"

text \<open>The destructors, in the reverse order of construction.\<close>

definition tcp_destroy_all :: "tcp_sockets \<Rightarrow> tcp_sockets" where
  "tcp_destroy_all s = fold tcp_close (rev [0..<length (tk_fd s)]) s"

section \<open>Programs\<close>

datatype tcp_op =
    TcpNew
  | TcpAdopt int
  | TcpNewFrom nat
  | TcpServer nat u16 int bool server_answers
  | TcpConnect nat string u16 int connect_answers
  | TcpMove nat nat
  | TcpClose nat
  | TcpRelease nat
  | TcpAccept nat bool "int + int"
  | TcpRead nat nat "u8 list + int"
  | TcpWrite nat "u8 list" "int + int"

fun tcp_exec :: "(string \<Rightarrow> u32 option) \<Rightarrow> tcp_op \<Rightarrow> tcp_sockets \<Rightarrow> tcp_sockets" where
  "tcp_exec pton TcpNew s = tcp_default_construct s"
| "tcp_exec pton (TcpAdopt fd) s = tcp_adopt fd s"
| "tcp_exec pton (TcpNewFrom w) s = tcp_move_construct w s"
| "tcp_exec pton (TcpServer v port backlog nonblock k) s = tcp_open v (tcp_create_server port backlog nonblock k) s"
| "tcp_exec pton (TcpConnect v ip port timeout_ms k) s = tcp_open v (tcp_connect_to pton ip port timeout_ms k) s"
| "tcp_exec pton (TcpMove v w) s = tcp_move_assign v w s"
| "tcp_exec pton (TcpClose v) s = tcp_close v s"
| "tcp_exec pton (TcpRelease v) s = snd (tcp_release v s)"
| "tcp_exec pton (TcpAccept v nonblock r) s = snd (tcp_accept v nonblock r s)"
| "tcp_exec pton (TcpRead v len r) s = snd (tcp_read v len r s)"
| "tcp_exec pton (TcpWrite v bs r) s = snd (tcp_write v bs r s)"

text \<open>
  The variables an operation uses exist, and a descriptor the kernel returns is not open. A program may hand a descriptor to the constructor only
  when it has it, from \<^verbatim>\<open>release\<close> or \<^verbatim>\<open>accept\<close>, and no object does: the class itself does not keep two objects from closing the same one.
\<close>

fun tcp_op_ok :: "tcp_op \<Rightarrow> tcp_sockets \<Rightarrow> bool" where
  "tcp_op_ok TcpNew s = True"
| "tcp_op_ok (TcpAdopt fd) s = (fd < 0 \<or> fd \<in> set (tk_raw s))"
| "tcp_op_ok (TcpNewFrom w) s = (w < length (tk_fd s))"
| "tcp_op_ok (TcpServer v _ _ _ k) s = (v < length (tk_fd s) \<and> kernel_fresh (tk_trace s) (sv_socket k))"
| "tcp_op_ok (TcpConnect v _ _ _ k) s = (v < length (tk_fd s) \<and> kernel_fresh (tk_trace s) (co_socket k))"
| "tcp_op_ok (TcpMove v w) s = (v < length (tk_fd s) \<and> w < length (tk_fd s))"
| "tcp_op_ok (TcpClose v) s = (v < length (tk_fd s))"
| "tcp_op_ok (TcpRelease v) s = (v < length (tk_fd s))"
| "tcp_op_ok (TcpAccept v _ r) s =
     (v < length (tk_fd s) \<and> (case r of Inl fd \<Rightarrow> 0 \<le> fd \<and> kernel_fresh (tk_trace s) fd | Inr _ \<Rightarrow> True))"
| "tcp_op_ok (TcpRead v _ _) s = (v < length (tk_fd s))"
| "tcp_op_ok (TcpWrite v _ _) s = (v < length (tk_fd s))"

definition tcp_run :: "(string \<Rightarrow> u32 option) \<Rightarrow> tcp_op list \<Rightarrow> tcp_sockets \<Rightarrow> tcp_sockets option" where
  "tcp_run pton = fd_run (tcp_exec pton) tcp_op_ok"

definition tcp_start :: tcp_sockets where
  "tcp_start = \<lparr>tk_fd = [], tk_raw = [], tk_trace = []\<rparr>"

section \<open>Ownership\<close>

definition tcp_owned :: "tcp_sockets \<Rightarrow> int multiset" where
  "tcp_owned s = held (tk_fd s) + mset (tk_raw s)"

abbreviation tcp_accounted :: "tcp_sockets \<Rightarrow> bool" where
  "tcp_accounted s \<equiv> accounted (tcp_owned s) (tk_trace s)"

lemma create_server_yields:
  "sv_socket k \<notin> fds \<Longrightarrow> yields fds (snd (tcp_create_server port backlog nonblock k)) (fst (tcp_create_server port backlog nonblock k))"
  by (auto simp: tcp_create_server_def yields_def Let_def)

lemma connect_to_yields:
  assumes "co_socket k \<notin> fds"
  shows "yields fds (snd (tcp_connect_to pton ip port timeout_ms k)) (fst (tcp_connect_to pton ip port timeout_ms k))"
proof -
  have "connect_wait fd timeout_ms k s = (ok, s') \<Longrightarrow> \<exists>es. s' = s @ es \<and> (es = [] \<or> es = [SysPoll fd timeout_ms])" for fd s ok s'
    by (auto simp: connect_wait_def Let_def split: if_splits)
  then show ?thesis using assms
    by (fastforce simp: tcp_connect_to_def yields_def Let_def split: option.splits prod.splits)
qed

lemma accept_yields:
  assumes "\<forall>fd. result = Inl fd \<longrightarrow> 0 \<le> fd \<and> fd \<notin> fds" and "tcp_accept_from listen_fd nonblock result = (r, es)"
  shows "yields fds es (case r of Inl fd \<Rightarrow> fd | Inr _ \<Rightarrow> -1)"
  using assms by (auto simp: tcp_accept_from_def yields_def split: if_splits sum.splits)

lemma tcp_close_length [simp]: "length (tk_fd (tcp_close v s)) = length (tk_fd s)" "tk_raw (tcp_close v s) = tk_raw s"
  by (simp_all add: tcp_close_def)

text \<open>Closing a variable gives up what it held; assigning to it afterwards adds the new descriptor.\<close>

lemma tcp_assign_temp_accounted:
  assumes "accounted (tcp_owned s + owned_by fd) (tk_trace s)" and "v < length (tk_fd s)"
  shows "tcp_accounted (tcp_assign_temp v fd s)"
proof (cases "0 \<le> tk_fd s ! v")
  case True
  have "tcp_owned s + owned_by fd = owned_by (tk_fd s ! v) + tcp_owned (tcp_assign_temp v fd s)"
    using True assms(2) by (simp add: tcp_owned_def tcp_assign_temp_def tcp_close_def Let_def held_update held_split [OF assms(2)])
  with accounted_close [OF _ True] assms(1) True show ?thesis by (simp add: tcp_assign_temp_def tcp_close_def Let_def)
next
  case False
  then have "tcp_owned (tcp_assign_temp v fd s) = tcp_owned s + owned_by fd"
    using assms(2) by (simp add: tcp_owned_def tcp_assign_temp_def tcp_close_def Let_def held_update held_split [OF assms(2)] owned_by_def)
  with assms(1) False show ?thesis by (simp add: tcp_assign_temp_def tcp_close_def Let_def)
qed

lemma tcp_close_accounted:
  assumes "tcp_accounted s" and "v < length (tk_fd s)"
  shows "tcp_accounted (tcp_close v s)"
proof -
  have "tcp_assign_temp v (-1) s = tcp_close v s \<or> tk_fd s ! v < 0" by (simp add: tcp_assign_temp_def tcp_close_def Let_def)
  then show ?thesis
    using tcp_assign_temp_accounted [of s "-1" v] assms by (auto simp: tcp_close_def)
qed

lemma tcp_open_accounted:
  assumes "tcp_accounted s" and "v < length (tk_fd s)" and "yields (open_fds (tk_trace s)) (snd r) (fst r)"
  shows "tcp_accounted (tcp_open v r s)"
  unfolding tcp_open_def
  by (rule tcp_assign_temp_accounted) (use accounted_yields [OF assms(1,3)] assms(2) in \<open>simp_all add: tcp_owned_def\<close>)

lemma tcp_move_assign_accounted:
  assumes "tcp_accounted s" and "v < length (tk_fd s)" "w < length (tk_fd s)"
  shows "tcp_accounted (tcp_move_assign v w s)"
proof (cases "v = w")
  case False
  let ?s = "tcp_close v s"
  have len: "v < length (tk_fd ?s)" "w < length ((tk_fd ?s)[v := tk_fd ?s ! w])" using assms by simp_all
  have empty: "owned_by (tk_fd ?s ! v) = {#}" using assms(2) by (auto simp: tcp_close_def owned_by_def)
  have "held ((tk_fd ?s)[v := tk_fd ?s ! w, w := -1]) + owned_by (tk_fd ?s ! w) = held ((tk_fd ?s)[v := tk_fd ?s ! w])"
    using held_split [OF len(2)] held_update [OF len(2), of "-1"] False len by simp
  also have "\<dots> = held (tk_fd ?s) + owned_by (tk_fd ?s ! w)"
    using held_split [OF len(1)] held_update [OF len(1)] empty by simp
  finally have "tcp_owned (tcp_move_assign v w s) = tcp_owned ?s" using False by (simp add: tcp_owned_def tcp_move_assign_def Let_def)
  with tcp_close_accounted [OF assms(1,2)] False show ?thesis by (simp add: tcp_move_assign_def Let_def)
qed (use assms in \<open>simp add: tcp_move_assign_def\<close>)

lemma tcp_exec_accounted:
  assumes "tcp_accounted s" and "tcp_op_ok p s"
  shows "tcp_accounted (tcp_exec pton p s)"
proof (cases p)
  case (TcpAdopt fd)
  have "tcp_owned (tcp_adopt fd s) = tcp_owned s"
  proof (cases "fd \<in> set (tk_raw s)")
    case True
    then have "0 \<le> fd" by (intro open_fds_nonneg [OF accounted_open [OF assms(1)]]) (simp add: tcp_owned_def)
    with True show ?thesis by (simp add: tcp_owned_def tcp_adopt_def owned_by_def)
  next
    case False
    with assms(2) TcpAdopt show ?thesis by (simp add: tcp_owned_def tcp_adopt_def owned_by_def remove1_idem)
  qed
  with assms TcpAdopt show ?thesis by (simp add: tcp_adopt_def)
next
  case (TcpNewFrom w)
  then have "w < length (tk_fd s)" using assms(2) by simp
  then have "tcp_owned (tcp_move_construct w s) = tcp_owned s"
    by (simp add: tcp_owned_def tcp_move_construct_def held_update held_split)
  with assms TcpNewFrom show ?thesis by (simp add: tcp_move_construct_def)
next
  case (TcpRelease v)
  then have "v < length (tk_fd s)" using assms(2) by simp
  then have "tcp_owned (snd (tcp_release v s)) = tcp_owned s"
    by (simp add: tcp_owned_def tcp_release_def Let_def held_update held_split owned_by_def)
  with assms TcpRelease show ?thesis by (simp add: tcp_release_def Let_def)
next
  case (TcpAccept v nonblock result)
  obtain r es where r: "tcp_accept_from (tk_fd s ! v) nonblock result = (r, es)" by fastforce
  have "yields (open_fds (tk_trace s)) es (case r of Inl fd \<Rightarrow> fd | Inr _ \<Rightarrow> -1)"
    by (rule accept_yields [OF _ r]) (use assms(2) TcpAccept in \<open>auto simp: kernel_fresh_def\<close>)
  from accounted_yields [OF assms(1) this] TcpAccept r show ?thesis
    by (auto simp: tcp_accept_def tcp_owned_def owned_by_def split: sum.splits)
next
  case (TcpServer v port backlog nonblock k)
  with assms create_server_yields tcp_open_accounted show ?thesis by (simp add: kernel_fresh_def)
next
  case (TcpConnect v ip port timeout_ms k)
  with assms connect_to_yields tcp_open_accounted show ?thesis by (simp add: kernel_fresh_def)
next
  case (TcpRead v len r)
  with assms show ?thesis
    by (auto simp: tcp_read_def tcp_read_from_def tcp_owned_def accounted_def fd_simps)
next
  case (TcpWrite v bs r)
  with assms show ?thesis
    by (auto simp: tcp_write_def tcp_write_to_def tcp_owned_def accounted_def fd_simps)
qed (use assms tcp_close_accounted tcp_move_assign_accounted in \<open>auto simp: tcp_default_construct_def tcp_owned_def\<close>)

interpretation tcp_program: fd_program "tcp_exec pton" tcp_op_ok tcp_owned tk_trace
  by unfold_locales (rule tcp_exec_accounted)

lemma tcp_close_list:
  assumes "tcp_accounted s" and "\<forall>v \<in> set vs. v < length (tk_fd s)"
  shows "tcp_accounted (fold tcp_close vs s) \<and> tk_raw (fold tcp_close vs s) = tk_raw s \<and>
    length (tk_fd (fold tcp_close vs s)) = length (tk_fd s) \<and>
    (\<forall>w < length (tk_fd s). w \<in> set vs \<or> tk_fd s ! w < 0 \<longrightarrow> tk_fd (fold tcp_close vs s) ! w < 0)"
  using assms
proof (induction vs arbitrary: s)
  case (Cons v vs)
  let ?s = "tcp_close v s"
  have "tcp_accounted ?s" using Cons.prems by (intro tcp_close_accounted) simp_all
  moreover have "tk_fd ?s ! w < 0" if "w < length (tk_fd s)" "w = v \<or> tk_fd s ! w < 0" for w
    using that by (cases "w = v") (auto simp: tcp_close_def)
  ultimately show ?case using Cons.IH [of ?s] Cons.prems by auto
qed simp

lemma held_none: "\<forall>w < length fds. fds ! w < 0 \<Longrightarrow> held fds = {#}"
  by (auto simp: held_def not_le in_set_conv_nth)

lemma tcp_destroy_all_accounted:
  assumes "tcp_accounted s"
  shows "accounted (mset (tk_raw s)) (tk_trace (tcp_destroy_all s))"
proof -
  have "held (tk_fd (tcp_destroy_all s)) = {#}"
    using tcp_close_list [OF assms, of "rev [0..<length (tk_fd s)]"] by (intro held_none) (simp add: tcp_destroy_all_def)
  then show ?thesis
    using tcp_close_list [OF assms, of "rev [0..<length (tk_fd s)]"] by (auto simp: tcp_owned_def tcp_destroy_all_def)
qed

text \<open>
  \<^bold>\<open>C14\<close>. No descriptor is leaked and none is closed twice: whatever sequence of constructions, servers,
  connections that succeed or fail at any step, moves, self-moves, closes, releases, accepts, reads and writes a program makes with
  \<^verbatim>\<open>TcpSocket\<close> objects, as long as the kernel returns only new descriptors and the program constructs an object from a descriptor only
  when it was handed that descriptor by \<^verbatim>\<open>release\<close> or \<^verbatim>\<open>accept\<close> and has not passed it on yet: once the objects
  are destroyed the open descriptors are exactly those handed out and not taken over again, each of them once, and
  every \<^verbatim>\<open>close\<close> closed an open one.\<close>

theorem tcp_sockets_no_leak:
  assumes "tcp_run pton ops tcp_start = Some s"
  shows "clean (tk_trace (tcp_destroy_all s)) \<and> open_fds (tk_trace (tcp_destroy_all s)) = set (tk_raw s) \<and> distinct (tk_raw s)"
proof -
  have "tcp_accounted tcp_start" by (simp add: accounted_def tcp_owned_def tcp_start_def)
  from tcp_destroy_all_accounted [OF tcp_program.run [OF this assms [unfolded tcp_run_def]]]
  have a: "clean (tk_trace (tcp_destroy_all s))" "finite (open_fds (tk_trace (tcp_destroy_all s)))"
    "mset (tk_raw s) = mset_set (open_fds (tk_trace (tcp_destroy_all s)))" by (simp_all add: accounted_def)
  from a(3) have "set (tk_raw s) = open_fds (tk_trace (tcp_destroy_all s))" using a(2) by (metis finite_set_mset_mset_set set_mset_mset)
  moreover have "distinct (tk_raw s)"
    unfolding distinct_count_atmost_1 using a(2,3) by (simp add: count_mset_set' flip: \<open>set (tk_raw s) = _\<close>)
  ultimately show ?thesis using a(1) by simp
qed

text \<open>
  A server accepts two clients, of which an object takes over the first; connection attempts replace that one, the first of them timing out in
  \<^verbatim>\<open>poll\<close>; and the connection is moved over the server.
\<close>

definition ex_tcp_ops :: "tcp_op list" where
  "ex_tcp_ops = [TcpNew, TcpServer 0 9000 128 True \<lparr>sv_socket = 3, sv_bind = 0, sv_listen = 0\<rparr>,
     TcpAccept 0 True (Inl 4), TcpAdopt 4, TcpAccept 0 True (Inl 6),
     TcpConnect 1 ''127.0.0.1'' 9000 1000 \<lparr>co_socket = 5, co_getfl = 2, co_setfl = 0, co_connect = -1, co_errno = 115,
       co_poll = 0, co_getsockopt = 0, co_so_error = 0\<rparr>,
     TcpConnect 1 ''127.0.0.1'' 9000 1000 \<lparr>co_socket = 5, co_getfl = 2, co_setfl = 0, co_connect = 0, co_errno = 0,
       co_poll = 0, co_getsockopt = 0, co_so_error = 0\<rparr>,
     TcpMove 0 1, TcpMove 0 0]"

theorem tcp_sockets_no_leak_witness:
  "\<exists>s. tcp_run (\<lambda>_. Some 0) ex_tcp_ops tcp_start = Some s \<and> open_fds (tk_trace (tcp_destroy_all s)) = {6} \<and> tk_fd s = [5, -1]"
proof -
  have "\<exists>s. tcp_run (\<lambda>_. Some 0) ex_tcp_ops tcp_start = Some s \<and> tk_raw s = [6] \<and> tk_fd s = [5, -1]"
    by (simp add: tcp_adopt_def tcp_run_def ex_tcp_ops_def tcp_start_def kernel_fresh_def tcp_default_construct_def tcp_open_def
        tcp_assign_temp_def tcp_create_server_def tcp_connect_to_def connect_wait_def tcp_close_def tcp_accept_def
        tcp_accept_from_def tcp_move_assign_def Let_def fd_simps open_fds_def)
  then obtain s where s: "tcp_run (\<lambda>_. Some 0) ex_tcp_ops tcp_start = Some s" "tk_raw s = [6]" "tk_fd s = [5, -1]" by blast
  with tcp_sockets_no_leak [OF s(1)] show ?thesis by simp
qed

section \<open>Connecting\<close>

definition connected :: "connect_answers \<Rightarrow> bool" where
  "connected k \<longleftrightarrow> 0 \<le> co_connect k \<or> co_errno k = EINPROGRESS \<and> 0 < co_poll k \<and> 0 \<le> co_getsockopt k \<and> co_so_error k = 0"

lemma connect_wait_ok: "fst (connect_wait fd timeout_ms k s) \<longleftrightarrow> connected k"
  by (auto simp: connect_wait_def connected_def Let_def)

text \<open>
  \<^verbatim>\<open>connect_to\<close> returns an open socket exactly when the socket, the address, both flag calls and the connection
  itself succeed, at once or within the timeout; the socket is then back in the mode it was created in and has the
  timeout as its receive timeout; otherwise the last call closes it.\<close>

theorem tcp_connect_outcome:
  assumes "0 \<le> co_socket k" and "0 \<le> timeout_ms" and "tcp_connect_to pton ip port timeout_ms k = (fd, es)"
  shows "(0 \<le> fd \<longleftrightarrow> pton ip \<noteq> None \<and> 0 \<le> co_getfl k \<and> 0 \<le> co_setfl k \<and> connected k) \<and>
    (0 \<le> fd \<longrightarrow> fd = co_socket k \<and> (\<exists>es'. es = es' @ [SysSetfl fd (of_int (co_getfl k)),
       SysSetsockopt fd (SO_RCVTIMEO (timeout_ms div 1000) (timeout_ms mod 1000 * 1000))])) \<and>
    (fd < 0 \<longrightarrow> fd = -1 \<and> last es = SysClose (co_socket k))"
proof -
  have t: "timeout_ms sdiv 1000 = timeout_ms div 1000" "timeout_ms smod 1000 = timeout_ms mod 1000"
    using assms(2) by (auto simp: signed_divide_int_eq_divide_int signed_modulo_int_eq_modulo_int sgn_if)
  show ?thesis
  proof (cases "pton ip \<noteq> None \<and> 0 \<le> co_getfl k \<and> 0 \<le> co_setfl k \<and> connected k")
    case True
    then show ?thesis using assms(1,3) t by (auto simp: tcp_connect_to_def Let_def split_beta connect_wait_ok)
  next
    case False
    then have "fd = -1 \<and> last es = SysClose (co_socket k)"
      using assms(1,3) by (auto simp: tcp_connect_to_def Let_def split_beta connect_wait_ok not_le split: option.splits if_splits)
    with False show ?thesis by simp
  qed
qed

theorem tcp_connect_outcome_witness:
  "\<exists>es'. tcp_connect_to (\<lambda>_. Some 0x0100007F) ''127.0.0.1'' 9000 1500 \<lparr>co_socket = 5, co_getfl = 2, co_setfl = 0, co_connect = -1,
      co_errno = 115, co_poll = 1, co_getsockopt = 0, co_so_error = 0\<rparr> =
    (5, es' @ [SysSetfl 5 2, SysSetsockopt 5 (SO_RCVTIMEO 1 500000)])"
proof -
  let ?k = "\<lparr>co_socket = 5, co_getfl = 2, co_setfl = 0, co_connect = -1, co_errno = 115, co_poll = 1, co_getsockopt = 0, co_so_error = 0\<rparr>"
  obtain fd es where r: "tcp_connect_to (\<lambda>_. Some 0x0100007F) ''127.0.0.1'' 9000 1500 ?k = (fd, es)" by fastforce
  have "connected ?k" by (simp add: connected_def)
  with tcp_connect_outcome [OF _ _ r] r show ?thesis by auto
qed

end
