(* ===== verification/Udp_Protocol.thy ===== *)
theory Udp_Protocol
  imports Packet_Core Checksum
begin

text \<open>
  UDP datagrams as \<^verbatim>\<open>protocol/udp_protocol.hpp\<close> builds, parses and verifies them, on byte memory.
\<close>

section \<open>Operations\<close>

record UdpHeader =
  uh_source_port :: u16
  uh_dest_port :: u16
  uh_length :: u16
  uh_checksum :: u16

definition udp_to_network_order :: "UdpHeader \<Rightarrow> UdpHeader" where
  "udp_to_network_order h =
     h\<lparr>uh_source_port := htons (uh_source_port h), uh_dest_port := htons (uh_dest_port h),
       uh_length := htons (uh_length h), uh_checksum := htons (uh_checksum h)\<rparr>"

definition udp_to_host_order :: "UdpHeader \<Rightarrow> UdpHeader" where
  "udp_to_host_order h =
     h\<lparr>uh_source_port := ntohs (uh_source_port h), uh_dest_port := ntohs (uh_dest_port h),
       uh_length := ntohs (uh_length h), uh_checksum := ntohs (uh_checksum h)\<rparr>"

definition udp_header_bytes :: "UdpHeader \<Rightarrow> u8 list" where
  "udp_header_bytes h =
     le_bytes 2 (uh_source_port h) @ le_bytes 2 (uh_dest_port h) @ le_bytes 2 (uh_length h) @
     le_bytes 2 (uh_checksum h)"

definition udp_header_of_bytes :: "u8 list \<Rightarrow> UdpHeader" where
  "udp_header_of_bytes bs =
     \<lparr>uh_source_port = of_le [bs ! 0, bs ! 1], uh_dest_port = of_le [bs ! 2, bs ! 3],
      uh_length = of_le [bs ! 4, bs ! 5], uh_checksum = of_le [bs ! 6, bs ! 7]\<rparr>"

definition udp_calculate_checksum :: "u8 list \<Rightarrow> u32 \<Rightarrow> u32 \<Rightarrow> u16" where
  "udp_calculate_checksum data src_ip dst_ip = inet_checksum 0x0011 data src_ip dst_ip"

definition encapsulate ::
    "ptr \<Rightarrow> size_type \<Rightarrow> u16 \<Rightarrow> u16 \<Rightarrow> u32 \<Rightarrow> u32 \<Rightarrow> bool \<Rightarrow> ptr \<Rightarrow> mem \<Rightarrow> Packet \<times> mem" where
  "encapsulate payload payload_len src_port dst_port src_ip dst_ip calculate_checksum_flag buffer m =
     (let total_len = 8 + payload_len;
          header = \<lparr>uh_source_port = src_port, uh_dest_port = dst_port,
                    uh_length = ucast total_len, uh_checksum = 0\<rparr>;
          m = mem_write m buffer (udp_header_bytes header);
          m = mem_write m (buffer + 8) (mem_read m payload (unat payload_len));
          header = udp_to_network_order header;
          m = mem_write m buffer (udp_header_bytes header);
          m = (if calculate_checksum_flag \<and> src_ip \<noteq> 0 \<and> dst_ip \<noteq> 0
               then mem_write m (buffer + 6) (le_bytes 2 (htons
                      (udp_calculate_checksum (mem_read m buffer (unat total_len)) src_ip dst_ip)))
               else m)
      in (mk_Packet buffer total_len 0, m))"

definition udp_parse :: "mem \<Rightarrow> Packet \<Rightarrow> (UdpHeader \<times> ptr \<times> size_type) option" where
  "udp_parse m packet =
     (if pkt_len packet < 8 then None
      else
        let header = udp_to_host_order (udp_header_of_bytes (mem_read m (pkt_data packet) 8)) in
        if ucast (uh_length header) < (8 :: size_type) \<or> ucast (uh_length header) > pkt_len packet then None
        else Some (header, pkt_data packet + 8, ucast (uh_length header) - 8))"

definition verify_checksum :: "mem \<Rightarrow> Packet \<Rightarrow> u32 \<Rightarrow> u32 \<Rightarrow> bool" where
  "verify_checksum m packet src_ip dst_ip \<longleftrightarrow>
     (if pkt_len packet < 8 then False
      else udp_calculate_checksum (pkt_bytes m packet) src_ip dst_ip = 0)"

section \<open>The bytes of a datagram\<close>

definition udp_wire :: "u16 \<Rightarrow> u16 \<Rightarrow> u16 \<Rightarrow> u8 list \<Rightarrow> u8 list" where
  "udp_wire sp dp len ps =
     rev (le_bytes 2 sp) @ rev (le_bytes 2 dp) @ rev (le_bytes 2 len) @ [0, 0] @ ps"

text \<open>The datagram with its checksum field filled in.\<close>

definition udp_sealed :: "u16 \<Rightarrow> u16 \<Rightarrow> u16 \<Rightarrow> u8 list \<Rightarrow> u32 \<Rightarrow> u32 \<Rightarrow> bool \<Rightarrow> u8 list" where
  "udp_sealed sp dp len ps si di flag =
     (let bs = udp_wire sp dp len ps; c = udp_calculate_checksum bs si di
      in if flag \<and> si \<noteq> 0 \<and> di \<noteq> 0 then bs[6 := ucast (drop_bit 8 c), 7 := ucast c] else bs)"

lemma length_udp_wire [simp]: "length (udp_wire sp dp len ps) = 8 + length ps"
  by (simp add: udp_wire_def)

lemma length_udp_sealed [simp]: "length (udp_sealed sp dp len ps si di flag) = 8 + length ps"
  by (simp add: udp_sealed_def Let_def)

lemma length_udp_header_bytes [simp]: "length (udp_header_bytes h) = 8"
  by (simp add: udp_header_bytes_def)

lemma encapsulate_bytes:
  assumes n: "unat len + 8 < 2 ^ 64" and dis: "payload + unat len \<le> out \<or> out + 8 \<le> payload"
    and e: "encapsulate payload len sp dp si di flag out m = (pkt, m')"
  shows "pkt = mk_Packet out (8 + len) 0" and "unat (8 + len) = 8 + unat len"
    and "mem_read m' out (8 + unat len) =
      udp_sealed sp dp (ucast (8 + len)) (mem_read m payload (unat len)) si di flag"
    and "a < out \<or> out + 8 + unat len \<le> a \<Longrightarrow> m' a = m a"
proof -
  show u: "unat (8 + len) = 8 + unat len" using n by (subst unat_add_no_wrap) simp_all
  let ?ps = "mem_read m payload (unat len)" and ?w = "udp_wire sp dp (ucast (8 + len)) (mem_read m payload (unat len))"
  let ?h = "\<lparr>uh_source_port = sp, uh_dest_port = dp, uh_length = ucast (8 + len), uh_checksum = 0\<rparr>"
  have hb: "udp_header_bytes (udp_to_network_order ?h) @ ?ps = ?w"
    by (simp add: udp_header_bytes_def udp_to_network_order_def udp_wire_def byte_simps)
  have r: "mem_read (mem_write m out (udp_header_bytes ?h)) payload (unat len) = ?ps"
    using dis by (intro mem_read_write_disjoint) auto
  define m2 where "m2 = mem_write (mem_write (mem_write m out (udp_header_bytes ?h)) (out + 8) ?ps) out
      (udp_header_bytes (udp_to_network_order ?h))"
  have m2: "m2 = mem_write m out ?w"
    unfolding m2_def hb [symmetric] by (rule ext) (auto simp: mem_write_def nth_append)
  then have rd: "mem_read m2 out (8 + unat len) = ?w" by simp
  have c: "(pkt, m') = (mk_Packet out (8 + len) 0, if flag \<and> si \<noteq> 0 \<and> di \<noteq> 0
      then mem_write m2 (out + 6) (le_bytes 2 (htons (udp_calculate_checksum ?w si di))) else m2)"
    using e unfolding encapsulate_def Let_def r m2_def [symmetric] u rd by simp
  then show "pkt = mk_Packet out (8 + len) 0" by simp
  show "mem_read m' out (8 + unat len) = udp_sealed sp dp (ucast (8 + len)) ?ps si di flag"
    using c rd mem_read_write_2 [of 6 "8 + unat len" m2 out]
    by (simp add: udp_sealed_def Let_def byte_simps)
  show "m' a = m a" if "a < out \<or> out + 8 + unat len \<le> a"
    using c that unfolding m2 by (auto simp: mem_write_def)
qed

lemma udp_sealed_nth:
  assumes "i < 6"
  shows "udp_sealed sp dp len ps si di flag ! i = udp_wire sp dp len ps ! i"
  using assms by (simp add: udp_sealed_def Let_def)

lemma udp_sealed_payload: "drop 8 (udp_sealed sp dp len ps si di flag) = ps"
  by (simp add: udp_sealed_def Let_def udp_wire_def byte_simps)

lemma udp_sealed_header:
  assumes "mem_read m out (8 + length ps) = udp_sealed sp dp len ps si di flag"
  shows "\<exists>c. udp_header_of_bytes (mem_read m out 8) =
      \<lparr>uh_source_port = htons sp, uh_dest_port = htons dp, uh_length = htons len, uh_checksum = c\<rparr>"
proof -
  have m8: "mem_read m out 8 = take 8 (udp_sealed sp dp len ps si di flag)" using arg_cong [OF assms, of "take 8"] by simp
  show ?thesis
    unfolding m8 udp_header_of_bytes_def
    by (simp add: udp_sealed_nth udp_wire_def byte_simps of_le_2_bytes [of "htons _", simplified byte_simps]
        del: of_le.simps)
qed

text \<open>A sealed datagram below 64 KiB parses wherever it lies.\<close>

lemma udp_parse_sealed:
  assumes "mem_read m buf (8 + unat len) = udp_sealed sp dp (ucast (8 + len)) ps si di flag" and "length ps = unat len"
    and "8 + unat len < 65536"
  shows "\<exists>h. udp_parse m (mk_Packet buf (8 + len) 0) = Some (h, buf + 8, len) \<and> uh_source_port h = sp \<and> uh_dest_port h = dp"
    and "mem_read m (buf + 8) (unat len) = ps"
proof -
  have u: "unat (8 + len) = 8 + unat len" using assms(3) by (subst unat_add_no_wrap) simp_all
  have full: "mem_read m buf (8 + length ps) = udp_sealed sp dp (ucast (8 + len)) ps si di flag" using assms(1,2) by simp
  have "unat (ucast (8 + len) :: u16) = 8 + unat len" using assms(3) u by (simp add: unsigned_ucast_eq take_bit_eq_mod)
  then have "unat (ucast (ucast (8 + len) :: u16) :: size_type) = unat (8 + len)" using u by (simp add: unat_ucast_up)
  then have l: "ucast (ucast (8 + len) :: u16) = 8 + len" by (rule word_unat_eq_iff [THEN iffD2])
  obtain c where "udp_header_of_bytes (mem_read m buf 8) =
      \<lparr>uh_source_port = htons sp, uh_dest_port = htons dp, uh_length = htons (ucast (8 + len)), uh_checksum = c\<rparr>"
    using udp_sealed_header [OF full] by blast
  then show "\<exists>h. udp_parse m (mk_Packet buf (8 + len) 0) = Some (h, buf + 8, len) \<and> uh_source_port h = sp \<and> uh_dest_port h = dp"
    using l u by (simp add: udp_parse_def Let_def udp_to_host_order_def word_less_nat_alt)
  show "mem_read m (buf + 8) (unat len) = ps"
    using arg_cong [OF full, of "drop 8"] assms(2) by (simp add: udp_sealed_payload)
qed

section \<open>Correctness\<close>

text \<open>
  \<^bold>\<open>C24\<close>. A datagram that \<^verbatim>\<open>encapsulate\<close> builds parses back to its ports and payload, and nothing
  outside its \<open>8 + len\<close> bytes changes. The length field has 16 bits: for a datagram of 64 KiB or
  more it holds the length modulo 65536, and the parser hands out only that much or rejects it.\<close>

theorem udp_roundtrip:
  assumes "unat len + 8 < 2 ^ 64" and "payload + unat len \<le> out \<or> out + 8 + unat len \<le> payload"
    and "encapsulate payload len sp dp si di flag out m = (pkt, m')"
  shows "(if (8 + unat len) mod 65536 < 8 then udp_parse m' pkt = None
      else \<exists>h n. udp_parse m' pkt = Some (h, out + 8, n) \<and> uh_source_port h = sp \<and> uh_dest_port h = dp \<and>
             unat n = (8 + unat len) mod 65536 - 8) \<and>
    mem_read m' (out + 8) (unat len) = mem_read m payload (unat len) \<and>
    (\<forall>a. a < out \<or> out + 8 + unat len \<le> a \<longrightarrow> m' a = m a)"
proof (rule conjI [OF _ conjI])
  have "payload + unat len \<le> out \<or> out + 8 \<le> payload" using assms(2) by auto
  note e = encapsulate_bytes [OF assms(1) this assms(3)]
  let ?s = "udp_sealed sp dp (ucast (8 + len)) (mem_read m payload (unat len)) si di flag"
  have ul: "unat (ucast (8 + len) :: u16) = (8 + unat len) mod 65536"
    using e(2) by (simp add: unsigned_ucast_eq take_bit_eq_mod)
  then have ul64: "unat (ucast (ucast (8 + len) :: u16) :: size_type) = (8 + unat len) mod 65536"
    by (simp add: unat_ucast_up)
  obtain c where h: "udp_header_of_bytes (mem_read m' out 8) =
      \<lparr>uh_source_port = htons sp, uh_dest_port = htons dp, uh_length = htons (ucast (8 + len)), uh_checksum = c\<rparr>"
    using udp_sealed_header [of m' out "mem_read m payload (unat len)" sp dp "ucast (8 + len)" si di flag] e(3) by auto
  show "if (8 + unat len) mod 65536 < 8 then udp_parse m' pkt = None
      else \<exists>h n. udp_parse m' pkt = Some (h, out + 8, n) \<and> uh_source_port h = sp \<and> uh_dest_port h = dp \<and>
             unat n = (8 + unat len) mod 65536 - 8"
    using e(1,2) h ul ul64 mod_less_eq_dividend [of "8 + unat len" 65536]
    by (auto simp: udp_parse_def Let_def udp_to_host_order_def word_less_nat_alt unat_sub_le not_less)
  show "mem_read m' (out + 8) (unat len) = mem_read m payload (unat len)"
    using arg_cong [OF e(3), of "drop 8"] by (simp add: udp_sealed_payload)
  show "\<forall>a. a < out \<or> out + 8 + unat len \<le> a \<longrightarrow> m' a = m a" using e(4) by blast
qed

lemma udp_protocol_word: "ntohs (0x0011 :: u16) \<noteq> 0"
  by (simp add: htons_shift)

text \<open>
  \<^verbatim>\<open>verify_checksum\<close> accepts every datagram below 64 KiB that \<^verbatim>\<open>encapsulate\<close> has sealed with a
  checksum. A datagram sent without one is accepted only if its sum happens to be a multiple of
  65535, so receivers must not verify it.\<close>

theorem udp_verify_sealed:
  assumes "unat len + 8 < 65536" and "payload + unat len \<le> out \<or> out + 8 + unat len \<le> payload"
    and "encapsulate payload len sp dp si di flag out m = (pkt, m')"
  shows "verify_checksum m' pkt si di \<longleftrightarrow>
    flag \<and> si \<noteq> 0 \<and> di \<noteq> 0 \<or>
    (pseudo_total 0x0011 (8 + unat len) si di +
       data_total (udp_wire sp dp (ucast (8 + len)) (mem_read m payload (unat len)))) mod 65535 = 0"
proof -
  have "unat len + 8 < 2 ^ 64" "payload + unat len \<le> out \<or> out + 8 \<le> payload" using assms(1,2) by auto
  note e = encapsulate_bytes [OF this assms(3)]
  let ?w = "udp_wire sp dp (ucast (8 + len)) (mem_read m payload (unat len))"
  let ?s = "udp_sealed sp dp (ucast (8 + len)) (mem_read m payload (unat len)) si di flag"
  let ?n = "pseudo_total 0x0011 (8 + unat len) si di"
  have len: "length ?w < 65536" "length ?s < 65536" using assms(1) by simp_all
  note bw = total_bounds [OF udp_protocol_word len(1), of si di] and bs = total_bounds [OF udp_protocol_word len(2), of si di]
  have "pkt_bytes m' pkt = ?s" using e(1-3) by (simp add: pkt_bytes_def)
  then have v: "verify_checksum m' pkt si di \<longleftrightarrow> (?n + data_total ?s) mod 65535 = 0"
    using e(1,2) checksum_zero_iff [OF bs]
    by (simp add: verify_checksum_def udp_calculate_checksum_def inet_checksum_total word_less_nat_alt)
  show ?thesis
  proof (cases "flag \<and> si \<noteq> 0 \<and> di \<noteq> 0")
    case True
    let ?c = "udp_calculate_checksum ?w si di"
    have s: "?s = ?w[2 * 3 := ucast (drop_bit 8 ?c), 2 * 3 + 1 := ucast ?c]"
      using True by (simp add: udp_sealed_def Let_def)
    have "word_value ?w 3 = 0" by (simp add: word_value_def udp_wire_def byte_simps)
    moreover have "unat ?c = 256 * unat (ucast (drop_bit 8 ?c) :: u8) + unat (ucast ?c :: u8)"
      using unat_of_le_2 [of "ucast ?c" "ucast (drop_bit 8 ?c)"] by (simp add: byte_simps del: of_le.simps)
    ultimately have "data_total ?s = data_total ?w + unat ?c"
      using data_total_update [of 3 ?w "ucast (drop_bit 8 ?c)" "ucast ?c"] unfolding s by simp
    then have "(?n + data_total ?s) mod 65535 = 0"
      using checksum_complement [OF bw]
      by (simp add: udp_calculate_checksum_def inet_checksum_total add.assoc)
    with v True show ?thesis by simp
  next
    case False
    then have "?s = ?w" by (auto simp: udp_sealed_def Let_def)
    with v False show ?thesis by auto
  qed
qed

definition udp_sample_mem :: mem where
  "udp_sample_mem a = of_nat a"

theorem udp_roundtrip_witness:
  "\<exists>pkt m' h n. encapsulate 100 3 9000 9001 1 2 True 200 udp_sample_mem = (pkt, m') \<and>
     udp_parse m' pkt = Some (h, 208, n) \<and> uh_dest_port h = 9001 \<and> unat n = 3"
proof -
  obtain pkt m' where e: "encapsulate 100 3 9000 9001 1 2 True 200 udp_sample_mem = (pkt, m')" by fastforce
  from udp_roundtrip [OF _ _ e] e show ?thesis by auto
qed

theorem udp_verify_sealed_witness:
  "\<exists>pkt m'. encapsulate 100 3 9000 9001 1 2 True 200 udp_sample_mem = (pkt, m') \<and> verify_checksum m' pkt 1 2"
proof -
  obtain pkt m' where e: "encapsulate 100 3 9000 9001 1 2 True 200 udp_sample_mem = (pkt, m')" by fastforce
  from udp_verify_sealed [OF _ _ e] e show ?thesis by auto
qed

end
