(* ===== verification/Udp_Socket.thy ===== *)
theory Udp_Socket
  imports Fd_Trace Io_Status
begin

text \<open>
  \<^verbatim>\<open>UdpSocket\<close> of \<^verbatim>\<open>protocol/udp_socket.hpp\<close>, on the trace of its system calls. \<^verbatim>\<open>inet_aton\<close> is a function from text to
  addresses, the kernel's results are arguments. The batch functions build a \<^verbatim>\<open>BatchRecv\<close> or \<^verbatim>\<open>BatchSend\<close> that lives for
  one call: its buffers, at addresses given as an argument, are freed when the call returns.
\<close>

record udp_socket =
  us_fd :: int
  us_bound :: bool

definition UdpSocket_default :: udp_socket where
  "UdpSocket_default = \<lparr>us_fd = -1, us_bound = False\<rparr>"

section \<open>Opening and closing\<close>

definition udp_create :: "int \<Rightarrow> int \<Rightarrow> udp_socket \<Rightarrow> bool \<times> udp_socket \<times> sys_event list" where
  "udp_create fd flags u =
     (let u = u\<lparr>us_fd := fd\<rparr>
      in if fd < 0 then (False, u, [SysSocket SOCK_DGRAM fd])
         else (True, u, [SysSocket SOCK_DGRAM fd, SysSetfl fd (or (of_int flags) 2048)]))"

text \<open>Every operation that needs a descriptor creates one first when there is none.\<close>

definition udp_ensure :: "int \<Rightarrow> int \<Rightarrow> udp_socket \<Rightarrow> bool \<times> udp_socket \<times> sys_event list" where
  "udp_ensure fd flags u = (if us_fd u < 0 then udp_create fd flags u else (True, u, []))"

definition udp_bind ::
    "(string \<Rightarrow> u32 option) \<Rightarrow> u16 \<Rightarrow> string option \<Rightarrow> int \<Rightarrow> int \<Rightarrow> int \<Rightarrow> udp_socket \<Rightarrow> bool \<times> udp_socket \<times> sys_event list" where
  "udp_bind inet_aton port ip fd flags bound u =
     (case udp_ensure fd flags u of
        (False, u, es) \<Rightarrow> (False, u, es)
      | (True, u, es) \<Rightarrow>
          (case (case ip of Some text \<Rightarrow> inet_aton text | None \<Rightarrow> Some 0) of
             None \<Rightarrow> (False, u, es)
           | Some addr \<Rightarrow>
               let es = es @ [SysBind (us_fd u) addr (htons port)]
               in if bound < 0 then (False, u, es) else (True, u\<lparr>us_bound := True\<rparr>, es)))"

definition udp_sendto ::
    "(string \<Rightarrow> u32 option) \<Rightarrow> u8 list \<Rightarrow> string \<Rightarrow> u16 \<Rightarrow> int \<Rightarrow> int \<Rightarrow> int \<Rightarrow> udp_socket \<Rightarrow> int \<times> udp_socket \<times> sys_event list" where
  "udp_sendto inet_aton bs ip port fd flags sent u =
     (case udp_ensure fd flags u of
        (False, u, es) \<Rightarrow> (-1, u, es)
      | (True, u, es) \<Rightarrow>
          (case inet_aton ip of
             None \<Rightarrow> (-1, u, es)
           | Some addr \<Rightarrow> (sent, u, es @ [SysSendto (us_fd u) bs addr (htons port)])))"

text \<open>
  \<^verbatim>\<open>recvfrom\<close>: the kernel gives an error or a datagram with its sender's address and port; \<open>want_ip\<close> and \<open>want_port\<close> say
  whether the caller passed somewhere to put them. The result is the count with what is written there.
\<close>

definition udp_recvfrom ::
    "nat \<Rightarrow> bool \<Rightarrow> bool \<Rightarrow> int + (u8 list \<times> u32 \<times> u16) \<Rightarrow> ptr \<Rightarrow> mem \<Rightarrow> udp_socket \<Rightarrow>
     (int \<times> u32 option \<times> u16 option \<times> mem) \<times> sys_event list" where
  "udp_recvfrom buffer_size want_ip want_port answer buffer m u =
     (if us_fd u < 0 then ((-1, None, None, m), [])
      else
        (case answer of
           Inl len \<Rightarrow> (len, None, None, m)
         | Inr (bs, addr, port) \<Rightarrow>
             (int (length bs), if want_ip then Some addr else None, if want_port then Some (ntohs port) else None,
              mem_write m buffer bs),
         [SysRecvfrom (us_fd u) buffer_size]))"

definition udp_close :: "udp_socket \<Rightarrow> udp_socket \<times> sys_event list" where
  "udp_close u =
     (if 0 \<le> us_fd u then (u\<lparr>us_fd := -1, us_bound := False\<rparr>, [SysClose (us_fd u)]) else (u, []))"

section \<open>Batches\<close>

abbreviation (input) EBADF_udp :: int where "EBADF_udp \<equiv> 9"

definition batch_bad_fd :: BatchIOResult where
  "batch_bad_fd = \<lparr>br_count = 0, br_error = EBADF_udp, br_status = BatchSysError\<rparr>"

definition unified_bad_fd :: UnifiedIOResult where
  "unified_bad_fd = \<lparr>un_count = 0, un_error = EBADF_udp, un_status = UnifiedSysError\<rparr>"

text \<open>The buffers of the temporary, each of 65536 bytes: what its destructor frees.\<close>

definition temp_buffers :: "(nat \<Rightarrow> ptr) \<Rightarrow> size_type \<Rightarrow> (ptr \<times> nat) list" where
  "temp_buffers bufs max_packets = map (\<lambda>i. (bufs i, 65536)) [0..<unat max_packets]"

definition udp_recv_batch ::
    "(nat \<Rightarrow> ptr) \<Rightarrow> size_type \<Rightarrow> bool \<Rightarrow> u8 list list mmsg_answer list \<Rightarrow> bool \<Rightarrow>
     packet_ring \<Rightarrow> mem \<Rightarrow> udp_socket \<Rightarrow> (BatchIOResult \<times> packet_ring \<times> mem \<times> (ptr \<times> nat) list) option" where
  "udp_recv_batch bufs max_packets cancelled answers cancelled_after ring m u =
     (if us_fd u < 0 then Some (batch_bad_fd, ring, m, [])
      else
        case recv_batch_ring BatchIOOptions_default bufs max_packets cancelled answers cancelled_after ring m of
          None \<Rightarrow> None
        | Some (r, ring, m) \<Rightarrow> Some (r, ring, m, temp_buffers bufs max_packets))"

definition udp_recv_batch_unified ::
    "BatchIOOptions \<Rightarrow> (nat \<Rightarrow> ptr) \<Rightarrow> size_type \<Rightarrow> bool \<Rightarrow> u8 list list mmsg_answer list \<Rightarrow> bool \<Rightarrow>
     packet_ring \<Rightarrow> mem \<Rightarrow> udp_socket \<Rightarrow> (UnifiedIOResult \<times> packet_ring \<times> mem \<times> (ptr \<times> nat) list) option" where
  "udp_recv_batch_unified options bufs max_packets cancelled answers cancelled_after ring m u =
     (if us_fd u < 0 then Some (unified_bad_fd, ring, m, [])
      else
        case recv_batch_ring options bufs max_packets cancelled answers cancelled_after ring m of
          None \<Rightarrow> None
        | Some (r, ring, m) \<Rightarrow> Some (batch_to_unified_result r, ring, m, temp_buffers bufs max_packets))"

definition udp_send_batch ::
    "Packet list \<Rightarrow> bool \<Rightarrow> nat mmsg_answer list \<Rightarrow> bool \<Rightarrow> udp_socket \<Rightarrow> BatchIOResult option" where
  "udp_send_batch out_packets cancelled answers cancelled_after u =
     (if us_fd u < 0 then Some batch_bad_fd
      else send_batch BatchIOOptions_default out_packets cancelled answers cancelled_after)"

definition udp_send_batch_unified ::
    "BatchIOOptions \<Rightarrow> Packet list \<Rightarrow> bool \<Rightarrow> nat mmsg_answer list \<Rightarrow> bool \<Rightarrow> udp_socket \<Rightarrow> UnifiedIOResult option" where
  "udp_send_batch_unified options out_packets cancelled answers cancelled_after u =
     (if us_fd u < 0 then Some unified_bad_fd
      else map_option batch_to_unified_result (send_batch options out_packets cancelled answers cancelled_after))"

section \<open>Programs\<close>

datatype udp_op =
    UdpCreate int int
  | UdpBind u16 "string option" int int int
  | UdpSendto "u8 list" string u16 int int int
  | UdpRecvfrom nat
  | UdpClose

text \<open>The socket and the trace so far.\<close>

fun udp_exec :: "(string \<Rightarrow> u32 option) \<Rightarrow> udp_op \<Rightarrow> udp_socket \<times> sys_event list \<Rightarrow> udp_socket \<times> sys_event list" where
  "udp_exec aton (UdpCreate fd flags) (u, t) = (let (_, u, es) = udp_create fd flags u in (u, t @ es))"
| "udp_exec aton (UdpBind port ip fd flags bound) (u, t) = (let (_, u, es) = udp_bind aton port ip fd flags bound u in (u, t @ es))"
| "udp_exec aton (UdpSendto bs ip port fd flags sent) (u, t) =
     (let (_, u, es) = udp_sendto aton bs ip port fd flags sent u in (u, t @ es))"
| "udp_exec aton (UdpRecvfrom n) (u, t) = (u, t @ snd (udp_recvfrom n False False (Inl (-1)) nullptr (\<lambda>_. 0) u))"
| "udp_exec aton UdpClose (u, t) = (let (u, es) = udp_close u in (u, t @ es))"

text \<open>What the kernel returns is not open already, and \<^verbatim>\<open>create\<close> is called only on a socket that has no descriptor.\<close>

fun udp_op_ok :: "udp_op \<Rightarrow> udp_socket \<times> sys_event list \<Rightarrow> bool" where
  "udp_op_ok (UdpCreate fd _) (u, t) = (us_fd u < 0 \<and> kernel_fresh t fd)"
| "udp_op_ok (UdpBind _ _ fd _ _) (u, t) = kernel_fresh t fd"
| "udp_op_ok (UdpSendto _ _ _ fd _ _) (u, t) = kernel_fresh t fd"
| "udp_op_ok _ _ = True"

definition udp_run :: "(string \<Rightarrow> u32 option) \<Rightarrow> udp_op list \<Rightarrow> udp_socket \<times> sys_event list \<Rightarrow> (udp_socket \<times> sys_event list) option" where
  "udp_run aton = fd_run (udp_exec aton) udp_op_ok"

section \<open>Ownership\<close>

abbreviation udp_owned :: "udp_socket \<times> sys_event list \<Rightarrow> int multiset" where
  "udp_owned s \<equiv> owned_by (us_fd (fst s))"

lemma udp_ensure_accounted:
  assumes "accounted (owned_by (us_fd u)) t" and "kernel_fresh t fd" and "udp_ensure fd flags u = (r, u', es)"
  shows "accounted (owned_by (us_fd u')) (t @ es) \<and> (us_fd u' < 0 \<longrightarrow> \<not> r)"
proof (cases "us_fd u < 0")
  case True
  then have "yields (open_fds t) es fd" "us_fd u' = fd" and r: "us_fd u' < 0 \<longrightarrow> \<not> r"
    using assms(2,3) by (auto simp: udp_ensure_def udp_create_def yields_def kernel_fresh_def Let_def split: if_splits)
  with accounted_yields [OF assms(1)] True show ?thesis by (simp add: owned_by_def)
qed (use assms in \<open>auto simp: udp_ensure_def\<close>)

lemma accounted_quiet: "accounted owned t \<Longrightarrow> fold fd_step es = id \<Longrightarrow> clean_from (open_fds t) es \<Longrightarrow> accounted owned (t @ es)"
  by (simp add: accounted_def fd_simps)

lemma udp_exec_accounted:
  assumes "accounted (udp_owned s) (snd s)" and "udp_op_ok p s"
  shows "accounted (udp_owned (udp_exec aton p s)) (snd (udp_exec aton p s))"
proof -
  obtain u t where s: "s = (u, t)" by fastforce
  show ?thesis
  proof (cases p)
    case (UdpCreate fd flags)
    then have "udp_create fd flags u = udp_ensure fd flags u" using assms(2) s by (simp add: udp_ensure_def)
    then show ?thesis using udp_ensure_accounted [of u t fd flags] assms UdpCreate s
      by (auto simp: split_beta Let_def) (metis prod.collapse)
  next
    case (UdpBind port ip fd flags bound)
    obtain r u' es where e: "udp_ensure fd flags u = (r, u', es)" by (metis prod_cases3)
    from udp_ensure_accounted [OF _ _ e] assms UdpBind s have "accounted (owned_by (us_fd u')) (t @ es)" by simp
    then show ?thesis using UdpBind s e
      by (auto simp: udp_bind_def Let_def accounted_def fd_simps split: bool.split option.splits)
  next
    case (UdpSendto bs ip port fd flags sent)
    obtain r u' es where e: "udp_ensure fd flags u = (r, u', es)" by (metis prod_cases3)
    from udp_ensure_accounted [OF _ _ e] assms UdpSendto s have "accounted (owned_by (us_fd u')) (t @ es)" by simp
    then show ?thesis using UdpSendto s e
      by (auto simp: udp_sendto_def Let_def accounted_def fd_simps split: bool.split option.splits)
  next
    case (UdpRecvfrom n)
    with assms s show ?thesis by (auto simp: udp_recvfrom_def accounted_def fd_simps)
  next
    case UdpClose
    with assms s accounted_close [of "us_fd u" "{#}" t] show ?thesis by (auto simp: udp_close_def owned_by_def)
  qed
qed

interpretation udp_program: fd_program "udp_exec aton" udp_op_ok udp_owned snd
  by unfold_locales (rule udp_exec_accounted)

text \<open>
  A \<^verbatim>\<open>UdpSocket\<close> that is never created over an open one leaks nothing and closes nothing twice: through any
  sequence of binds, sends, receives, closes and creations, failures included, at most the one descriptor it holds is
  open, and none is after its destructor.\<close>

theorem udp_socket_no_leak:
  assumes "udp_run aton ops (UdpSocket_default, []) = Some (u, t)"
  shows "open_fds t = (if 0 \<le> us_fd u then {us_fd u} else {}) \<and> clean (t @ snd (udp_close u)) \<and> open_fds (t @ snd (udp_close u)) = {}"
proof -
  have "accounted (udp_owned (UdpSocket_default, [])) (snd (UdpSocket_default, []))"
    by (simp add: accounted_def UdpSocket_default_def)
  from udp_program.run [OF this assms [unfolded udp_run_def]] have a: "accounted (owned_by (us_fd u)) t" by simp
  have "set_mset (owned_by (us_fd u)) = open_fds t" using a by (simp add: accounted_def)
  then have fds: "open_fds t = (if 0 \<le> us_fd u then {us_fd u} else {})" by (auto simp: owned_by_def split: if_splits)
  with a show ?thesis by (auto simp: udp_close_def accounted_def fd_simps)
qed

theorem udp_socket_no_leak_witness:
  "\<exists>u t. udp_run (\<lambda>_. None) [UdpBind 9000 None 3 2 0, UdpSendto [1] ''x'' 9 4 2 1, UdpClose, UdpCreate 3 2] (UdpSocket_default, []) = Some (u, t) \<and>
    open_fds t = {3} \<and> open_fds (t @ snd (udp_close u)) = {}"
proof -
  have "\<exists>u t. udp_run (\<lambda>_. None) [UdpBind 9000 None 3 2 0, UdpSendto [1] ''x'' 9 4 2 1, UdpClose, UdpCreate 3 2] (UdpSocket_default, []) = Some (u, t) \<and> us_fd u = 3"
    by (simp add: udp_run_def UdpSocket_default_def kernel_fresh_def udp_bind_def udp_ensure_def udp_create_def udp_sendto_def udp_close_def
        Let_def fd_simps open_fds_def)
  then obtain u t where r: "udp_run (\<lambda>_. None) [UdpBind 9000 None 3 2 0, UdpSendto [1] ''x'' 9 4 2 1, UdpClose, UdpCreate 3 2] (UdpSocket_default, []) = Some (u, t)"
    "us_fd u = 3" by blast
  with udp_socket_no_leak [OF r(1)] show ?thesis by auto
qed

text \<open>
  Calling \<^verbatim>\<open>create\<close> on an open socket leaks: the old descriptor stays open after the socket has been
  destroyed. A socket that was bound still says so, although the new descriptor is not.\<close>

theorem udp_create_leaks:
  assumes "accounted (owned_by (us_fd u)) t" and "0 \<le> us_fd u" and "kernel_fresh t fd"
    and "udp_create fd flags u = (ok, u', es)"
  shows "us_fd u \<in> open_fds (t @ es @ snd (udp_close u')) \<and> us_bound u' = us_bound u"
proof -
  have fds: "open_fds t = {us_fd u}"
    using assms(1,2) by (metis accounted_def finite_set_mset_mset_set owned_by_def set_mset_single)
  with assms(3) have "fd \<noteq> us_fd u" by (simp add: kernel_fresh_def)
  moreover have "u' = u\<lparr>us_fd := fd\<rparr>" "fold fd_step es {us_fd u} = (if fd < 0 then {us_fd u} else {fd, us_fd u})"
    using assms(4) by (simp_all add: udp_create_def Let_def split: if_splits) (auto)
  ultimately show ?thesis by (simp add: open_fds_append fds udp_close_def)
qed

theorem udp_create_leaks_witness:
  "\<exists>u t. udp_run (\<lambda>_. None) [UdpBind 9000 None 3 2 0] (UdpSocket_default, []) = Some (u, t) \<and>
    3 \<in> open_fds (t @ snd (snd (udp_create 4 2 u)) @ snd (udp_close (fst (snd (udp_create 4 2 u))))) \<and> us_bound (fst (snd (udp_create 4 2 u)))"
proof -
  let ?u = "\<lparr>us_fd = 3, us_bound = True\<rparr>" and ?t = "[SysSocket SOCK_DGRAM 3, SysSetfl 3 2050, SysBind 3 0 (htons 9000)]"
  have run: "udp_run (\<lambda>_. None) [UdpBind 9000 None 3 2 0] (UdpSocket_default, []) = Some (?u, ?t)"
    by (simp add: udp_run_def UdpSocket_default_def kernel_fresh_def udp_bind_def udp_ensure_def udp_create_def Let_def)
  have acc: "accounted (owned_by (us_fd ?u)) ?t" and fresh: "kernel_fresh ?t 4"
    by (simp_all add: accounted_def owned_by_def kernel_fresh_def clean_def open_fds_def)
  obtain r u' es where c: "udp_create 4 2 ?u = (r, u', es)" by (metis prod_cases3)
  from udp_create_leaks [OF acc _ fresh c] run c show ?thesis by auto
qed

section \<open>Received batches\<close>

text \<open>
  The packets that \<^verbatim>\<open>UdpSocket::recv_batch\<close> leaves in the ring point to freed memory: their bytes lie in the
  buffers of a receiver that was destroyed when the call returned.\<close>

theorem udp_recv_batch_dangles:
  assumes "0 \<le> us_fd u" and "ring_inv (length msgs) ring"
    and "mmsg_with_policy BatchIOOptions_default [] cancelled answers = Some (Inl msgs)" and "msgs \<noteq> []"
    and "length msgs \<le> unat max_packets" and "\<forall>msg \<in> set msgs. length msg \<le> 65536"
  shows "\<exists>r ring' m' freed new. udp_recv_batch bufs max_packets cancelled answers after ring m u = Some (r, ring', m', freed) \<and>
    ring_contents ring' = ring_contents ring @ new \<and> unat (br_count r) = length new \<and>
    (\<forall>p \<in> set new. \<exists>(b, n) \<in> set freed. pkt_data p = b \<and> unat (pkt_len p) \<le> n)"
proof -
  have inv: "ring_inv (length msgs + 0) ring" and mp: "max_packets \<noteq> 0" using assms(2,4,5) by auto
  obtain k ring' where r: "recv_batch_ring BatchIOOptions_default bufs max_packets cancelled answers after ring m =
       Some (\<lparr>br_count = of_nat k, br_error = 0, br_status = BatchOk\<rparr>, ring', recv_into bufs msgs m)"
    "k = min (length msgs) (unat (ring_capacity ring) - length (ring_contents ring))"
    "ring_contents ring' = ring_contents ring @ take k (received_packets bufs msgs)"
    by (rule recv_batch_ring_delivers [OF inv assms(3,4) mp])
  have "\<exists>(b, n) \<in> set (temp_buffers bufs max_packets). pkt_data p = b \<and> unat (pkt_len p) \<le> n"
    if p: "p \<in> set (received_packets bufs msgs)" for p
  proof -
    from p obtain i where i: "i < length msgs" "p = mk_Packet (bufs i) (of_nat (length (msgs ! i))) 0"
      by (auto simp: received_packets_def)
    have "length (msgs ! i) \<le> 65536" using assms(6) i(1) by simp
    then have "unat (pkt_len p) \<le> 65536" using i(2) by (simp add: unat_of_nat_small)
    moreover have "(bufs i, 65536) \<in> set (temp_buffers bufs max_packets)" using i(1) assms(5) by (auto simp: temp_buffers_def)
    ultimately show ?thesis using i(2) by force
  qed
  then have fr: "\<forall>p \<in> set (take k (received_packets bufs msgs)). \<exists>(b, n) \<in> set (temp_buffers bufs max_packets). pkt_data p = b \<and> unat (pkt_len p) \<le> n"
    using set_take_subset by fastforce
  have kn: "k \<le> length msgs" using r(2) by simp
  have "length msgs < 18446744073709551616" by (rule le_less_trans [OF assms(5) unat_less_2p64])
  with kn have "unat (of_nat k :: size_type) = length (take k (received_packets bufs msgs))"
    by (simp add: received_packets_def unat_of_nat_small)
  with r(1,3) fr assms(1) show ?thesis
    by (intro exI [of _ "\<lparr>br_count = of_nat k, br_error = 0, br_status = BatchOk\<rparr>"] exI [of _ ring'] exI [of _ "recv_into bufs msgs m"]
        exI [of _ "temp_buffers bufs max_packets"] exI [of _ "take k (received_packets bufs msgs)"]) (simp add: udp_recv_batch_def)
qed

theorem udp_recv_batch_dangles_witness:
  "\<exists>r ring' m' freed new. udp_recv_batch (\<lambda>i. 65536 * (i + 1)) 8 False
      [\<lparr>ma_result = Inl [[1, 2, 3], [4]], ma_cancel = False, ma_poll = None\<rparr>] False (PacketRing 8) (\<lambda>_. 0) \<lparr>us_fd = 3, us_bound = True\<rparr> =
      Some (r, ring', m', freed) \<and>
    ring_contents ring' = ring_contents (PacketRing 8) @ new \<and> unat (br_count r) = length new \<and>
    (\<forall>p \<in> set new. \<exists>(b, n) \<in> set freed. pkt_data p = b \<and> unat (pkt_len p) \<le> n)"
proof (rule udp_recv_batch_dangles)
  show "ring_inv (length [[1, 2, 3], [4 :: u8]]) (PacketRing 8)" using PacketRing_inv(1) [of 8 "length [[1, 2, 3], [4 :: u8]]"] by simp
qed (simp_all add: BatchIOOptions_default_def mmsg_with_policy_def policy_step_def)

end
