(* ===== verification/Feed_Publisher.thy ===== *)
theory Feed_Publisher
  imports App_Messages Memory_Pool Udp_Protocol Udp_Socket
begin

text \<open>
  The market data publisher \<^verbatim>\<open>apps/market_udp/feed_publisher.cpp\<close>: it numbers messages, drops and reorders some of them as a
  random generator says, and sends each as one UDP datagram built in a pool block.

  One turn of the loop takes what the generator says (whether to drop, whether to swap) and the time stamp; the results of
  \<^verbatim>\<open>sendto\<close>, the address of the payload vector, \<^verbatim>\<open>inet_aton\<close> and what \<^verbatim>\<open>create\<close> would get from the kernel are arguments.
\<close>

section \<open>State\<close>

record pub_turn =
  pt_drop :: bool
  pt_reorder :: bool
  pt_ts :: u64

record pub_env =
  pe_payload :: ptr
  pe_send :: "nat \<Rightarrow> int"
  pe_aton :: "string \<Rightarrow> u32 option"
  pe_fd :: int
  pe_flags :: int
  pe_streams :: u64
  pe_payload_bytes :: size_type

record publisher =
  pb_seq :: u64
  pb_sent_total :: u64
  pb_dropped_total :: u64
  pb_reordered_total :: u64
  pb_reorder_q :: "MarketDataIncrement list"
  pb_pool :: memory_pool
  pb_mem :: mem
  pb_socket :: udp_socket
  pb_trace :: "sys_event list"
  pb_sends :: nat

datatype pub_outcome = PubUndefined | PubExited publisher | PubRunning publisher

abbreviation (input) kMulticastGroup :: string where "kMulticastGroup \<equiv> ''239.0.0.1''"
abbreviation (input) kMulticastPort :: u16 where "kMulticastPort \<equiv> 9100"
abbreviation (input) kSrcPort :: u16 where "kSrcPort \<equiv> 9001"
abbreviation (input) kPublisherIp :: u32 where "kPublisherIp \<equiv> 0x7F000001"
abbreviation (input) kGroupIp :: u32 where "kGroupIp \<equiv> 0xEF000001"

section \<open>Sending\<close>

text \<open>The payload vector: zeros, with the message copied over its beginning.\<close>

definition pub_payload :: "size_type \<Rightarrow> MarketDataIncrement \<Rightarrow> u8 list" where
  "pub_payload payload_bytes msg = MarketDataIncrement_bytes msg @ replicate (unat payload_bytes - 40) 0"

definition pub_send :: "pub_env \<Rightarrow> MarketDataIncrement \<Rightarrow> publisher \<Rightarrow> pub_outcome" where
  "pub_send env msg p =
     (let m = mem_write (pb_mem p) (pe_payload env) (pub_payload (pe_payload_bytes env) msg)
      in case mp_allocate (pb_pool p) of
           None \<Rightarrow> PubUndefined
         | Some (buf, pool) \<Rightarrow>
             if buf = nullptr then PubUndefined
             else
               let (packet, m) = encapsulate (pe_payload env) (pe_payload_bytes env) kSrcPort kMulticastPort kPublisherIp kGroupIp True buf m;
                   (n, u, es) = udp_sendto (pe_aton env) (pkt_bytes m packet) kMulticastGroup kMulticastPort (pe_fd env) (pe_flags env)
                     (pe_send env (pb_sends p)) (pb_socket p)
               in case mp_deallocate (pkt_data packet) pool of
                    None \<Rightarrow> PubUndefined
                  | Some pool \<Rightarrow>
                      let p = p\<lparr>pb_mem := m, pb_pool := pool, pb_socket := u, pb_trace := pb_trace p @ es, pb_sends := Suc (pb_sends p)\<rparr>
                      in if n \<noteq> int (unat (pkt_len packet)) then
                           let (u, es) = udp_close (pb_socket p)
                           in PubExited (p\<lparr>pb_socket := u, pb_trace := pb_trace p @ es\<rparr>)
                         else PubRunning (p\<lparr>pb_sent_total := pb_sent_total p + 1\<rparr>))"

text \<open>\<^verbatim>\<open>while (reorder_q.size() > 1)\<close>: send the front of the queue.\<close>

fun pub_flush :: "pub_env \<Rightarrow> MarketDataIncrement list \<Rightarrow> publisher \<Rightarrow> pub_outcome" where
  "pub_flush env (send_msg # next_msg # q) p =
     (case pub_send env send_msg (p\<lparr>pb_reorder_q := next_msg # q\<rparr>) of
        PubRunning p \<Rightarrow> pub_flush env (next_msg # q) p
      | r \<Rightarrow> r)"
| "pub_flush env q p = PubRunning p"

section \<open>The loop\<close>

definition pub_message :: "pub_env \<Rightarrow> u64 \<Rightarrow> u64 \<Rightarrow> MarketDataIncrement" where
  "pub_message env seq ts =
     \<lparr>md_seq = seq, md_stream_id = ucast ((seq - 1) mod pe_streams env), md_instrument_id = 10001, md_bid_price = 100000,
      md_bid_qty = 10, md_ask_price = 100010, md_ask_qty = 10, md_send_ts_ns = ts\<rparr>"

definition swap_last :: "'a list \<Rightarrow> 'a list" where
  "swap_last q = (let n = length q in q[n - 1 := q ! (n - 2), n - 2 := q ! (n - 1)])"

definition pub_step :: "pub_env \<Rightarrow> pub_turn \<Rightarrow> publisher \<Rightarrow> pub_outcome" where
  "pub_step env turn p =
     (let msg = pub_message env (pb_seq p) (pt_ts turn); p = p\<lparr>pb_seq := pb_seq p + 1\<rparr>
      in if pt_drop turn then PubRunning (p\<lparr>pb_dropped_total := pb_dropped_total p + 1\<rparr>)
         else
           let q = pb_reorder_q p @ [msg];
               p = (if pt_reorder turn \<and> length q \<ge> 2
                    then p\<lparr>pb_reorder_q := swap_last q, pb_reordered_total := pb_reordered_total p + 1\<rparr>
                    else p\<lparr>pb_reorder_q := q\<rparr>)
           in pub_flush env (pb_reorder_q p) p)"

fun publisher_main :: "pub_env \<Rightarrow> pub_turn list \<Rightarrow> publisher \<Rightarrow> pub_outcome" where
  "publisher_main env [] p = PubRunning p"
| "publisher_main env (turn # turns) p =
     (case pub_step env turn p of PubRunning p \<Rightarrow> publisher_main env turns p | r \<Rightarrow> r)"

text \<open>
  The start: the options have been read (a payload holds at least one message), the socket is created and the pool is
  allocated at \<open>base\<close>. \<open>None\<close>: the socket could not be created, or the pool has no blocks.
\<close>

definition pub_payload_bytes :: "int \<Rightarrow> size_type" where
  "pub_payload_bytes payload_size = of_int (max payload_size 40)"

definition publisher_init :: "ptr \<Rightarrow> int \<Rightarrow> int \<Rightarrow> int \<Rightarrow> mem \<Rightarrow> publisher option" where
  "publisher_init base payload_size fd flags m =
     (case udp_create fd flags UdpSocket_default of
        (False, _) \<Rightarrow> None
      | (True, u, es) \<Rightarrow>
          (case MemoryPool base (8 + pub_payload_bytes payload_size + 16) 64 of
             None \<Rightarrow> None
           | Some pool \<Rightarrow>
               Some \<lparr>pb_seq = 1, pb_sent_total = 0, pb_dropped_total = 0, pb_reordered_total = 0, pb_reorder_q = [], pb_pool = pool,
                 pb_mem = m, pb_socket = u, pb_trace = es @ [SysSetsockopt (us_fd u) (IP_MULTICAST_TTL 1)], pb_sends = 0\<rparr>))"

section \<open>One message\<close>

definition pub_frame :: "pub_env \<Rightarrow> MarketDataIncrement \<Rightarrow> u8 list" where
  "pub_frame env msg = udp_sealed kSrcPort kMulticastPort (ucast (8 + pe_payload_bytes env))
     (pub_payload (pe_payload_bytes env) msg) kPublisherIp kGroupIp True"

text \<open>The options are sane: a payload holds a message and fits a datagram, and the group's address can be converted to \<open>addr\<close>.\<close>

definition pub_env_ok :: "pub_env \<Rightarrow> u32 \<Rightarrow> bool" where
  "pub_env_ok env addr \<longleftrightarrow> 40 \<le> unat (pe_payload_bytes env) \<and> unat (pe_payload_bytes env) + 8 < 65536 \<and>
     pe_aton env kMulticastGroup = Some addr"

text \<open>The publisher can send: the pool hands out \<open>b\<close> next, which does not overlap the payload vector, and the socket \<open>fd\<close> is open.\<close>

definition pub_ready :: "pub_env \<Rightarrow> ptr \<Rightarrow> int \<Rightarrow> publisher \<Rightarrow> bool" where
  "pub_ready env b fd p \<longleftrightarrow> (\<exists>free live. mp_inv (pb_pool p) (b # free) live) \<and> us_fd (pb_socket p) = fd \<and> 0 \<le> fd \<and>
     (pe_payload env + unat (pe_payload_bytes env) \<le> b \<or> b + 8 \<le> pe_payload env)"

lemma length_pub_payload: "40 \<le> unat n \<Longrightarrow> length (pub_payload n msg) = unat n"
  by (simp add: pub_payload_def)

text \<open>The state after \<^verbatim>\<open>sendto\<close> returned.\<close>

definition pub_after :: "pub_env \<Rightarrow> MarketDataIncrement \<Rightarrow> int \<Rightarrow> u32 \<Rightarrow> mem \<Rightarrow> memory_pool \<Rightarrow> publisher \<Rightarrow> publisher" where
  "pub_after env msg fd addr m pool p = p\<lparr>pb_mem := m, pb_pool := pool,
     pb_trace := pb_trace p @ [SysSendto fd (pub_frame env msg) addr (htons kMulticastPort)], pb_sends := Suc (pb_sends p)\<rparr>"

lemma pub_send_cases:
  assumes "pub_env_ok env addr" and "pub_ready env b fd p"
  obtains m pool where
    "pub_send env msg p =
       (let q = pub_after env msg fd addr m pool p
        in if pe_send env (pb_sends p) = 8 + int (unat (pe_payload_bytes env)) then PubRunning (q\<lparr>pb_sent_total := pb_sent_total p + 1\<rparr>)
           else PubExited (q\<lparr>pb_socket := \<lparr>us_fd = -1, us_bound = False\<rparr>, pb_trace := pb_trace q @ [SysClose fd]\<rparr>))"
    "pub_ready env b fd (p\<lparr>pb_mem := m, pb_pool := pool\<rparr>)"
proof -
  let ?n = "pe_payload_bytes env"
  from assms(2) obtain free live where inv: "mp_inv (pb_pool p) (b # free) live" by (auto simp: pub_ready_def)
  obtain p1 p2 where pool: "mp_allocate (pb_pool p) = Some (b, p1)" "mp_deallocate b p1 = Some p2" "mp_inv p2 (b # free) live" "b \<noteq> nullptr"
    by (rule mpool.borrow [OF inv])
  let ?m = "mem_write (pb_mem p) (pe_payload env) (pub_payload ?n msg)"
  obtain packet m where e: "encapsulate (pe_payload env) ?n kSrcPort kMulticastPort kPublisherIp kGroupIp True b ?m = (packet, m)" by fastforce
  have small: "unat ?n + 8 < 2 ^ 64" and dis: "pe_payload env + unat ?n \<le> b \<or> b + 8 \<le> pe_payload env"
    using assms by (auto simp: pub_env_ok_def pub_ready_def)
  note eb = encapsulate_bytes [OF small dis e]
  have "mem_read ?m (pe_payload env) (unat ?n) = pub_payload ?n msg"
    using assms(1) by (simp add: length_pub_payload pub_env_ok_def)
  with eb(1-3) have bytes: "pkt_bytes m packet = pub_frame env msg" by (simp add: pkt_bytes_def pub_frame_def)
  have u: "udp_close (pb_socket p) = (\<lparr>us_fd = -1, us_bound = False\<rparr>, [SysClose fd])"
    using assms(2) by (cases "pb_socket p") (simp add: udp_close_def pub_ready_def)
  have "pub_ready env b fd (p\<lparr>pb_mem := m, pb_pool := p2\<rparr>)" using pool(3) assms(2) by (auto simp: pub_ready_def)
  moreover have "pub_send env msg p =
       (let q = pub_after env msg fd addr m p2 p
        in if pe_send env (pb_sends p) = 8 + int (unat ?n) then PubRunning (q\<lparr>pb_sent_total := pb_sent_total p + 1\<rparr>)
           else PubExited (q\<lparr>pb_socket := \<lparr>us_fd = -1, us_bound = False\<rparr>, pb_trace := pb_trace q @ [SysClose fd]\<rparr>))"
    using pool(1,2,4) e eb(1,2) bytes assms u
    by (simp add: pub_send_def pub_after_def udp_sendto_def udp_ensure_def pub_ready_def pub_env_ok_def Let_def)
  ultimately show ?thesis by (intro that)
qed

section \<open>The schedule\<close>

text \<open>
  What the publisher means to do, without memory and sockets: at most one message is held back; a new message either
  replaces it there, and the old one is sent, or overtakes it and is sent itself.
\<close>

fun pub_spec :: "pub_env \<Rightarrow> pub_turn list \<Rightarrow> u64 \<Rightarrow> MarketDataIncrement list \<Rightarrow> MarketDataIncrement list \<times> MarketDataIncrement list" where
  "pub_spec env [] seq hq = ([], hq)"
| "pub_spec env (turn # turns) seq hq =
     (let msg = pub_message env seq (pt_ts turn)
      in if pt_drop turn then pub_spec env turns (seq + 1) hq
         else case hq of
                [] \<Rightarrow> pub_spec env turns (seq + 1) [msg]
              | h # _ \<Rightarrow>
                  let (now, later) = (if pt_reorder turn then (msg, h) else (h, msg));
                      (sent, hq) = pub_spec env turns (seq + 1) [later]
                  in (now # sent, hq))"

text \<open>The messages that are not dropped.\<close>

fun pub_kept :: "pub_env \<Rightarrow> pub_turn list \<Rightarrow> u64 \<Rightarrow> MarketDataIncrement list" where
  "pub_kept env [] seq = []"
| "pub_kept env (turn # turns) seq =
     (if pt_drop turn then pub_kept env turns (seq + 1)
      else pub_message env seq (pt_ts turn) # pub_kept env turns (seq + 1))"

definition sent_frames :: "sys_event list \<Rightarrow> u8 list list" where
  "sent_frames trace = concat (map (\<lambda>e. case e of SysSendto _ bs _ _ \<Rightarrow> [bs] | _ \<Rightarrow> []) trace)"

lemma pub_spec_kept: "length hq \<le> 1 \<Longrightarrow> pub_spec env turns seq hq = (sent, hq') \<Longrightarrow>
    mset sent + mset hq' = mset hq + mset (pub_kept env turns seq) \<and> length hq' \<le> 1 \<and>
    (hq' = [] \<longleftrightarrow> hq = [] \<and> pub_kept env turns seq = []) \<and>
    ((\<forall>turn \<in> set turns. \<not> pt_reorder turn) \<longrightarrow> sent @ hq' = hq @ pub_kept env turns seq)"
proof (induction turns arbitrary: seq hq sent)
  case (Cons turn turns)
  show ?case
  proof (cases "pt_drop turn")
    case True
    then show ?thesis using Cons by simp
  next
    case False
    show ?thesis
    proof (cases hq)
      case Nil
      with Cons.IH [of "[pub_message env seq (pt_ts turn)]" "seq + 1" sent] Cons.prems False show ?thesis by simp
    next
      case (Cons h t)
      then have hq: "hq = [h]" using Cons.prems(1) by simp
      obtain now later where nl: "(now, later) = (if pt_reorder turn then (pub_message env seq (pt_ts turn), h) else (h, pub_message env seq (pt_ts turn)))"
        by (cases "pt_reorder turn") auto
      obtain sent1 where s1: "pub_spec env turns (seq + 1) [later] = (sent1, hq')" "sent = now # sent1"
        using Cons.prems(2) False hq by (auto simp: Let_def nl [symmetric] split: prod.splits)
      from Cons.IH [OF _ s1(1)] s1(2) False hq nl show ?thesis by (auto split: if_splits)
    qed
  qed
qed simp

lemma pub_step_first:
  "\<not> pt_drop turn \<Longrightarrow> pb_reorder_q p = [] \<Longrightarrow>
     pub_step env turn p = PubRunning (p\<lparr>pb_seq := pb_seq p + 1, pb_reorder_q := [pub_message env (pb_seq p) (pt_ts turn)]\<rparr>)"
  by (simp add: pub_step_def Let_def)

lemma pub_step_next:
  assumes "\<not> pt_drop turn" and "pb_reorder_q p = [h]" and "msg = pub_message env (pb_seq p) (pt_ts turn)"
    and "(now, later) = (if pt_reorder turn then (msg, h) else (h, msg))"
  shows "\<exists>r. pub_step env turn p = pub_send env now (p\<lparr>pb_seq := pb_seq p + 1, pb_reordered_total := r, pb_reorder_q := [later]\<rparr>)"
proof -
  have "pub_flush env [x, y] p1 = pub_send env x (p1\<lparr>pb_reorder_q := [y]\<rparr>)" for x y p1
    by (cases "pub_send env x (p1\<lparr>pb_reorder_q := [y]\<rparr>)") simp_all
  with assms show ?thesis
    by (intro exI [of _ "if pt_reorder turn then pb_reordered_total p + 1 else pb_reordered_total p"])
      (auto simp: pub_step_def Let_def swap_last_def)
qed

lemma sent_frames_append [simp]: "sent_frames (xs @ ys) = sent_frames xs @ sent_frames ys"
  by (simp add: sent_frames_def)

lemma sent_frames_simps [simp]: "sent_frames [] = []" "sent_frames (SysSendto fd bs addr port # t) = bs # sent_frames t"
  "sent_frames (SysClose fd # t) = sent_frames t" "sent_frames (SysSocket ty fd # t) = sent_frames t"
  "sent_frames (SysSetfl fd fl # t) = sent_frames t" "sent_frames (SysSetsockopt fd opt # t) = sent_frames t"
  by (simp_all add: sent_frames_def)

text \<open>The publisher follows its schedule as long as the sends succeed; the first that fails ends it.\<close>

definition full_send :: "pub_env \<Rightarrow> nat \<Rightarrow> bool" where
  "full_send env i \<longleftrightarrow> pe_send env i = 8 + int (unat (pe_payload_bytes env))"

definition pub_exit :: "pub_env \<Rightarrow> int \<Rightarrow> nat \<Rightarrow> MarketDataIncrement list \<Rightarrow> publisher \<Rightarrow> pub_outcome \<Rightarrow> bool" where
  "pub_exit env fd n sent p r \<longleftrightarrow> (\<exists>p'. r = PubExited p' \<and> us_fd (pb_socket p') = -1 \<and> last (pb_trace p') = SysClose fd \<and>
     sent_frames (pb_trace p') = sent_frames (pb_trace p) @ map (pub_frame env) (take (Suc n) sent) \<and>
     pb_sent_total p' = pb_sent_total p + of_nat n)"

definition pub_goes_on :: "pub_env \<Rightarrow> ptr \<Rightarrow> int \<Rightarrow> pub_turn list \<Rightarrow> MarketDataIncrement list \<Rightarrow> MarketDataIncrement list \<Rightarrow> publisher \<Rightarrow> pub_outcome \<Rightarrow> bool" where
  "pub_goes_on env b fd turns sent hq p r \<longleftrightarrow> (\<exists>p'. r = PubRunning p' \<and> pub_ready env b fd p' \<and> pb_reorder_q p' = hq \<and>
     sent_frames (pb_trace p') = sent_frames (pb_trace p) @ map (pub_frame env) sent \<and>
     pb_sends p' = pb_sends p + length sent \<and> pb_sent_total p' = pb_sent_total p + of_nat (length sent) \<and>
     pb_dropped_total p' = pb_dropped_total p + of_nat (length (filter pt_drop turns)) \<and>
     pb_seq p' = pb_seq p + of_nat (length turns))"

lemma publisher_main_spec:
  assumes "pub_env_ok env addr" and "\<forall>i < k. full_send env i" and "pub_ready env b fd p" and "length (pb_reorder_q p) \<le> 1"
    and "pub_spec env turns (pb_seq p) (pb_reorder_q p) = (sent, hq)" and "pb_sends p \<le> k"
  shows "(length sent \<le> k - pb_sends p \<longrightarrow> pub_goes_on env b fd turns sent hq p (publisher_main env turns p)) \<and>
    (k - pb_sends p < length sent \<and> \<not> full_send env k \<longrightarrow> pub_exit env fd (k - pb_sends p) sent p (publisher_main env turns p))"
  using assms(3-6)
proof (induction turns arbitrary: p sent)
  case (Cons turn turns)
  let ?msg = "pub_message env (pb_seq p) (pt_ts turn)"
  show ?case
  proof (cases "pt_drop turn")
    case True
    let ?p = "p\<lparr>pb_seq := pb_seq p + 1, pb_dropped_total := pb_dropped_total p + 1\<rparr>"
    have "pub_step env turn p = PubRunning ?p" using True by (simp add: pub_step_def Let_def)
    with Cons.IH [of ?p sent] Cons.prems True show ?thesis
      by (auto simp: pub_ready_def pub_goes_on_def pub_exit_def add.assoc)
  next
    case keep: False
    show ?thesis
    proof (cases "pb_reorder_q p")
      case Nil
      let ?p = "p\<lparr>pb_seq := pb_seq p + 1, pb_reorder_q := [?msg]\<rparr>"
      from Cons.IH [of ?p sent] Cons.prems keep Nil pub_step_first [OF keep Nil] show ?thesis
        by (auto simp: pub_ready_def pub_goes_on_def pub_exit_def add.assoc)
    next
      case (Cons h t)
      then have q: "pb_reorder_q p = [h]" using Cons.prems(2) by simp
      obtain now later where nl: "(now, later) = (if pt_reorder turn then (?msg, h) else (h, ?msg))" by (cases "pt_reorder turn") auto
      obtain sent1 where s1: "pub_spec env turns (pb_seq p + 1) [later] = (sent1, hq)" "sent = now # sent1"
        using Cons.prems(3) keep q by (auto simp: Let_def nl [symmetric] split: prod.splits)
      obtain r where st: "pub_step env turn p = pub_send env now (p\<lparr>pb_seq := pb_seq p + 1, pb_reordered_total := r, pb_reorder_q := [later]\<rparr>)"
        using pub_step_next [OF keep q refl nl] by blast
      let ?p = "p\<lparr>pb_seq := pb_seq p + 1, pb_reordered_total := r, pb_reorder_q := [later]\<rparr>"
      have ready: "pub_ready env b fd ?p" using Cons.prems(1) by (simp add: pub_ready_def)
      obtain m pool where snd: "pub_send env now ?p = (let q = pub_after env now fd addr m pool ?p
          in if pe_send env (pb_sends ?p) = 8 + int (unat (pe_payload_bytes env)) then PubRunning (q\<lparr>pb_sent_total := pb_sent_total ?p + 1\<rparr>)
             else PubExited (q\<lparr>pb_socket := \<lparr>us_fd = -1, us_bound = False\<rparr>, pb_trace := pb_trace q @ [SysClose fd]\<rparr>))"
        "pub_ready env b fd (?p\<lparr>pb_mem := m, pb_pool := pool\<rparr>)" by (rule pub_send_cases [OF assms(1) ready])
      show ?thesis
      proof (cases "pb_sends p < k")
        case True
        let ?p1 = "(pub_after env now fd addr m pool ?p)\<lparr>pb_sent_total := pb_sent_total ?p + 1\<rparr>"
        have "pub_send env now ?p = PubRunning ?p1" using snd(1) assms(2) True by (simp add: full_send_def)
        then have run: "publisher_main env (turn # turns) p = publisher_main env turns ?p1" using st by simp
        have "pub_ready env b fd ?p1" using snd(2) by (simp add: pub_after_def pub_ready_def)
        from Cons.IH [OF this, of sent1] True s1 keep show ?thesis unfolding run
          by (auto simp: pub_after_def pub_goes_on_def pub_exit_def add.assoc Suc_diff_Suc [symmetric])
      next
        case False
        then have k: "pb_sends p = k" using Cons.prems(4) by simp
        show ?thesis using snd(1) st s1(2) k by (auto simp: full_send_def pub_exit_def pub_after_def Let_def)
      qed
    qed
  qed
qed (auto simp: pub_goes_on_def pub_exit_def)

section \<open>From the start\<close>

lemma publisher_init_ready:
  assumes "publisher_init base payload_size fd flags m = Some p" and "pe_payload_bytes env = pub_payload_bytes payload_size"
    and "pub_env_ok env addr" and "0 < base" and "pe_payload env + unat (pe_payload_bytes env) \<le> base \<or> base + 8 \<le> pe_payload env"
  shows "pub_ready env base fd p" "pb_reorder_q p = []" "pb_seq p = 1" "pb_sends p = 0" "pb_sent_total p = 0" "pb_dropped_total p = 0"
    "sent_frames (pb_trace p) = []"
proof -
  let ?n = "pe_payload_bytes env"
  have n: "40 \<le> unat ?n" "unat ?n + 8 < 65536" using assms(3) by (simp_all add: pub_env_ok_def)
  have "unat (8 + ?n) = 8 + unat ?n" using n by (subst unat_add_no_wrap) simp_all
  then have size: "unat (8 + ?n + 16) = 24 + unat ?n" using n by (subst unat_add_no_wrap) simp_all
  from assms(1) obtain pool where pool: "MemoryPool base (8 + ?n + 16) 64 = Some pool" "pb_pool p = pool" and fd: "0 \<le> fd" "us_fd (pb_socket p) = fd"
    and rest: "pb_reorder_q p = []" "pb_seq p = 1" "pb_sends p = 0" "pb_sent_total p = 0" "pb_dropped_total p = 0" "sent_frames (pb_trace p) = []"
    by (auto simp: publisher_init_def udp_create_def assms(2) Let_def split: option.splits if_splits)
  note inv = MemoryPool_inv [OF pool(1) assms(4)]
  have pos: "0 < 8 + ?n + 16" using size n by (simp add: word_less_nat_alt)
  have "mp_inv pool (map (mp_block pool) [0..<unat (64 :: size_type)]) {}" by (rule inv(1) [OF pos]) (use size n in simp)
  moreover have "[0..<unat (64 :: size_type)] = 0 # [1..<64]" by (simp add: upt_conv_Cons)
  moreover have "mp_block pool 0 = base" using inv(2) [OF pos] size n by (simp add: mp_block_def)
  ultimately have "mp_inv pool (base # map (mp_block pool) [1..<64]) {}" by (simp only: list.map)
  with fd assms(5) pool(2) show "pub_ready env base fd p" by (auto simp: pub_ready_def)
qed (use assms(1) in \<open>auto simp: publisher_init_def udp_create_def Let_def split: option.splits if_splits\<close>)

lemma publisher_keeps_schedule:
  assumes "publisher_init base payload_size fd flags m = Some p" and "pe_payload_bytes env = pub_payload_bytes payload_size"
    and "pub_env_ok env addr" and "0 < base" and "pe_payload env + unat (pe_payload_bytes env) \<le> base \<or> base + 8 \<le> pe_payload env"
    and "\<forall>i < length turns. full_send env i"
  shows "\<exists>p' sent. publisher_main env turns p = PubRunning p' \<and> sent_frames (pb_trace p') = map (pub_frame env) sent \<and>
    mset sent + mset (pb_reorder_q p') = mset (pub_kept env turns 1) \<and> length (pb_reorder_q p') \<le> 1 \<and>
    (pb_reorder_q p' = [] \<longleftrightarrow> pub_kept env turns 1 = []) \<and> ((\<forall>turn \<in> set turns. \<not> pt_reorder turn) \<longrightarrow> sent @ pb_reorder_q p' = pub_kept env turns 1) \<and>
    pb_sent_total p' = of_nat (length sent) \<and> pb_dropped_total p' + pb_sent_total p' + of_nat (length (pb_reorder_q p')) = of_nat (length turns) \<and>
    pb_seq p' = 1 + of_nat (length turns)"
proof -
  note init = publisher_init_ready [OF assms(1-5)]
  obtain sent hq where sp: "pub_spec env turns 1 [] = (sent, hq)" by fastforce
  from pub_spec_kept [OF _ sp] have kept: "mset sent + mset hq = mset (pub_kept env turns 1)" "length hq \<le> 1"
    "hq = [] \<longleftrightarrow> pub_kept env turns 1 = []" "(\<forall>turn \<in> set turns. \<not> pt_reorder turn) \<longrightarrow> sent @ hq = pub_kept env turns 1" by auto
  have count: "length (pub_kept env turns s) + length (filter pt_drop turns) = length turns" for s
    by (induction turns arbitrary: s) auto
  have total: "length sent + length hq + length (filter pt_drop turns) = length turns"
    using arg_cong [OF kept(1), of size] count [of 1] by simp
  have "pub_goes_on env base fd turns sent hq p (publisher_main env turns p)"
    using publisher_main_spec [OF assms(3,6) init(1)] init sp total by simp
  then obtain p' where p': "publisher_main env turns p = PubRunning p'" "pb_reorder_q p' = hq" "sent_frames (pb_trace p') = map (pub_frame env) sent"
    "pb_sent_total p' = of_nat (length sent)" "pb_dropped_total p' = of_nat (length (filter pt_drop turns))" "pb_seq p' = 1 + of_nat (length turns)"
    using init by (auto simp: pub_goes_on_def)
  moreover have "(of_nat (length (filter pt_drop turns)) + of_nat (length sent) + of_nat (length hq) :: u64) = of_nat (length turns)"
    using arg_cong [OF total, of "of_nat :: nat \<Rightarrow> u64"] by (simp add: add_ac)
  ultimately show ?thesis using kept by (intro exI [of _ p'] exI [of _ sent]) simp
qed

text \<open>
  \<^bold>\<open>C15\<close>. As long as the sends succeed the publisher keeps its schedule: every message that is not dropped is sent exactly
  once or is the one message held back, in the order of the numbers when nothing is reordered; the counters add up; every
  datagram is the message in its payload, and no turn meets undefined behaviour.\<close>

theorem publisher_schedule:
  assumes "publisher_init base payload_size fd flags m = Some p" and "pe_payload_bytes env = pub_payload_bytes payload_size"
    and "pub_env_ok env addr" and "0 < base" and "pe_payload env + unat (pe_payload_bytes env) \<le> base \<or> base + 8 \<le> pe_payload env"
    and "\<forall>i < length turns. full_send env i"
  shows "\<exists>p' sent. publisher_main env turns p = PubRunning p' \<and> sent_frames (pb_trace p') = map (pub_frame env) sent \<and>
    mset sent + mset (pb_reorder_q p') = mset (pub_kept env turns 1) \<and> length (pb_reorder_q p') \<le> 1 \<and>
    (pb_reorder_q p' = [] \<longleftrightarrow> pub_kept env turns 1 = []) \<and> ((\<forall>turn \<in> set turns. \<not> pt_reorder turn) \<longrightarrow> sent @ pb_reorder_q p' = pub_kept env turns 1) \<and>
    pb_sent_total p' = of_nat (length sent) \<and> pb_dropped_total p' + pb_sent_total p' + of_nat (length (pb_reorder_q p')) = of_nat (length turns) \<and>
    pb_seq p' = 1 + of_nat (length turns)"
  using assms by (rule publisher_keeps_schedule)

text \<open>
  The first send that fails or is partial ends the publisher: the socket is closed last, exactly the datagrams up to
  that one were handed to the kernel, and those before it are counted as sent.\<close>

theorem publisher_stops_on_failure:
  assumes "publisher_init base payload_size fd flags m = Some p" and "pe_payload_bytes env = pub_payload_bytes payload_size"
    and "pub_env_ok env addr" and "0 < base" and "pe_payload env + unat (pe_payload_bytes env) \<le> base \<or> base + 8 \<le> pe_payload env"
    and "\<forall>i < k. full_send env i" and "\<not> full_send env k" and "pub_spec env turns 1 [] = (sent, hq)" and "k < length sent"
  shows "\<exists>p'. publisher_main env turns p = PubExited p' \<and> us_fd (pb_socket p') = -1 \<and> last (pb_trace p') = SysClose fd \<and>
    sent_frames (pb_trace p') = map (pub_frame env) (take (Suc k) sent) \<and> pb_sent_total p' = of_nat k"
proof -
  note init = publisher_init_ready [OF assms(1-5)]
  from publisher_main_spec [OF assms(3,6) init(1)] init assms(7-9)
  have "pub_exit env fd k sent p (publisher_main env turns p)" by simp
  then show ?thesis using init by (simp add: pub_exit_def)
qed

text \<open>A publisher at 65536 with messages of 40 bytes whose sends all succeed, and one whose second send fails.\<close>

definition ex_pub_env :: "(nat \<Rightarrow> int) \<Rightarrow> pub_env" where
  "ex_pub_env sends = \<lparr>pe_payload = 4096, pe_send = sends, pe_aton = \<lambda>_. Some 0, pe_fd = -1, pe_flags = 0, pe_streams = 1, pe_payload_bytes = 40\<rparr>"

definition ex_turn :: "bool \<Rightarrow> bool \<Rightarrow> pub_turn" where
  "ex_turn d r = \<lparr>pt_drop = d, pt_reorder = r, pt_ts = 0\<rparr>"

lemma ex_pub:
  "pub_env_ok (ex_pub_env sends) 0" "pe_payload_bytes (ex_pub_env sends) = pub_payload_bytes 0" "(0 :: nat) < 65536"
  "pe_payload (ex_pub_env sends) + unat (pe_payload_bytes (ex_pub_env sends)) \<le> 65536 \<or> 65536 + 8 \<le> pe_payload (ex_pub_env sends)"
  by (simp_all add: pub_env_ok_def ex_pub_env_def pub_payload_bytes_def)

lemma ex_pub_init: "\<exists>p. publisher_init 65536 0 3 2 (\<lambda>_. 0) = Some p"
  by (simp add: publisher_init_def udp_create_def MemoryPool_def Let_def)

theorem publisher_schedule_witness:
  "\<exists>p p' sent. publisher_init 65536 0 3 2 (\<lambda>_. 0) = Some p \<and>
    publisher_main (ex_pub_env (\<lambda>_. 48)) [ex_turn False False, ex_turn False True, ex_turn True False, ex_turn False False] p = PubRunning p' \<and>
    sent_frames (pb_trace p') = map (pub_frame (ex_pub_env (\<lambda>_. 48))) sent \<and> length sent = 2"
proof -
  let ?turns = "[ex_turn False False, ex_turn False True, ex_turn True False, ex_turn False False]" and ?env = "ex_pub_env (\<lambda>_. 48)"
  obtain p where p: "publisher_init 65536 0 3 2 (\<lambda>_. 0) = Some p" using ex_pub_init by blast
  have "\<forall>i < length ?turns. full_send ?env i" by (simp add: full_send_def ex_pub_env_def)
  from publisher_schedule [OF p ex_pub(2,1,3,4) this] obtain p' sent where r: "publisher_main ?env ?turns p = PubRunning p'"
    "sent_frames (pb_trace p') = map (pub_frame ?env) sent" "mset sent + mset (pb_reorder_q p') = mset (pub_kept ?env ?turns 1)"
    "length (pb_reorder_q p') \<le> 1" "pb_reorder_q p' = [] \<longleftrightarrow> pub_kept ?env ?turns 1 = []" by blast
  have "length sent + length (pb_reorder_q p') = 3" using arg_cong [OF r(3), of size] by (simp add: ex_turn_def)
  moreover have "length (pb_reorder_q p') = 1" using r(4,5) by (cases "pb_reorder_q p'") (auto simp: ex_turn_def)
  ultimately have "length sent = 2" by simp
  then show ?thesis using p r(1,2) by blast
qed

theorem publisher_stops_on_failure_witness:
  "\<exists>p p'. publisher_init 65536 0 3 2 (\<lambda>_. 0) = Some p \<and>
    publisher_main (ex_pub_env (\<lambda>i. if i = 0 then 48 else 7)) (replicate 5 (ex_turn False False)) p = PubExited p' \<and>
    us_fd (pb_socket p') = -1 \<and> length (sent_frames (pb_trace p')) = 2 \<and> pb_sent_total p' = 1"
proof -
  let ?env = "ex_pub_env (\<lambda>i. if i = 0 then 48 else 7)" and ?turns = "replicate 5 (ex_turn False False)"
  obtain p where p: "publisher_init 65536 0 3 2 (\<lambda>_. 0) = Some p" using ex_pub_init by blast
  have f: "\<forall>i < 1. full_send ?env i" "\<not> full_send ?env 1" by (simp_all add: full_send_def ex_pub_env_def)
  obtain sent hq where sp: "pub_spec ?env ?turns 1 [] = (sent, hq)" by fastforce
  then have len: "length sent = 4" by (auto simp: ex_turn_def numeral_eq_Suc Let_def)
  from publisher_stops_on_failure [OF p ex_pub(2,1,3,4) f sp] len obtain p' where
    "publisher_main ?env ?turns p = PubExited p'" "us_fd (pb_socket p') = -1"
    "sent_frames (pb_trace p') = map (pub_frame ?env) (take (Suc 1) sent)" "pb_sent_total p' = of_nat 1" by auto
  with p len show ?thesis by auto
qed

end
