(* ===== verification/Udp_Feedback.thy ===== *)
theory Udp_Feedback
  imports Usn_Prelude
begin

text \<open>
  \<^verbatim>\<open>UdpDeliveryFeedback\<close> of \<^verbatim>\<open>protocol/udp_feedback.hpp\<close>: counters of gaps and reorderings in a sequence
  of received sequence numbers.
\<close>

record UdpDeliveryFeedback =
  expected_seq :: u64
  fb_total :: u64
  gaps :: u64
  reorder_events :: u64
  max_reorder_depth :: u64

definition feedback_default :: UdpDeliveryFeedback where
  "feedback_default = \<lparr>expected_seq = 1, fb_total = 0, gaps = 0, reorder_events = 0, max_reorder_depth = 0\<rparr>"

definition observe :: "u64 \<Rightarrow> UdpDeliveryFeedback \<Rightarrow> UdpDeliveryFeedback" where
  "observe seq f =
     (let f = f\<lparr>fb_total := fb_total f + 1\<rparr> in
      if seq = expected_seq f then f\<lparr>expected_seq := expected_seq f + 1\<rparr>
      else if seq > expected_seq f then
        f\<lparr>gaps := gaps f + (seq - expected_seq f), expected_seq := seq + 1\<rparr>
      else
        f\<lparr>reorder_events := reorder_events f + 1,
          max_reorder_depth := max (max_reorder_depth f) (expected_seq f - seq)\<rparr>)"

text \<open>
  The counters after the numbers \<open>seqs\<close>: the expected number is one more than the largest number
  seen, and it counts one step for every number that was not late plus one for every number skipped.
\<close>

definition highest :: "u64 list \<Rightarrow> nat" where
  "highest seqs = fold max (map unat seqs) 0"

definition feedback_inv :: "u64 list \<Rightarrow> UdpDeliveryFeedback \<Rightarrow> bool" where
  "feedback_inv seqs f \<longleftrightarrow>
     unat (fb_total f) = length seqs \<and> unat (reorder_events f) \<le> length seqs \<and>
     unat (expected_seq f) = 1 + highest seqs \<and>
     highest seqs = unat (gaps f) + (length seqs - unat (reorder_events f))"

lemma highest_snoc: "highest (seqs @ [s]) = max (unat s) (highest seqs)"
  by (simp add: highest_def)

lemma highest_ge: "s \<in> set seqs \<Longrightarrow> unat s \<le> highest seqs"
  by (induction seqs rule: rev_induct) (auto simp: highest_snoc)

lemma highest_in: "highest seqs = 0 \<or> highest seqs \<in> unat ` set seqs"
  by (induction seqs rule: rev_induct) (auto simp: highest_snoc highest_def max_def)

lemma observe_inv:
  assumes inv: "feedback_inv seqs f" and s: "0 < s" "s \<noteq> - 1" and n: "Suc (length seqs) < 2 ^ 64"
  shows "feedback_inv (seqs @ [s]) (observe s f)"
proof -
  from inv have i: "unat (fb_total f) = length seqs" "unat (reorder_events f) \<le> length seqs"
    "unat (expected_seq f) = 1 + highest seqs"
    "highest seqs = unat (gaps f) + (length seqs - unat (reorder_events f))"
    by (auto simp: feedback_inv_def)
  have t: "unat (fb_total f + 1) = Suc (length seqs)" using i(1) n by (simp add: unat_Suc_no_wrap)
  have "s < - 1" using s(2) word_order.not_eq_extremum by blast
  then have s1: "unat (s + 1) = Suc (unat s)" by (rule unat_Suc_less)
  consider (expect) "s = expected_seq f" | (ahead) "s > expected_seq f" | (late) "s < expected_seq f" by force
  then show ?thesis
  proof cases
    case expect
    then show ?thesis using i t s1
      by (simp add: feedback_inv_def observe_def Let_def highest_snoc)
  next
    case ahead
    then have le: "unat (expected_seq f) < unat s" by (simp add: word_less_nat_alt)
    then have d: "unat (s - expected_seq f) = unat s - unat (expected_seq f)" by (simp add: unat_sub_le)
    have "unat (gaps f) + unat (s - expected_seq f) < 2 ^ LENGTH(64)"
      using i(2-4) le unfolding d by (intro le_less_trans [OF _ unat_bound [of s]]) linarith
    then have "unat (gaps f + (s - expected_seq f)) = unat (gaps f) + (unat s - unat (expected_seq f))"
      using d by (simp add: unat_add_no_wrap)
    then show ?thesis using ahead i t s1 le
      by (auto simp: feedback_inv_def observe_def Let_def highest_snoc)
  next
    case late
    then have le: "unat s \<le> highest seqs" using i(3) by (simp add: word_less_nat_alt)
    have "unat (reorder_events f + 1) = Suc (unat (reorder_events f))"
      using i(2) n by (intro unat_Suc_no_wrap) simp
    then show ?thesis using late i t le
      by (auto simp: feedback_inv_def observe_def Let_def highest_snoc)
  qed
qed

lemma feedback_run_inv:
  assumes "\<forall>s\<in>set seqs. 0 < s \<and> s \<noteq> - 1" and "length seqs < 2 ^ 64"
  shows "feedback_inv seqs (fold observe seqs feedback_default)"
  using assms
proof (induction seqs rule: rev_induct)
  case Nil
  then show ?case by (simp add: feedback_inv_def feedback_default_def highest_def)
next
  case (snoc s seqs)
  then show ?case using observe_inv [of seqs "fold observe seqs feedback_default" s] by simp
qed

lemma feedback_missing:
  assumes "\<forall>s\<in>set seqs. 0 < s \<and> s \<noteq> - 1" and "length seqs < 2 ^ 64" and "distinct seqs"
    and "f = fold observe seqs feedback_default"
  shows "unat (fb_total f) = length seqs \<and> unat (expected_seq f) = 1 + highest seqs \<and>
    unat (gaps f) - unat (reorder_events f) = card ({1..highest seqs} - unat ` set seqs) \<and>
    unat (reorder_events f) \<le> unat (gaps f)"
proof -
  from feedback_run_inv [OF assms(1,2)] have i: "unat (fb_total f) = length seqs"
    "unat (reorder_events f) \<le> length seqs" "unat (expected_seq f) = 1 + highest seqs"
    "highest seqs = unat (gaps f) + (length seqs - unat (reorder_events f))"
    by (auto simp: feedback_inv_def assms(4))
  have sub: "unat ` set seqs \<subseteq> {1..highest seqs}"
    using assms(1) highest_ge by (auto simp: word_less_nat_alt Suc_le_eq)
  have "inj_on unat (set seqs)" by (simp add: inj_on_def word_unat_eq_iff)
  then have card: "card (unat ` set seqs) = length seqs"
    using assms(3) by (simp add: card_image distinct_card)
  have "card ({1..highest seqs} - unat ` set seqs) = highest seqs - length seqs"
    using sub card by (simp add: card_Diff_subset)
  moreover have "length seqs \<le> highest seqs"
    using card_mono [OF _ sub] card by simp
  ultimately show ?thesis using i by linarith
qed

text \<open>
  After any run of distinct sequence numbers (from 1 up, below the last 64-bit number), the
  counters tell the truth: the total is the number of messages, the expected number is one past the
  highest seen, and the gaps minus the reorderings are exactly the numbers up to the highest that
  have not been received.\<close>

theorem feedback_counts_missing:
  assumes "\<forall>s\<in>set seqs. 0 < s \<and> s \<noteq> - 1" and "length seqs < 2 ^ 64" and "distinct seqs"
    and "f = fold observe seqs feedback_default"
  shows "unat (fb_total f) = length seqs \<and> unat (expected_seq f) = 1 + highest seqs \<and>
    unat (gaps f) - unat (reorder_events f) = card ({1..highest seqs} - unat ` set seqs) \<and>
    unat (reorder_events f) \<le> unat (gaps f)"
  by (rule feedback_missing [OF assms])

theorem feedback_counts_missing_witness:
  "card ({1..highest [1, 2, 5, 4]} - unat ` set [1, 2, 5, 4 :: u64]) =
     unat (gaps (fold observe [1, 2, 5, 4] feedback_default))
     - unat (reorder_events (fold observe [1, 2, 5, 4] feedback_default)) \<and>
   unat (gaps (fold observe [1, 2, 5, 4] feedback_default)) = 2"
  using feedback_counts_missing [of "[1, 2, 5, 4]", OF _ _ _ refl]
  by (simp add: observe_def Let_def feedback_default_def)

end
