(* ===== verification/Cxx_Text.thy ===== *)
theory Cxx_Text
  imports Usn_Prelude
begin

text \<open>
  Text conversions of the C and C++ libraries that the applications use: \<^verbatim>\<open>std::to_string\<close>, the decimal output of
  streams, \<^verbatim>\<open>atoi\<close>, \<^verbatim>\<open>strtoull\<close>, extraction of words with \<^verbatim>\<open>>>\<close>, \<^verbatim>\<open>std::getline\<close> and \<^verbatim>\<open>std::string::find\<close> with
  \<^verbatim>\<open>substr\<close>. What is printed is read back.
\<close>

section \<open>Printing numbers\<close>

fun print_nat :: "nat \<Rightarrow> string" where
  "print_nat n = (if n < 10 then [char_of (48 + n)] else print_nat (n div 10) @ [char_of (48 + n mod 10)])"

declare print_nat.simps [simp del]

definition print_int :: "int \<Rightarrow> string" where
  "print_int i = (if i < 0 then CHR ''-'' # print_nat (nat (- i)) else print_nat (nat i))"

definition print_u64 :: "u64 \<Rightarrow> string" where
  "print_u64 w = print_nat (unat w)"

section \<open>Reading numbers\<close>

definition is_space :: "char \<Rightarrow> bool" where
  "is_space c \<longleftrightarrow> (let n = (of_char c :: nat) in n = 32 \<or> (9 \<le> n \<and> n \<le> 13))"

definition is_digit :: "char \<Rightarrow> bool" where
  "is_digit c \<longleftrightarrow> (let n = (of_char c :: nat) in 48 \<le> n \<and> n \<le> 57)"

definition digit_value :: "char \<Rightarrow> nat" where
  "digit_value c = of_char c - 48"

definition digits_value :: "string \<Rightarrow> nat" where
  "digits_value s = foldl (\<lambda>v c. 10 * v + digit_value c) 0 (takeWhile is_digit s)"

text \<open>An optional sign after blanks: whether it is a minus, and the rest.\<close>

definition read_sign :: "string \<Rightarrow> bool \<times> string" where
  "read_sign s =
     (case dropWhile is_space s of
        [] \<Rightarrow> (False, [])
      | c # cs \<Rightarrow> if c = CHR ''-'' then (True, cs) else if c = CHR ''+'' then (False, cs) else (False, c # cs))"

text \<open>\<^verbatim>\<open>strtol\<close> in base 10 saturates at the bounds of \<^verbatim>\<open>long\<close>; \<^verbatim>\<open>atoi\<close> converts its result to \<^verbatim>\<open>int\<close>.\<close>

definition strtol :: "string \<Rightarrow> int" where
  "strtol s =
     (let (neg, s) = read_sign s; v = int (digits_value s)
      in max (- (2 ^ 63)) (min (2 ^ 63 - 1) (if neg then - v else v)))"

definition atoi :: "string \<Rightarrow> int" where
  "atoi s = sint (of_int (strtol s) :: 32 word)"

text \<open>\<^verbatim>\<open>strtoull\<close> saturates at the largest value; a minus negates the result as an unsigned number.\<close>

definition strtoull :: "string \<Rightarrow> u64" where
  "strtoull s =
     (let (neg, s) = read_sign s; v = digits_value s
      in if v > 2 ^ 64 - 1 then - 1 else if neg then - of_nat v else of_nat v)"

section \<open>Round trips\<close>

lemma of_char_digit: "d < 10 \<Longrightarrow> (of_char (char_of (48 + d) :: char) :: nat) = 48 + d"
  by simp

lemma digit_char [simp]:
  assumes "d < 10"
  shows "is_digit (char_of (48 + d))" "digit_value (char_of (48 + d)) = d" "\<not> is_space (char_of (48 + d))"
    "char_of (48 + d) \<noteq> CHR ''-''" "char_of (48 + d) \<noteq> CHR ''+''"
proof -
  note c = of_char_digit [OF assms]
  show "is_digit (char_of (48 + d))" "digit_value (char_of (48 + d)) = d" "\<not> is_space (char_of (48 + d))"
    unfolding is_digit_def digit_value_def is_space_def c Let_def using assms by simp_all
  have minus: "(of_char (CHR ''-'') :: nat) \<noteq> 48 + d" and plus: "(of_char (CHR ''+'') :: nat) \<noteq> 48 + d" by simp_all
  show "char_of (48 + d) \<noteq> CHR ''-''" by (rule notI) (use c minus in \<open>simp only: not_True_eq_False\<close>)
  show "char_of (48 + d) \<noteq> CHR ''+''" by (rule notI) (use c plus in \<open>simp only: not_True_eq_False\<close>)
qed

lemma print_nat_digits: "\<forall>c \<in> set (print_nat n). is_digit c"
proof (induction n rule: print_nat.induct)
  case (1 n)
  show ?case
  proof (cases "n < 10")
    case True
    then show ?thesis by (simp add: print_nat.simps [of n])
  next
    case False
    with 1 show ?thesis by (simp add: print_nat.simps [of n])
  qed
qed

lemma print_nat_not_Nil [simp]: "print_nat n \<noteq> []"
  by (subst print_nat.simps) simp

lemma print_nat_value: "foldl (\<lambda>v c. 10 * v + digit_value c) 0 (print_nat n) = n"
proof (induction n rule: print_nat.induct)
  case (1 n)
  show ?case
  proof (cases "n < 10")
    case True
    then show ?thesis by (simp add: print_nat.simps [of n])
  next
    case False
    with 1 show ?thesis by (simp add: print_nat.simps [of n])
  qed
qed

text \<open>A number is read up to the first character that is no digit.\<close>

definition no_digit_first :: "string \<Rightarrow> bool" where
  "no_digit_first s = (case s of [] \<Rightarrow> True | c # _ \<Rightarrow> \<not> is_digit c)"

lemma digits_value_print [simp]: "no_digit_first rest \<Longrightarrow> digits_value (print_nat n @ rest) = n"
proof -
  assume r: "no_digit_first rest"
  have "takeWhile is_digit (print_nat n @ rest) = print_nat n"
    using print_nat_digits r by (cases rest) (auto simp: takeWhile_append no_digit_first_def)
  then show ?thesis by (simp add: digits_value_def print_nat_value)
qed

lemma digits_value_print_end [simp]: "digits_value (print_nat n) = n"
  using digits_value_print [of "[]" n] by (simp add: no_digit_first_def)

lemma digit_no_space: "is_digit c \<Longrightarrow> \<not> is_space c \<and> c \<noteq> CHR ''-'' \<and> c \<noteq> CHR ''+''"
  by (auto simp: is_digit_def is_space_def Let_def)

lemma read_sign_nat [simp]: "read_sign (print_nat n) = (False, print_nat n)"
proof -
  obtain c cs where c: "print_nat n = c # cs" by (cases "print_nat n") simp_all
  then have "is_digit c" using print_nat_digits [of n] by simp
  then show ?thesis using digit_no_space [of c] by (simp add: read_sign_def c)
qed

lemma read_sign_neg [simp]: "read_sign (CHR ''-'' # s) = (True, s)"
  by (simp add: read_sign_def is_space_def)

lemma strtol_print: "- (2 ^ 63) \<le> i \<Longrightarrow> i < 2 ^ 63 \<Longrightarrow> strtol (print_int i) = i"
  by (auto simp: strtol_def print_int_def Let_def)

lemma atoi_print [simp]:
  assumes "- (2 ^ 31) \<le> i" and "i < 2 ^ 31"
  shows "atoi (print_int i) = i"
proof -
  have "strtol (print_int i) = i" by (rule strtol_print) (use assms in simp_all)
  then show ?thesis using assms by (simp add: atoi_def signed_of_int signed_take_bit_int_eq_self)
qed

lemma strtoull_print [simp]: "strtoull (print_u64 w) = w"
proof -
  have "unat w < 2 ^ 64" using unsigned_less [of w, where ?'a = nat] by simp
  moreover have "(2 :: nat) ^ 64 = 18446744073709551616" by simp
  ultimately have "\<not> 18446744073709551615 < unat w" by linarith
  then show ?thesis by (simp add: strtoull_def print_u64_def Let_def)
qed

lemma atoi_bounds: "- (2 ^ 31) \<le> atoi s" "atoi s < 2 ^ 31"
  using sint_greater_eq [of "of_int (strtol s) :: 32 word"] sint_less [of "of_int (strtol s) :: 32 word"] by (simp_all add: atoi_def)

section \<open>Words of a line\<close>

text \<open>The words that \<^verbatim>\<open>iss >> token\<close> yields one after the other.\<close>

function stream_words :: "string \<Rightarrow> string list" where
  "stream_words s =
     (let s = dropWhile is_space s
      in if s = [] then [] else takeWhile (\<lambda>c. \<not> is_space c) s # stream_words (dropWhile (\<lambda>c. \<not> is_space c) s))"
  by pat_completeness auto
termination
proof (relation "measure length")
  fix s x :: string
  assume x: "x = dropWhile is_space s" "x \<noteq> []"
  then have "\<not> is_space (hd x)" using hd_dropWhile [of is_space s] by simp
  then have "length (dropWhile (\<lambda>c. \<not> is_space c) x) < length x"
    using x(2) by (cases x) (auto simp: length_dropWhile_le le_imp_less_Suc)
  also have "\<dots> \<le> length s" by (simp add: x(1) length_dropWhile_le)
  finally show "(dropWhile (\<lambda>c. \<not> is_space c) x, s) \<in> measure length" by simp
qed simp

declare stream_words.simps [simp del]

definition first_line :: "string \<Rightarrow> string" where
  "first_line s = takeWhile (\<lambda>c. c \<noteq> CHR 0x0A) s"

text \<open>A word split at its first \<open>=\<close>, when it has one.\<close>

definition split_pair :: "string \<Rightarrow> (string \<times> string) option" where
  "split_pair token =
     (if CHR ''='' \<in> set token then Some (takeWhile (\<lambda>c. c \<noteq> CHR ''='') token, tl (dropWhile (\<lambda>c. c \<noteq> CHR ''='') token)) else None)"

lemma split_pair_join: "CHR ''='' \<notin> set k \<Longrightarrow> split_pair (k @ CHR ''='' # v) = Some (k, v)"
  by (auto simp: split_pair_def takeWhile_append dropWhile_append)

definition solid :: "string \<Rightarrow> bool" where
  "solid w \<longleftrightarrow> w \<noteq> [] \<and> (\<forall>c \<in> set w. \<not> is_space c)"

lemma stream_words_one:
  assumes "solid w" and "rest = [] \<or> is_space (hd rest)"
  shows "stream_words (w @ rest) = w # stream_words rest"
proof -
  obtain c cs where w: "w = c # cs" "\<not> is_space c" using assms(1) by (cases w) (auto simp: solid_def)
  have a: "dropWhile is_space (w @ rest) = w @ rest" using w by simp
  have b: "takeWhile (\<lambda>c. \<not> is_space c) (w @ rest) = w" "dropWhile (\<lambda>c. \<not> is_space c) (w @ rest) = rest"
    using assms by (cases rest; simp add: solid_def takeWhile_append dropWhile_append)+
  show ?thesis by (subst stream_words.simps) (simp only: Let_def a b, simp add: w(1))
qed

lemma stream_words_blank [simp]: "stream_words (CHR '' '' # s) = stream_words s"
  by (simp add: stream_words.simps [of "CHR '' '' # s"] stream_words.simps [of s] is_space_def)

lemma stream_words_Nil [simp]: "stream_words [] = []"
  by (simp add: stream_words.simps)

text \<open>Words joined by blanks are read back.\<close>

fun join_words :: "string list \<Rightarrow> string" where
  "join_words [] = []"
| "join_words [w] = w"
| "join_words (w # ws) = w @ CHR '' '' # join_words ws"

lemma stream_words_join: "\<forall>w \<in> set ws. solid w \<Longrightarrow> stream_words (join_words ws) = ws"
proof (induction ws rule: join_words.induct)
  case (2 w)
  then show ?case using stream_words_one [of w "[]"] by simp
next
  case (3 w v ws)
  then show ?case using stream_words_one [of w "CHR '' '' # join_words (v # ws)"] by (simp add: is_space_def)
qed simp

lemma print_nat_solid: "solid (print_nat n)"
  using print_nat_digits [of n] digit_no_space by (auto simp: solid_def)

lemma solid_append: "solid v \<Longrightarrow> (\<forall>c \<in> set k. \<not> is_space c) \<Longrightarrow> solid (k @ v)"
  by (auto simp: solid_def)

end
