(* ===== verification/App_Options.thy ===== *)
theory App_Options
  imports Cxx_Text
begin

text \<open>
  The command lines of the four applications. Every \<^verbatim>\<open>main\<close> reads its arguments as pairs of a key and a value, from left to right,
  ignores a last argument without a value, and limits the values to their ranges. Conversions to \<^verbatim>\<open>double\<close> (\<^verbatim>\<open>atof\<close> and the
  clamp to 0.0 to 1.0) are one argument, since the rates are only handed on.
\<close>

section \<open>Reading a command line\<close>

text \<open>\<^verbatim>\<open>for (int i = 1; i + 1 < argc; i += 2)\<close>: the pairs of \<^verbatim>\<open>argv[1]\<close>, \<^verbatim>\<open>argv[2]\<close> and so on.\<close>

fun arg_pairs :: "string list \<Rightarrow> (string \<times> string) list" where
  "arg_pairs (key # value # args) = (key, value) # arg_pairs args"
| "arg_pairs args = []"

definition clamp :: "int \<Rightarrow> int \<Rightarrow> int \<Rightarrow> int" where
  "clamp v lo hi = (if v < lo then lo else if hi < v then hi else v)"

section \<open>The order gateway\<close>

record gateway_options =
  go_server_drop_at_s :: int
  go_backpressure_threshold :: int
  go_trace_every :: int

definition gateway_defaults :: gateway_options where
  "gateway_defaults = \<lparr>go_server_drop_at_s = 0, go_backpressure_threshold = 0, go_trace_every = 0\<rparr>"

definition gateway_option :: "string \<times> string \<Rightarrow> gateway_options \<Rightarrow> gateway_options" where
  "gateway_option = (\<lambda>(key, value) o1.
     let val = atoi value
     in if key = ''--server-drop-at-s'' then o1\<lparr>go_server_drop_at_s := max 0 val\<rparr>
        else if key = ''--backpressure-threshold'' then o1\<lparr>go_backpressure_threshold := max 0 val\<rparr>
        else if key = ''--trace-every'' then o1\<lparr>go_trace_every := max 0 val\<rparr>
        else o1)"

definition gateway_options_of :: "string list \<Rightarrow> gateway_options" where
  "gateway_options_of args = fold gateway_option (arg_pairs args) gateway_defaults"

section \<open>The order client\<close>

record client_options =
  co_qps :: int
  co_burst :: int
  co_disconnect_interval_s :: int
  co_timeout_ms :: int
  co_cancel_ratio :: int
  co_replace_ratio :: int
  co_trace_every :: int
  co_gateway_ip :: string

definition client_defaults :: client_options where
  "client_defaults = \<lparr>co_qps = 2, co_burst = 1, co_disconnect_interval_s = 0, co_timeout_ms = 1000, co_cancel_ratio = 0,
     co_replace_ratio = 0, co_trace_every = 0, co_gateway_ip = ''127.0.0.1''\<rparr>"

definition client_option :: "string \<times> string \<Rightarrow> client_options \<Rightarrow> client_options" where
  "client_option = (\<lambda>(key, value) o1.
     let val = atoi value
     in if key = ''--qps'' then o1\<lparr>co_qps := max 1 val\<rparr>
        else if key = ''--burst'' then o1\<lparr>co_burst := max 1 val\<rparr>
        else if key = ''--disconnect-interval-s'' then o1\<lparr>co_disconnect_interval_s := max 0 val\<rparr>
        else if key = ''--timeout-ms'' then o1\<lparr>co_timeout_ms := max 1 val\<rparr>
        else if key = ''--cancel-ratio'' then o1\<lparr>co_cancel_ratio := clamp val 0 100\<rparr>
        else if key = ''--replace-ratio'' then o1\<lparr>co_replace_ratio := clamp val 0 100\<rparr>
        else if key = ''--trace-every'' then o1\<lparr>co_trace_every := max 0 val\<rparr>
        else if key = ''--gateway-ip'' then o1\<lparr>co_gateway_ip := value\<rparr>
        else o1)"

definition client_options_of :: "string list \<Rightarrow> client_options" where
  "client_options_of args = fold client_option (arg_pairs args) client_defaults"

section \<open>The market data publisher\<close>

text \<open>\<open>'d\<close> is \<^verbatim>\<open>double\<close>; \<open>zero\<close> is 0.0 and \<open>rate_of\<close> reads a rate and clamps it.\<close>

record 'd publisher_options =
  po_rate :: int
  po_payload_size :: int
  po_streams :: int
  po_jitter_ms :: int
  po_drop_rate :: 'd
  po_reorder_rate :: 'd
  po_seed :: u32

definition publisher_defaults :: "'d \<Rightarrow> 'd publisher_options" where
  "publisher_defaults zero = \<lparr>po_rate = 2, po_payload_size = 64, po_streams = 1, po_jitter_ms = 0, po_drop_rate = zero,
     po_reorder_rate = zero, po_seed = 42\<rparr>"

definition publisher_option :: "(string \<Rightarrow> 'd) \<Rightarrow> string \<times> string \<Rightarrow> 'd publisher_options \<Rightarrow> 'd publisher_options" where
  "publisher_option rate_of = (\<lambda>(key, value) o1.
     let val = atoi value
     in if key = ''--rate'' then o1\<lparr>po_rate := max 1 val\<rparr>
        else if key = ''--payload-size'' then o1\<lparr>po_payload_size := max 40 val\<rparr>
        else if key = ''--streams'' then o1\<lparr>po_streams := max 1 val\<rparr>
        else if key = ''--jitter-ms'' then o1\<lparr>po_jitter_ms := max 0 val\<rparr>
        else if key = ''--drop-rate'' then o1\<lparr>po_drop_rate := rate_of value\<rparr>
        else if key = ''--reorder-rate'' then o1\<lparr>po_reorder_rate := rate_of value\<rparr>
        else if key = ''--seed'' then o1\<lparr>po_seed := of_int (max 1 val)\<rparr>
        else o1)"

definition publisher_options_of :: "(string \<Rightarrow> 'd) \<Rightarrow> 'd \<Rightarrow> string list \<Rightarrow> 'd publisher_options" where
  "publisher_options_of rate_of zero args = fold (publisher_option rate_of) (arg_pairs args) (publisher_defaults zero)"

section \<open>The market data subscriber\<close>

record subscriber_options =
  so_subscriber_id :: int
  so_artificial_delay_ms :: int
  so_trace_every :: int
  so_summary_file :: string

definition subscriber_defaults :: subscriber_options where
  "subscriber_defaults = \<lparr>so_subscriber_id = 0, so_artificial_delay_ms = 0, so_trace_every = 0, so_summary_file = []\<rparr>"

definition subscriber_option :: "string \<times> string \<Rightarrow> subscriber_options \<Rightarrow> subscriber_options" where
  "subscriber_option = (\<lambda>(key, value) o1.
     if key = ''--subscriber-id'' then o1\<lparr>so_subscriber_id := max 0 (atoi value)\<rparr>
     else if key = ''--artificial-delay-ms'' then o1\<lparr>so_artificial_delay_ms := max 0 (atoi value)\<rparr>
     else if key = ''--summary-file'' then o1\<lparr>so_summary_file := value\<rparr>
     else if key = ''--trace-every'' then o1\<lparr>so_trace_every := max 0 (atoi value)\<rparr>
     else o1)"

definition subscriber_options_of :: "string list \<Rightarrow> subscriber_options" where
  "subscriber_options_of args = fold subscriber_option (arg_pairs args) subscriber_defaults"

section \<open>Ranges\<close>

text \<open>What every run of the programs may rely on: no command line takes an option out of its range.\<close>

definition gateway_options_ok :: "gateway_options \<Rightarrow> bool" where
  "gateway_options_ok o1 \<longleftrightarrow> go_server_drop_at_s o1 \<in> {0..<2 ^ 31} \<and> go_backpressure_threshold o1 \<in> {0..<2 ^ 31} \<and> go_trace_every o1 \<in> {0..<2 ^ 31}"

definition client_options_ok :: "client_options \<Rightarrow> bool" where
  "client_options_ok o1 \<longleftrightarrow> co_qps o1 \<in> {1..<2 ^ 31} \<and> co_burst o1 \<in> {1..<2 ^ 31} \<and> co_disconnect_interval_s o1 \<in> {0..<2 ^ 31} \<and>
     co_timeout_ms o1 \<in> {1..<2 ^ 31} \<and> co_cancel_ratio o1 \<in> {0..100} \<and> co_replace_ratio o1 \<in> {0..100} \<and> co_trace_every o1 \<in> {0..<2 ^ 31}"

definition publisher_options_ok :: "'d publisher_options \<Rightarrow> bool" where
  "publisher_options_ok o1 \<longleftrightarrow> po_rate o1 \<in> {1..<2 ^ 31} \<and> po_payload_size o1 \<in> {40..<2 ^ 31} \<and> po_streams o1 \<in> {1..<2 ^ 31} \<and>
     po_jitter_ms o1 \<in> {0..<2 ^ 31} \<and> po_seed o1 \<noteq> 0"

definition subscriber_options_ok :: "subscriber_options \<Rightarrow> bool" where
  "subscriber_options_ok o1 \<longleftrightarrow> so_subscriber_id o1 \<in> {0..<2 ^ 31} \<and> so_artificial_delay_ms o1 \<in> {0..<2 ^ 31} \<and> so_trace_every o1 \<in> {0..<2 ^ 31}"

lemma fold_invariant_list: "P o1 \<Longrightarrow> (\<And>x s. P s \<Longrightarrow> P (f x s)) \<Longrightarrow> P (fold f xs o1)"
  by (induction xs arbitrary: o1) simp_all

lemma limited [simp]:
  "max lo (atoi s) \<in> {lo..<2 ^ 31}" if "lo < 2 ^ 31" for lo :: int
  using atoi_bounds(2) [of s] that by simp

lemma clamped [simp]: "clamp v 0 100 \<in> {0..100}"
  by (simp add: clamp_def)

lemma seed_not_zero: "of_int (max 1 (atoi s)) \<noteq> (0 :: u32)"
proof
  assume "of_int (max 1 (atoi s)) = (0 :: u32)"
  then have "uint (of_int (max 1 (atoi s)) :: u32) = 0" by simp
  moreover have "uint (of_int (max 1 (atoi s)) :: u32) = max 1 (atoi s)"
    using atoi_bounds(2) [of s] by (simp add: unsigned_of_int take_bit_int_eq_self)
  ultimately show False by linarith
qed

lemma gateway_option_ok: "gateway_options_ok o1 \<Longrightarrow> gateway_options_ok (gateway_option kv o1)"
  using limited [of 0 "snd kv"] by (simp add: gateway_options_ok_def gateway_option_def split_beta Let_def del: limited)

lemma client_option_ok: "client_options_ok o1 \<Longrightarrow> client_options_ok (client_option kv o1)"
  using limited [of 0 "snd kv"] limited [of 1 "snd kv"] clamped [of "atoi (snd kv)"]
  by (simp add: client_options_ok_def client_option_def split_beta Let_def del: limited clamped)

lemma publisher_option_ok: "publisher_options_ok o1 \<Longrightarrow> publisher_options_ok (publisher_option rate_of kv o1)"
  using limited [of 0 "snd kv"] limited [of 1 "snd kv"] limited [of 40 "snd kv"] seed_not_zero [of "snd kv"]
  by (simp add: publisher_options_ok_def publisher_option_def split_beta Let_def del: limited)

lemma subscriber_option_ok: "subscriber_options_ok o1 \<Longrightarrow> subscriber_options_ok (subscriber_option kv o1)"
  using limited [of 0 "snd kv"] by (simp add: subscriber_options_ok_def subscriber_option_def split_beta del: limited)

lemma defaults_ok:
  "gateway_options_ok gateway_defaults" "client_options_ok client_defaults" "publisher_options_ok (publisher_defaults zero)"
  "subscriber_options_ok subscriber_defaults"
  by (simp_all add: gateway_options_ok_def gateway_defaults_def client_options_ok_def client_defaults_def publisher_options_ok_def
      publisher_defaults_def subscriber_options_ok_def subscriber_defaults_def)

lemma options_in_range:
  "gateway_options_ok (gateway_options_of args)" "client_options_ok (client_options_of args)"
  "publisher_options_ok (publisher_options_of rate_of zero args)" "subscriber_options_ok (subscriber_options_of args)"
  unfolding gateway_options_of_def client_options_of_def publisher_options_of_def subscriber_options_of_def
  by (rule fold_invariant_list, rule defaults_ok, erule gateway_option_ok client_option_ok publisher_option_ok subscriber_option_ok)+

end
