(* ===== verification/Feed_Subscriber.thy ===== *)
theory Feed_Subscriber
  imports App_Messages Udp_Protocol Udp_Feedback Fd_Trace Io_Status App_Options
begin

text \<open>
  The market data subscriber \<^verbatim>\<open>apps/market_udp/feed_subscriber.cpp\<close>: it joins the multicast group, receives datagrams in
  batches inside a busy-polling loop, and keeps delivery statistics and latencies.

  What the kernel and the clock answer are arguments, and so is every reading of the atomic \<^verbatim>\<open>g_running\<close>, which a signal
  handler sets to false at some moment (and nothing sets back to true).
\<close>

section \<open>The socket\<close>

record join_answers =
  ja_socket :: int
  ja_bind :: int
  ja_membership :: int
  ja_getfl :: int

definition create_and_join_multicast :: "u32 \<Rightarrow> join_answers \<Rightarrow> int \<times> sys_event list" where
  "create_and_join_multicast grp k =
     (let fd = ja_socket k; s = [SysSocket SOCK_DGRAM fd]
      in if fd < 0 then (-1, s)
         else
           let s = s @ [SysSetsockopt fd SO_REUSEADDR, SysBind fd (htonl 0) (htons 9100)]
           in if ja_bind k < 0 then (-1, s @ [SysClose fd])
              else
                let s = s @ [SysSetsockopt fd (IP_ADD_MEMBERSHIP grp (htonl 0))]
                in if ja_membership k < 0 then (-1, s @ [SysClose fd])
                   else (fd, s @ [SysSetfl fd (or (of_int (ja_getfl k)) 2048)]))"

section \<open>Processing a datagram\<close>

record subscriber =
  sb_feedback :: UdpDeliveryFeedback
  sb_latency :: "u64 list"
  sb_tracer :: Tracer
  sb_processed :: nat

text \<open>\<open>clock\<close> gives the time at the \<open>i\<close>-th processed packet. Metrics are printed only and left out.\<close>

definition sub_process :: "(nat \<Rightarrow> u64) \<Rightarrow> mem \<Rightarrow> Packet \<Rightarrow> subscriber \<Rightarrow> subscriber" where
  "sub_process clock m pkt s =
     (case udp_parse m pkt of
        None \<Rightarrow> s
      | Some (header, payload, payload_len) \<Rightarrow>
          if payload_len < 40 then s
          else
            let d = MarketDataIncrement_of_bytes (mem_read m payload 40);
                s = s\<lparr>sb_feedback := observe (md_seq d) (sb_feedback s)\<rparr>;
                now_ns = clock (sb_processed s);
                s = s\<lparr>sb_processed := Suc (sb_processed s)\<rparr>
            in if now_ns \<ge> md_send_ts_ns d
               then s\<lparr>sb_latency := sb_latency s @ [(now_ns - md_send_ts_ns d) div 1000],
                      sb_tracer := snd (should_emit (sb_tracer s))\<rparr>
               else s)"

function sub_drain :: "(nat \<Rightarrow> u64) \<Rightarrow> mem \<Rightarrow> bool \<Rightarrow> packet_ring \<Rightarrow> subscriber \<Rightarrow> bool \<times> packet_ring \<times> subscriber" where
  "sub_drain clock m got_data ring s =
     (case ring_try_pop ring of
        (None, ring) \<Rightarrow> (got_data, ring, s)
      | (Some pkt, ring) \<Rightarrow> sub_drain clock m True ring (sub_process clock m pkt s))"
  by pat_completeness auto
termination
  by (relation "measure (\<lambda>(_, _, _, r, _). unat (write_pos r) - unat (read_pos r))") (auto dest: ring_try_pop_less [OF sym])

section \<open>The polling loop\<close>

text \<open>
  One call of the polling lambda. \<open>st_running\<close> is \<^verbatim>\<open>g_running\<close> as the lambda reads it first, \<open>st_cancel\<close> as the batch receiver
  reads it on entry, \<open>st_cancel_after\<close> as it reads it afterwards; \<open>st_answers\<close> is what \<^verbatim>\<open>recvmmsg\<close> answers.
\<close>

record sub_turn =
  st_flag :: bool
  st_running :: bool
  st_cancel :: bool
  st_cancel_after :: bool
  st_answers :: "u8 list list mmsg_answer list"
  st_clock :: int
  st_clock_polled :: int
  st_clock_slept :: int

record sub_state =
  ss_ring :: packet_ring
  ss_mem :: mem
  ss_sub :: subscriber

definition sub_options :: BatchIOOptions where
  "sub_options = \<lparr>bo_timeout_ms = 0, bo_has_cancel = True, bo_poll_interval_ms = 1\<rparr>"

text \<open>The result is whether there was data, whether \<^verbatim>\<open>poller.stop()\<close> was called, and the new state.\<close>

definition sub_poll :: "(nat \<Rightarrow> ptr) \<Rightarrow> (nat \<Rightarrow> u64) \<Rightarrow> sub_turn \<Rightarrow> sub_state \<Rightarrow> (bool \<times> bool \<times> sub_state) option" where
  "sub_poll bufs clock turn s =
     (if \<not> st_running turn then Some (False, True, s)
      else
        case recv_batch_ring sub_options bufs 16 (st_cancel turn) (st_answers turn) (st_cancel_after turn) (ss_ring s) (ss_mem s) of
          None \<Rightarrow> None
        | Some (batch_result, ring, m) \<Rightarrow>
            let io_result = batch_to_unified_result batch_result; s = s\<lparr>ss_ring := ring, ss_mem := m\<rparr>
            in if un_status io_result = UnifiedSysError then Some (False, True, s)
               else if classify_loop_control io_result = StopLoop \<and> un_status io_result \<noteq> UnifiedCancelled
               then Some (False, True, s)
               else
                 let (got_data, ring, sub) = sub_drain clock m False ring (ss_sub s)
                 in Some (got_data \<or> un_count io_result > 0, False, s\<lparr>ss_ring := ring, ss_sub := sub\<rparr>))"

text \<open>
  \<^verbatim>\<open>start_with_control\<close> with the lambda as \<^verbatim>\<open>poll_func\<close>, \<^verbatim>\<open>adaptive_adjust\<close> as \<^verbatim>\<open>on_idle\<close>, and the address of \<^verbatim>\<open>g_running\<close> as
  the cancel flag: \<open>st_flag\<close> is what the poller reads there. \<open>stopped\<close> says whether the lambda called \<^verbatim>\<open>stop\<close>. A turn whose
  first two tests end the loop does not call the lambda.
\<close>

definition sub_round :: "bool \<Rightarrow> sub_turn \<Rightarrow> bool \<Rightarrow> poll_round" where
  "sub_round stopped turn has_data =
     \<lparr>pr_stop = stopped, pr_cancel = st_flag turn, pr_clock = st_clock turn, pr_has_data = has_data,
      pr_clock_polled = st_clock_polled turn, pr_clock_slept = st_clock_slept turn\<rparr>"

definition sub_control :: BusyPollControl where
  "sub_control = BusyPollControl_default\<lparr>bc_has_cancel := True\<rparr>"

definition sub_on_idle :: "poll_locals \<Rightarrow> poll_locals \<Rightarrow> poll_locals" where
  "sub_on_idle before l = (if pl_idle_calls before < pl_idle_calls l then l\<lparr>pl_poller := adaptive_adjust (pl_poller l)\<rparr> else l)"

fun sub_loop ::
    "(nat \<Rightarrow> ptr) \<Rightarrow> (nat \<Rightarrow> u64) \<Rightarrow> bool \<Rightarrow> poll_locals \<Rightarrow> sub_turn list \<Rightarrow> sub_state \<Rightarrow> (poll_locals \<times> sub_state) option" where
  "sub_loop bufs clock stopped l [] s = None"
| "sub_loop bufs clock stopped l (turn # turns) s =
     (case poll_step sub_control l (sub_round stopped turn False) of
        Inl l \<Rightarrow> Some (l, s)
      | Inr _ \<Rightarrow>
          (case sub_poll bufs clock turn s of
             None \<Rightarrow> None
           | Some (has_data, stop, s) \<Rightarrow>
               (case poll_step sub_control l (sub_round stopped turn has_data) of
                  Inl l \<Rightarrow> Some (l, s)
                | Inr l' \<Rightarrow> sub_loop bufs clock stop (sub_on_idle l l') turns s)))"

definition sub_config :: BusyPollConfig where
  "sub_config = BusyPollConfig_default\<lparr>poll_interval := 1000, max_idle_time := 100000, adaptive := True\<rparr>"

definition sub_start :: "int \<Rightarrow> mem \<Rightarrow> sub_state" where
  "sub_start trace_every m =
     \<lparr>ss_ring = PacketRing 64, ss_mem = m,
      ss_sub = \<lparr>sb_feedback = feedback_default, sb_latency = [],
        sb_tracer = mk_Tracer \<lparr>tc_enabled = trace_every > 0, tc_sample_every = of_int (max 1 trace_every)\<rparr>, sb_processed = 0\<rparr>\<rparr>"

text \<open>The rest of \<^verbatim>\<open>main\<close>: \<open>start_time\<close> is the clock when the poller starts; afterwards the descriptor is closed.\<close>

definition subscriber_main ::
    "(nat \<Rightarrow> ptr) \<Rightarrow> (nat \<Rightarrow> u64) \<Rightarrow> int \<Rightarrow> int \<Rightarrow> sub_turn list \<Rightarrow> mem \<Rightarrow> (UnifiedIOResult \<times> sub_state) option" where
  "subscriber_main bufs clock trace_every start_time turns m =
     map_option (\<lambda>(l, s). (poll_to_unified_result (pl_result l), s))
       (sub_loop bufs clock False (poll_start (BusyPoller sub_config) start_time) turns (sub_start trace_every m))"

section \<open>The summary\<close>

text \<open>
  \<open>idx\<close> is the conversion \<^verbatim>\<open>static_cast<std::size_t>(q * n)\<close> for the quantile \<open>q\<close>; for 1.00 it gives \<open>n\<close> itself.
\<close>

definition percentile_us :: "(nat \<Rightarrow> nat) \<Rightarrow> u64 list \<Rightarrow> u64" where
  "percentile_us idx samples = (if samples = [] then 0 else sort samples ! idx (length samples - 1))"

text \<open>The line that is written to the summary file, as words separated by blanks, without the final newline.\<close>

definition summary_words :: "(nat \<Rightarrow> nat) \<Rightarrow> (nat \<Rightarrow> nat) \<Rightarrow> (nat \<Rightarrow> nat) \<Rightarrow> int \<Rightarrow> subscriber \<Rightarrow> string list" where
  "summary_words p50 p99 p999 subscriber_id s =
     [''id='' @ print_int subscriber_id,
      ''recv_total='' @ print_u64 (fb_total (sb_feedback s)),
      ''gaps='' @ print_u64 (gaps (sb_feedback s)),
      ''reorder_events='' @ print_u64 (reorder_events (sb_feedback s)),
      ''max_reorder_depth='' @ print_u64 (max_reorder_depth (sb_feedback s)),
      ''latency_p50_us='' @ print_u64 (percentile_us p50 (sb_latency s)),
      ''latency_p99_us='' @ print_u64 (percentile_us p99 (sb_latency s)),
      ''latency_p999_us='' @ print_u64 (percentile_us p999 (sb_latency s)),
      ''latency_max_us='' @ print_u64 (percentile_us (\<lambda>n. n) (sb_latency s))]"

definition summary_file_text :: "(nat \<Rightarrow> nat) \<Rightarrow> (nat \<Rightarrow> nat) \<Rightarrow> (nat \<Rightarrow> nat) \<Rightarrow> int \<Rightarrow> subscriber \<Rightarrow> string" where
  "summary_file_text p50 p99 p999 subscriber_id s = join_words (summary_words p50 p99 p999 subscriber_id s) @ [CHR 0x0A]"

section \<open>Correctness\<close>

text \<open>The last percentile is the largest sample.\<close>

lemma percentile_max:
  assumes "samples \<noteq> []"
  shows "percentile_us (\<lambda>n. n) samples = Max (set samples)"
proof (rule sym, rule Max_eqI)
  let ?xs = "sort samples" and ?n = "length samples - 1"
  have n: "?n < length ?xs" using assms by (cases samples) simp_all
  then have "?xs ! ?n \<in> set ?xs" by (rule nth_mem)
  then show "percentile_us (\<lambda>n. n) samples \<in> set samples" using assms by (simp add: percentile_us_def)
  fix y
  assume "y \<in> set samples"
  then obtain i where "i < length ?xs" "?xs ! i = y" using in_set_conv_nth [of y ?xs] by auto
  then show "y \<le> percentile_us (\<lambda>n. n) samples"
    using sorted_nth_mono [OF sorted_sort, of i ?n samples] n assms by (simp add: percentile_us_def)
qed simp

declare sub_drain.simps [simp del]

text \<open>Joining opens at most the descriptor it returns and closes it on every failure.\<close>

lemma join_yields:
  "ja_socket k \<notin> fds \<Longrightarrow> yields fds (snd (create_and_join_multicast grp k)) (fst (create_and_join_multicast grp k))"
  by (auto simp: create_and_join_multicast_def yields_def Let_def)

text \<open>
  The subscriber never processes a datagram: the poller is given the address of \<^verbatim>\<open>g_running\<close>, which is true while the
  program should run, as its cancel flag. So the loop is cancelled at once, before the first receive, or, when the signal
  came first, stopped by the lambda; the statistics at the end are those of the start, whatever the network delivers.\<close>

theorem subscriber_never_receives:
  assumes "\<not> st_flag turn \<longrightarrow> \<not> st_running turn"
  shows "\<exists>r. subscriber_main bufs clock trace_every start_time (turn # turn' # turns) m = Some (r, sub_start trace_every m) \<and>
    un_status r = (if st_flag turn then UnifiedCancelled else UnifiedStopped) \<and> un_count r = 0"
proof (cases "st_flag turn")
  case True
  then show ?thesis
    by (auto simp: subscriber_main_def sub_round_def sub_control_def poll_step_def poll_end_def poll_start_def poll_to_unified_result_def Let_def)
next
  case False
  let ?l = "poll_start (BusyPoller sub_config) start_time"
  obtain l where l: "poll_step sub_control ?l (sub_round False turn False) = Inr l"
    using False by (auto simp: poll_step_def sub_round_def sub_control_def BusyPollControl_default_def Let_def)
  have hits: "bp_data_hits (pl_result (sub_on_idle ?l l)) = 0"
    using l False by (auto simp: sub_on_idle_def poll_simps sub_round_def sub_control_def poll_start_def split: if_splits)
  have "subscriber_main bufs clock trace_every start_time (turn # turn' # turns) m =
      map_option (\<lambda>(l, s). (poll_to_unified_result (pl_result l), s))
        (sub_loop bufs clock True (sub_on_idle ?l l) (turn' # turns) (sub_start trace_every m))"
    using l False assms by (simp add: subscriber_main_def sub_poll_def)
  also have "\<dots> = Some (poll_to_unified_result (pl_result (poll_end PollCompleted (sub_on_idle ?l l))), sub_start trace_every m)"
    by (simp add: poll_step_def sub_round_def)
  finally show ?thesis using False hits by (simp add: poll_to_unified_result_def poll_end_def Let_def)
qed

text \<open>A turn in which the flag is set and two datagrams are waiting.\<close>

definition ex_sub_turn :: sub_turn where
  "ex_sub_turn = \<lparr>st_flag = True, st_running = True, st_cancel = True, st_cancel_after = True,
     st_answers = [\<lparr>ma_result = Inl [[1, 2, 3], [4]], ma_cancel = True, ma_poll = None\<rparr>], st_clock = 0, st_clock_polled = 0, st_clock_slept = 0\<rparr>"

theorem subscriber_never_receives_witness:
  "\<exists>r. subscriber_main (\<lambda>i. 65536 * (i + 1)) (\<lambda>_. 0) 0 0 [ex_sub_turn, ex_sub_turn] (\<lambda>_. 0) = Some (r, sub_start 0 (\<lambda>_. 0)) \<and>
    un_status r = UnifiedCancelled"
  using subscriber_never_receives [of ex_sub_turn "\<lambda>i. 65536 * (i + 1)" "\<lambda>_. 0" 0 0 ex_sub_turn "[]" "\<lambda>_. 0"] by (auto simp: ex_sub_turn_def)

end
