(* ===== verification/Market_Feed.thy ===== *)
theory Market_Feed
  imports Feed_Publisher Feed_Subscriber
begin

text \<open>
  The market data path from end to end: what the subscriber's packet handler makes of the datagrams that the publisher hands
  to the kernel. Each datagram arrives in a buffer at \<open>buf\<close> before it is handled.
\<close>

definition sub_receive :: "(nat \<Rightarrow> u64) \<Rightarrow> ptr \<Rightarrow> mem \<Rightarrow> u8 list list \<Rightarrow> subscriber \<Rightarrow> subscriber" where
  "sub_receive clock buf m frames s =
     fold (\<lambda>frame. sub_process clock (mem_write m buf frame) (mk_Packet buf (of_nat (length frame)) 0)) frames s"

lemma MarketDataIncrement_of_longer:
  "40 \<le> length bs \<Longrightarrow> MarketDataIncrement_of_bytes (take 40 bs) = MarketDataIncrement_of_bytes bs"
  by (simp add: MarketDataIncrement_of_bytes_def drop_take min_def)

lemma length_pub_frame: "pub_env_ok env addr \<Longrightarrow> length (pub_frame env msg) = 8 + unat (pe_payload_bytes env)"
  by (simp add: pub_frame_def pub_env_ok_def length_pub_payload)

lemma sub_process_frame:
  assumes "pub_env_ok env addr"
  shows "sb_feedback (sub_process clock (mem_write m buf (pub_frame env msg)) (mk_Packet buf (of_nat (length (pub_frame env msg))) 0) s)
    = observe (md_seq msg) (sb_feedback s)"
proof -
  let ?n = "pe_payload_bytes env" and ?m = "mem_write m buf (pub_frame env msg)"
  have n: "40 \<le> unat ?n" "8 + unat ?n < 65536" using assms by (simp_all add: pub_env_ok_def)
  have pl: "length (pub_payload ?n msg) = unat ?n" by (rule length_pub_payload [OF n(1)])
  have len: "of_nat (length (pub_frame env msg)) = 8 + ?n" using length_pub_frame [OF assms] by simp
  have rd: "mem_read ?m buf (8 + unat ?n) = udp_sealed kSrcPort kMulticastPort (ucast (8 + ?n)) (pub_payload ?n msg) kPublisherIp kGroupIp True"
    using length_pub_frame [OF assms, of msg] by (simp add: pub_frame_def)
  note p = udp_parse_sealed [OF rd pl n(2)]
  obtain h where h: "udp_parse ?m (mk_Packet buf (8 + ?n) 0) = Some (h, buf + 8, ?n)" using p(1) by blast
  have "mem_read ?m (buf + 8) 40 = take 40 (mem_read ?m (buf + 8) (unat ?n))" using n(1) by (simp add: take_mem_read)
  then have "MarketDataIncrement_of_bytes (mem_read ?m (buf + 8) 40) = msg"
    unfolding p(2) by (simp add: pub_payload_def)
  with h n(1) show ?thesis
    by (simp add: sub_process_def len Let_def word_less_nat_alt)
qed

lemma sub_receive_feedback:
  assumes "pub_env_ok env addr"
  shows "sb_feedback (sub_receive clock buf m (map (pub_frame env) sent) s) = fold observe (map md_seq sent) (sb_feedback s)"
  by (induction sent arbitrary: s) (simp_all add: sub_receive_def sub_process_frame [OF assms])

section \<open>Sequence numbers\<close>

text \<open>The kept messages carry increasing numbers from the range of the turns.\<close>

lemma kept_numbers:
  "\<exists>ns. map md_seq (pub_kept env turns (of_nat k)) = map of_nat ns \<and> distinct ns \<and> set ns \<subseteq> {k..<k + length turns} \<and>
    ((\<forall>turn \<in> set turns. \<not> pt_drop turn) \<longrightarrow> ns = [k..<k + length turns])"
proof (induction turns arbitrary: k)
  case (Cons turn turns)
  from Cons.IH [of "Suc k"] obtain ns where ns: "map md_seq (pub_kept env turns (of_nat (Suc k))) = map of_nat ns" "distinct ns"
    "set ns \<subseteq> {Suc k..<Suc k + length turns}" "(\<forall>turn \<in> set turns. \<not> pt_drop turn) \<longrightarrow> ns = [Suc k..<Suc k + length turns]" by blast
  show ?case
  proof (cases "pt_drop turn")
    case True
    with ns show ?thesis by (intro exI [of _ ns]) (auto simp: add.commute)
  next
    case False
    have "[k..<k + length (turn # turns)] = k # [Suc k..<Suc k + length turns]" by (simp add: upt_conv_Cons del: upt_Suc)
    with False ns show ?thesis by (intro exI [of _ "k # ns"]) (auto simp: add.commute pub_message_def simp del: upt_Suc)
  qed
qed simp

lemma kept_length: "length (pub_kept env turns s) \<le> length turns"
  by (induction turns arbitrary: s) (auto simp: le_SucI)

lemma observe_in_order:
  "n < 2 ^ 64 \<Longrightarrow> fold observe (map of_nat [1..<Suc n]) feedback_default =
     \<lparr>expected_seq = 1 + of_nat n, fb_total = of_nat n, gaps = 0, reorder_events = 0, max_reorder_depth = 0\<rparr>"
proof (induction n)
  case (Suc n)
  then have IH: "fold observe (map of_nat [1..<Suc n]) feedback_default =
     \<lparr>expected_seq = 1 + of_nat n, fb_total = of_nat n, gaps = 0, reorder_events = 0, max_reorder_depth = 0\<rparr>" by simp
  have "[1..<Suc (Suc n)] = [1..<Suc n] @ [Suc n]" by simp
  then show ?case by (simp only: map_append fold_append o_apply IH) (simp add: observe_def Let_def add.commute)
qed (simp add: feedback_default_def)

lemma sent_numbers:
  assumes "mset sent + mset hq = mset (pub_kept env turns 1)" and "length turns < 2 ^ 64 - 1"
  shows "distinct (map md_seq sent)" and "\<forall>x \<in> set (map md_seq sent). 0 < x \<and> x \<noteq> -1"
proof -
  obtain ns where ns: "map md_seq (pub_kept env turns 1) = map of_nat ns" "distinct ns" "set ns \<subseteq> {1..<1 + length turns}"
    using kept_numbers [of env turns 1] by auto
  have u: "unat (of_nat n :: u64) = n" "0 < n" "n < 2 ^ 64 - 1" if "n \<in> set ns" for n
  proof -
    show n: "0 < n" "n < 2 ^ 64 - 1" using ns(3) that assms(2) by auto
    then show "unat (of_nat n :: u64) = n" by (intro unat_of_nat_small) simp
  qed
  then have "inj_on (of_nat :: nat \<Rightarrow> u64) (set ns)" by (metis inj_onI)
  then have "distinct (map md_seq (pub_kept env turns 1))" unfolding ns(1) using ns(2) by (simp add: distinct_map)
  moreover have m: "mset (map md_seq (sent @ hq)) = mset (map md_seq (pub_kept env turns 1))"
    using arg_cong [OF assms(1), of "image_mset md_seq"] by simp
  ultimately show "distinct (map md_seq sent)" using mset_eq_imp_distinct_iff [OF m] by simp
  show "\<forall>x \<in> set (map md_seq sent). 0 < x \<and> x \<noteq> -1"
  proof
    fix x assume "x \<in> set (map md_seq sent)"
    then have "x \<in> set (map md_seq (sent @ hq))" by auto
    then have "x \<in> set (map of_nat ns)" unfolding mset_eq_setD [OF m] ns(1) .
    then obtain n where n: "n \<in> set ns" "x = of_nat n" by auto
    then have "unat x = n" using u(1) by simp
    then have "unat x \<noteq> 0" "unat x \<noteq> unat (-1 :: u64)" using u(2,3) [OF n(1)] by simp_all
    then show "0 < x \<and> x \<noteq> -1" by (auto simp: word_less_nat_alt)
  qed
qed

lemma sent_in_order:
  assumes "sent @ hq = pub_kept env turns 1" and "\<forall>turn \<in> set turns. \<not> pt_drop turn"
  shows "map md_seq sent = map of_nat [1..<Suc (length sent)]"
proof -
  have "map md_seq (sent @ hq) = map of_nat [1..<1 + length turns]"
    using kept_numbers [of env turns 1] assms by auto
  then have "take (length sent) (map md_seq (sent @ hq)) = take (length sent) (map of_nat [1..<1 + length turns])" by simp
  moreover have "length sent \<le> length turns" using arg_cong [OF \<open>map md_seq (sent @ hq) = _\<close>, of length] by (simp del: upt_Suc)
  ultimately show ?thesis by (simp add: take_map min_def del: upt_Suc)
qed



end
