(* ===== verification/Gateway_Loop.thy ===== *)
theory Gateway_Loop
  imports Gateway_Stream
begin

text \<open>
  The whole loop of the gateway of \<^verbatim>\<open>Order_Gateway\<close>: an invariant of accepting, reading and processing a packet is an invariant of
  every run, and under a total one the loop never gets stuck. Two such invariants are given, the state of the
  connections and the well-formedness of the gateway's data. The theory also shows what several clients may expect: each is
  served as if it were alone as long as their frames arrive in different turns of the loop, and what happens when they do not.
\<close>

section \<open>Invariants of the loop\<close>

definition gw_final :: "gw_outcome \<Rightarrow> gateway option" where
  "gw_final r = (case r of GwUndefined \<Rightarrow> None | GwEnded (_, g) \<Rightarrow> Some g | GwRunning (_, g) \<Rightarrow> Some g)"

text \<open>Induction over the packets of the ring, in a fixed environment.\<close>

lemma gw_drain_induct:
  assumes "\<And>ring g. (\<And>pkt ring' g'. ring_try_pop ring = (Some pkt, ring') \<Longrightarrow> gw_packet env (ring_size ring') pkt g = Some g' \<Longrightarrow> P ring' g') \<Longrightarrow> P ring g"
  shows "P ring g"
proof -
  have "e = env \<longrightarrow> P ring g" for e
    by (induction e ring g rule: gw_drain.induct) (metis assms)
  then show ?thesis by simp
qed

locale gw_invariant =
  fixes env :: gateway_env and I :: "gateway \<Rightarrow> bool"
  assumes on_accept: "I g \<Longrightarrow> I (gw_on_accept outcome g)"
    and on_read: "I g \<Longrightarrow> I (snd (gw_on_read env fd input (ring, g)))"
    and on_packet: "I g \<Longrightarrow> gw_packet env n pkt g = Some g' \<Longrightarrow> I g'"
begin

lemma events_keep: "I (snd s) \<Longrightarrow> I (snd (gw_events env listen_fd acc rd i evs s))"
proof (induction evs arbitrary: i s)
  case (Cons ev evs)
  obtain ring g where s: "s = (ring, g)" by fastforce
  show ?case using Cons.prems on_accept on_read by (simp add: s Let_def Cons.IH)
qed simp

lemma drain_keeps: "gw_drain env ring g = Some s \<Longrightarrow> I g \<Longrightarrow> I (snd s)"
proof (induction ring g rule: gw_drain_induct [where env = env])
  case (1 ring g)
  obtain x ring' where pop: "ring_try_pop ring = (x, ring')" by fastforce
  show ?case
  proof (cases x)
    case None
    with 1(2,3) pop show ?thesis by (auto simp: gw_drain.simps [of env ring])
  next
    case (Some pkt)
    with 1(2) pop obtain g' where g': "gw_packet env (ring_size ring') pkt g = Some g'" "gw_drain env ring' g' = Some s"
      by (auto simp: gw_drain.simps [of env ring] split: option.splits)
    from 1(1) [OF pop [unfolded Some] g'] on_packet [OF 1(3) g'(1)] show ?thesis by blast
  qed
qed

text \<open>One round: the loop goes on, ends, or waits, or the ring is drained in between.\<close>

lemma main_keeps: "I (snd s) \<Longrightarrow> gw_final (gateway_main env listen_fd rounds s) = Some g \<Longrightarrow> I g"
proof (induction rounds arbitrary: s)
  case (Cons round rounds)
  show ?case
  proof (cases "wait_with_options (EpollWaitOptions_default\<lparr>eo_timeout_ms := -1\<rparr>) False (gr_answers round)")
    case None
    with Cons.prems show ?thesis by (cases s) (simp add: gw_final_def)
  next
    case (Some re)
    obtain r evs where re: "re = (r, evs)" by fastforce
    obtain ring1 g1 where ev: "gw_events env listen_fd (gr_accept round) (gr_read round) 0 evs s = (ring1, g1)" by fastforce
    have g1: "I g1" using events_keep [OF Cons.prems(1), of listen_fd "gr_accept round" "gr_read round" 0 evs] ev by simp
    show ?thesis using Some re ev Cons.prems Cons.IH drain_keeps [OF _ g1, of ring1]
      by (cases s) (auto simp: gw_final_def Let_def split: if_splits option.splits)
  qed
qed (auto simp: gw_final_def)

end

text \<open>With an invariant under which every packet can be processed, the loop never gets stuck.\<close>

locale gw_total = gw_invariant +
  assumes packet_defined: "I g \<Longrightarrow> gw_packet env n pkt g \<noteq> None"
begin

lemma drain_defined: "I g \<Longrightarrow> gw_drain env ring g \<noteq> None"
proof (induction ring g rule: gw_drain_induct [where env = env])
  case (1 ring g)
  obtain x ring' where pop: "ring_try_pop ring = (x, ring')" by fastforce
  show ?case
  proof (cases x)
    case None
    with pop show ?thesis by (simp add: gw_drain.simps [of env ring])
  next
    case (Some pkt)
    obtain g' where g': "gw_packet env (ring_size ring') pkt g = Some g'" using packet_defined [OF 1(2)] by fastforce
    with 1(1) [OF pop [unfolded Some] g' on_packet [OF 1(2) g']] pop Some show ?thesis
      by (simp add: gw_drain.simps [of env ring])
  qed
qed

lemma main_defined: "I (snd s) \<Longrightarrow> gateway_main env listen_fd rounds s \<noteq> GwUndefined"
proof (induction rounds arbitrary: s)
  case (Cons round rounds)
  show ?case
  proof (cases "wait_with_options (EpollWaitOptions_default\<lparr>eo_timeout_ms := -1\<rparr>) False (gr_answers round)")
    case (Some re)
    obtain r evs where re: "re = (r, evs)" by fastforce
    obtain ring1 g1 where ev: "gw_events env listen_fd (gr_accept round) (gr_read round) 0 evs s = (ring1, g1)" by fastforce
    have g1: "I g1" using events_keep [OF Cons.prems(1), of listen_fd "gr_accept round" "gr_read round" 0 evs] ev by simp
    obtain s1 where s1: "gw_drain env ring1 g1 = Some s1" using drain_defined [OF g1] by fastforce
    from Some re ev s1 Cons.prems Cons.IH drain_keeps [OF s1 g1] show ?thesis by (simp add: Let_def)
  qed simp
qed simp

end

section \<open>The state of the connections\<close>

definition all_closed :: "gateway \<Rightarrow> bool" where
  "all_closed g \<longleftrightarrow> (\<forall>(fd, ctx) \<in> set (gw_conns g). conn_state (cx_tcp ctx) = CLOSED)"

lemma gw_send_conns: "gw_send env fd build g = Some (pkt, nw, g') \<Longrightarrow> gw_conns g' = gw_conns g"
  by (auto simp: gw_send_def split: option.splits if_splits prod.splits)

lemma gw_account_conns: "gw_account env fd n payload g = (ack, g') \<Longrightarrow> gw_conns g' = gw_conns g"
  by (auto simp: gw_account_def Let_def split: if_splits prod.splits)

lemma process_state:
  assumes "process_order_payload env fd n payload ctx g = Some (ctx', g')"
  shows "conn_state (cx_tcp ctx') = conn_state (cx_tcp ctx) \<and> gw_conns g' = gw_conns g"
proof (cases "length payload < 40")
  case True
  then show ?thesis using assms by (simp add: process_order_payload_def)
next
  case False
  obtain ack g1 where a: "gw_account env fd n payload g = (ack, g1)" by fastforce
  show ?thesis using assms False gw_account_conns [OF a]
    by (auto simp: process_order_payload_def a Let_def dest!: gw_send_conns split: option.splits if_splits)
qed

lemma gw_replay_state:
  "gw_replay env fd n segs ctx g = Some (ctx', g') \<Longrightarrow> conn_state (cx_tcp ctx') = conn_state (cx_tcp ctx) \<and> gw_conns g' = gw_conns g"
  by (induction segs arbitrary: ctx g) (auto split: option.splits dest!: process_state)

lemma gw_data_state:
  assumes "gw_data env fd n sq p len ctx g = Some (ctx', g')"
  shows "conn_state (cx_tcp ctx') = conn_state (cx_tcp ctx) \<and> gw_conns g' = gw_conns g"
  using assms
  by (auto simp: gw_data_def gw_buffer_def Let_def split: if_splits option.splits prod.splits
      dest!: process_state gw_replay_state)

lemma closed_stays: "conn_state c = CLOSED \<Longrightarrow> conn_state (snd (handle_incoming c h n)) = CLOSED"
  using handle_incoming_allowed [of c h n] by (cases "handle_incoming c h n") (simp add: allowed_def)

lemma gw_control_closed:
  assumes "conn_state (cx_tcp ctx) = CLOSED" and "gw_control env fd h len ctx g = Some g'"
  shows "gw_conns g' = AList.delete fd (gw_conns g)"
proof -
  have c: "conn_state (snd (handle_incoming (cx_tcp ctx) h len)) = CLOSED" by (rule closed_stays [OF assms(1)])
  show ?thesis using assms(2) c
    by (auto simp: gw_control_def gw_close_reply_def gw_drop_def gw_store_def Let_def delete_update_same
        dest!: gw_send_conns split: option.splits if_splits)
qed

lemma all_closed_delete: "all_closed g \<Longrightarrow> gw_conns g' = AList.delete fd (gw_conns g) \<Longrightarrow> all_closed g'"
  by (auto simp: all_closed_def AList.delete_eq)

lemma all_closed_update:
  "all_closed g \<Longrightarrow> conn_state (cx_tcp ctx) = CLOSED \<Longrightarrow> gw_conns g' = AList.update fd ctx (gw_conns g) \<Longrightarrow> all_closed g'"
  using set_update_subset [of fd ctx "gw_conns g"] by (auto simp: all_closed_def)

lemma all_closed_lookup: "all_closed g \<Longrightarrow> map_of (gw_conns g) fd = Some ctx \<Longrightarrow> conn_state (cx_tcp ctx) = CLOSED"
  by (auto simp: all_closed_def dest: map_of_SomeD)

lemma gw_packet_conns:
  assumes "all_closed g" and "gw_packet env n pkt g = Some g'"
  obtains "gw_conns g' = gw_conns g" | "gw_conns g' = AList.delete (uint (pkt_port pkt)) (gw_conns g)"
  | ctx where "gw_conns g' = AList.update (uint (pkt_port pkt)) ctx (gw_conns g)" "conn_state (cx_tcp ctx) = CLOSED"
proof -
  let ?fd = "uint (pkt_port pkt)" and ?g = "g\<lparr>gw_popped := Suc (gw_popped g)\<rparr>"
  consider "ge_drop env (gw_popped g)" | "\<not> ge_drop env (gw_popped g)" "map_of (gw_conns g) ?fd = None"
    | ctx where "\<not> ge_drop env (gw_popped g)" "map_of (gw_conns g) ?fd = Some ctx" by blast
  then show ?thesis
  proof cases
    case 3
    note closed = all_closed_lookup [OF assms(1) 3(2)]
    have "g' = ?g \<or> (\<exists>h len. gw_control env ?fd h len ctx ?g = Some g') \<or>
      (\<exists>sq p len ctx' g1. gw_data env ?fd n sq p len ctx ?g = Some (ctx', g1) \<and> g' = gw_store ?fd ctx' g1)"
    proof (cases "parse (gw_mem g) pkt")
      case None
      then show ?thesis using assms(2) 3 by (simp add: gw_packet_def Let_def)
    next
      case (Some hpl)
      obtain h p len where hpl: "hpl = (h, p, len)" by (cases hpl)
      show ?thesis
      proof (cases "is_malformed_header h \<or> len = 0 \<and> (has_fin h \<or> has_ack h)")
        case True
        then have "g' = ?g \<or> gw_control env ?fd h len ctx ?g = Some g'"
          using assms(2) 3 Some hpl by (simp add: gw_packet_def Let_def split: if_splits)
        then show ?thesis by blast
      next
        case False
        then have "(case gw_data env ?fd n (th_seq_num h) p len ctx ?g of None \<Rightarrow> None | Some (ctx, g) \<Rightarrow> Some (gw_store ?fd ctx g)) = Some g'"
          using assms(2) 3 Some hpl by (simp add: gw_packet_def Let_def split: if_splits)
        then show ?thesis by (cases "gw_data env ?fd n (th_seq_num h) p len ctx ?g") (simp, fastforce)
      qed
    qed
    then consider "g' = ?g" | h len where "gw_control env ?fd h len ctx ?g = Some g'"
      | sq p len ctx' g1 where "gw_data env ?fd n sq p len ctx ?g = Some (ctx', g1)" "g' = gw_store ?fd ctx' g1" by blast
    then show ?thesis
    proof cases
      case 1
      then show ?thesis by (intro that(1)) simp
    next
      case 2
      then show ?thesis using gw_control_closed [OF closed] by (intro that(2)) simp
    next
      case 3
      then show ?thesis using closed gw_data_state [OF 3(1)] by (intro that(3) [of ctx']) (simp_all add: gw_store_def)
    qed
  qed (use assms(2) that(1,2) in \<open>auto simp: gw_packet_def gw_drop_def Let_def\<close>)
qed

lemma gw_packet_closed:
  assumes "all_closed g" and "gw_packet env n pkt g = Some g'"
  shows "all_closed g'"
  using assms by (rule gw_packet_conns)
    (use assms(1) in \<open>auto simp: all_closed_def intro: all_closed_delete [unfolded all_closed_def] dest!: set_update_subset [THEN subsetD]
      simp add: AList.delete_eq\<close>)

interpretation closed: gw_invariant env all_closed for env
proof
  show "all_closed (gw_on_accept outcome g)" if "all_closed g" for g outcome
    using that
    by (auto simp: all_closed_def gw_on_accept_def gw_new_connection_def TcpConnection_default_def Let_def split: gw_accept.splits)
  show "all_closed (snd (gw_on_read env fd input (ring, g)))" if "all_closed g" for g fd input ring
    using that by (auto simp: all_closed_def gw_on_read_def gw_drop_def AList.delete_eq Let_def split: gw_read.splits)
qed (rule gw_packet_closed)

lemma gateway_init_closed: "gateway_init mmap t m = Some s \<Longrightarrow> all_closed (snd s)"
  by (auto simp: gateway_init_def all_closed_def split: zc_result.splits option.splits)

text \<open>
  \<^bold>\<open>C30\<close>. The gateway never establishes a connection: whatever is accepted, read and processed in its loop from its start,
  every connection stays in state \<^verbatim>\<open>CLOSED\<close>. So the next frame without payload that carries ACK or FIN, a keepalive for
  instance, makes it forget and close the connection it came on.\<close>

theorem gateway_never_established:
  assumes "gateway_init mmap t m = Some s" and "gw_final (gateway_main env listen_fd rounds s) = Some g"
  shows "all_closed g \<and>
    (\<forall>n pkt h payload g'. gw_packet env n pkt g = Some g' \<and> parse (gw_mem g) pkt = Some (h, payload, 0) \<and>
       \<not> is_malformed_header h \<and> (has_ack h \<or> has_fin h) \<longrightarrow> map_of (gw_conns g') (uint (pkt_port pkt)) = None)"
proof (intro conjI allI impI)
  show closed: "all_closed g" by (rule closed.main_keeps [OF gateway_init_closed [OF assms(1)] assms(2)])
  fix n pkt h payload g'
  assume "gw_packet env n pkt g = Some g' \<and> parse (gw_mem g) pkt = Some (h, payload, 0) \<and> \<not> is_malformed_header h \<and> (has_ack h \<or> has_fin h)"
  then show "map_of (gw_conns g') (uint (pkt_port pkt)) = None"
    using all_closed_lookup [OF closed]
    by (auto simp: gw_packet_def gw_drop_def Let_def delete_conv' dest!: gw_control_closed [rotated] split: if_splits option.splits)
qed

text \<open>
  A round in which epoll reports the listening descriptor 3 and a client is accepted as descriptor 5; memory that holds
  a keepalive at 4096.
\<close>

definition ex_round :: gw_round where
  "ex_round = \<lparr>gr_answers = [\<lparr>ea_result = Inl [\<lparr>ev_events = 1, ev_data = 3\<rparr>], ea_cancel = False\<rparr>],
     gr_accept = \<lambda>_. Accepted 5 0 True, gr_read = \<lambda>_. ReadError 11\<rparr>"

definition ex_keepalive :: mem where
  "ex_keepalive = snd (create_ack TcpConnection_default 1 4096 (\<lambda>_. 0))"

lemma ex_round_run:
  assumes "gw_conns g = []"
  shows "gateway_main env 3 [ex_round] (PacketRing 64, g) = GwRunning (PacketRing 64, gw_on_accept (Accepted 5 0 True) g)"
proof -
  have "ring_try_pop (PacketRing 64) = (None, PacketRing 64)" by code_simp
  then have "gw_drain env (PacketRing 64) g' = Some (PacketRing 64, g')" for g' by (simp add: gw_drain.simps)
  moreover have "wait_with_options (EpollWaitOptions_default\<lparr>eo_timeout_ms := -1\<rparr>) False
      [\<lparr>ea_result = Inl [\<lparr>ev_events = 1, ev_data = 3\<rparr>], ea_cancel = False\<rparr>] =
      Some (\<lparr>er_count = 1, er_error = 0, er_status = EpollOk\<rparr>, [\<lparr>ev_events = 1, ev_data = 3\<rparr>])" by code_simp
  moreover have "un_status (epoll_to_unified_result \<lparr>er_count = 1, er_error = 0, er_status = EpollOk\<rparr>) = UnifiedOk"
    "classify_loop_control (epoll_to_unified_result \<lparr>er_count = 1, er_error = 0, er_status = EpollOk\<rparr>) = ContinueWork"
    by code_simp+
  moreover have "data_fd 3 = 3" by code_simp
  ultimately show ?thesis by (simp add: ex_round_def Let_def)
qed

theorem gateway_never_established_witness:
  "\<exists>s g g'. gateway_init ex_mmap 0 ex_keepalive = Some s \<and> gw_final (gateway_main ex_env 3 [ex_round] s) = Some g \<and>
    map_of (gw_conns g) 5 \<noteq> None \<and> gw_packet ex_env 0 ((mk_Packet 4096 20 0)\<lparr>pkt_port := 5\<rparr>) g = Some g' \<and>
    all_closed g \<and> map_of (gw_conns g') 5 = None"
proof -
  have h: "ex_mmap 4608 False = Some 65536" "(0 :: nat) < 65536" "ge_ack ex_env + 24 \<le> 65536 + 36 \<or> 65536 + 80 \<le> ge_ack ex_env"
    by (simp_all add: ex_mmap_def ex_env_def)
  obtain g where g: "gateway_init ex_mmap 0 ex_keepalive = Some (PacketRing 64, g)" "gw_conns g = []" "gw_mem g = ex_keepalive"
    by (rule gateway_init_ready [where mmap = ex_mmap, OF h])
  let ?g = "gw_on_accept (Accepted 5 0 True) g" and ?pkt = "(mk_Packet 4096 20 0)\<lparr>pkt_port := 5\<rparr>"
  have run: "gw_final (gateway_main ex_env 3 [ex_round] (PacketRing 64, g)) = Some ?g"
    using ex_round_run [OF g(2), of ex_env] by (simp add: gw_final_def)
  have conns: "map_of (gw_conns ?g) 5 = Some (gw_new_connection 0)" using accept_fresh(1) [OF g(2)] by simp
  have mem: "gw_mem ?g = ex_keepalive" using g(2,3) by (simp add: gw_on_accept_def Let_def)
  obtain hd where hd: "parse ex_keepalive (mk_Packet 4096 20 0) = Some (hd, 4116, 0)" "has_ack hd" "\<not> has_fin hd" "\<not> is_malformed_header hd"
  proof -
    have "\<exists>hd. parse ex_keepalive (mk_Packet 4096 20 0) = Some (hd, 4116, 0) \<and> th_flags hd = 16 \<and> th_data_offset hd = 5"
      by (simp add: ex_keepalive_def create_seal parse_seal Let_def)
    then show thesis using that by (auto simp: flag_defs is_malformed_header_def)
  qed
  have "\<exists>g'. gw_packet ex_env 0 ?pkt ?g = Some g'"
    using conns mem hd by (simp add: gw_packet_def gw_control_def Let_def ex_env_def)
  then obtain g' where g': "gw_packet ex_env 0 ?pkt ?g = Some g'" by blast
  note never = gateway_never_established [OF g(1) run]
  have "parse (gw_mem ?g) ?pkt = Some (hd, 4116, 0)" using hd(1) mem by simp
  with never g' hd have "all_closed ?g" "map_of (gw_conns g') 5 = None" by fastforce+
  with g(1) run conns g' show ?thesis by blast
qed

section \<open>Well-formedness\<close>

text \<open>
  The data of the gateway is well formed: every block of the pool but the one lost at the start is free, no descriptor is
  registered twice, the reassembly buffers are sorted, and the counters count what was processed and written.
\<close>

definition is_Wrote :: "gw_output \<Rightarrow> bool" where
  "is_Wrote x \<longleftrightarrow> (case x of Wrote _ _ \<Rightarrow> True | Dropped _ \<Rightarrow> False)"

definition gw_tallies :: "gateway \<Rightarrow> bool" where
  "gw_tallies g \<longleftrightarrow> gw_req_recv_total g = of_nat (length (gw_handled g)) \<and> (\<forall>(fd, payload) \<in> set (gw_handled g). 40 \<le> length payload) \<and>
     gw_writes g = length (filter is_Wrote (gw_out g)) \<and> length (gw_handled g) \<le> gw_writes g"

definition gw_pool_sound :: "ptr \<Rightarrow> gateway \<Rightarrow> bool" where
  "gw_pool_sound base g \<longleftrightarrow> (\<exists>free. zp_inv (gw_pool g) ((base + 36) # free) {base})"

definition ctx_sound :: "ConnectionContext \<Rightarrow> bool" where
  "ctx_sound ctx \<longleftrightarrow> sorted_map (segments (cx_reassembly ctx))"

definition conns_sound :: "(int \<times> ConnectionContext) list \<Rightarrow> bool" where
  "conns_sound conns \<longleftrightarrow> distinct (map fst conns) \<and> (\<forall>(fd, ctx) \<in> set conns. ctx_sound ctx)"

definition gw_sound :: "ptr \<Rightarrow> gateway \<Rightarrow> bool" where
  "gw_sound base g \<longleftrightarrow> gw_pool_sound base g \<and> gw_tallies g \<and> conns_sound (gw_conns g)"

lemma gw_tallies_cong:
  "gw_req_recv_total g' = gw_req_recv_total g \<Longrightarrow> gw_handled g' = gw_handled g \<Longrightarrow> gw_writes g' = gw_writes g \<Longrightarrow> gw_out g' = gw_out g \<Longrightarrow>
     gw_tallies g' = gw_tallies g"
  by (simp add: gw_tallies_def)

lemma conns_sound_update: "conns_sound conns \<Longrightarrow> ctx_sound ctx \<Longrightarrow> conns_sound (AList.update fd ctx conns)"
  using set_update_subset [of fd ctx conns] by (auto simp: conns_sound_def distinct_update)

lemma conns_sound_delete: "conns_sound conns \<Longrightarrow> conns_sound (AList.delete fd conns)"
  by (auto simp: conns_sound_def AList.delete_eq distinct_map_filter)

text \<open>Sending: the block comes back, and one more write is counted.\<close>

lemma gw_send_sound:
  assumes "gw_pool_sound base g" and "\<And>b m. pkt_data (fst (build b m)) = b"
  shows "\<exists>pkt nw g'. gw_send env fd build g = Some (pkt, nw, g')" (is ?defined)
    and "gw_send env fd build g = Some (pkt, nw, g') \<Longrightarrow> gw_pool_sound base g' \<and> (\<exists>bs. gw_out g' = gw_out g @ [Wrote fd bs]) \<and>
      gw_writes g' = Suc (gw_writes g) \<and> gw_handled g' = gw_handled g \<and> gw_req_recv_total g' = gw_req_recv_total g \<and> gw_conns g' = gw_conns g"
proof -
  obtain free where inv: "zp_inv (gw_pool g) ((base + 36) # free) {base}" using assms(1) by (auto simp: gw_pool_sound_def)
  obtain p' p'' where p: "zp_allocate (gw_pool g) = Some (base + 36, p')" "zp_deallocate (base + 36) p' = Some p''"
      "zp_inv p'' ((base + 36) # free) {base}" "base + 36 \<noteq> nullptr"
    by (rule zpool.borrow [OF inv])
  obtain pkt0 m where b: "build (base + 36) (gw_mem g) = (pkt0, m)" "pkt_data pkt0 = base + 36"
    using assms(2) [of "base + 36" "gw_mem g"] by (cases "build (base + 36) (gw_mem g)") simp
  have s: "gw_send env fd build g = Some (pkt0, ge_write env (gw_writes g), g\<lparr>gw_pool := p'', gw_mem := m,
      gw_out := gw_out g @ [Wrote fd (pkt_bytes m pkt0)], gw_writes := Suc (gw_writes g)\<rparr>)"
    using p b by (simp add: gw_send_def)
  show ?defined using s by blast
  show "gw_pool_sound base g' \<and> (\<exists>bs. gw_out g' = gw_out g @ [Wrote fd bs]) \<and>
      gw_writes g' = Suc (gw_writes g) \<and> gw_handled g' = gw_handled g \<and> gw_req_recv_total g' = gw_req_recv_total g \<and> gw_conns g' = gw_conns g"
    if "gw_send env fd build g = Some (pkt, nw, g')"
    using that s p(3) by (auto simp: gw_pool_sound_def)
qed

text \<open>Each step of processing is defined on well-formed data and keeps it well formed.\<close>

lemma process_sound:
  assumes "gw_pool_sound base g" and "gw_tallies g"
  shows "\<exists>ctx' g'. process_order_payload env fd n payload ctx g = Some (ctx', g') \<and> gw_pool_sound base g' \<and> gw_tallies g' \<and>
    gw_conns g' = gw_conns g \<and> cx_reassembly ctx' = cx_reassembly ctx"
proof (cases "length payload < 40")
  case True
  then show ?thesis using assms by (simp add: process_order_payload_def)
next
  case False
  let ?tcp = "(cx_tcp ctx)\<lparr>recv_seq := recv_seq (cx_tcp ctx) + of_nat (length payload)\<rparr>"
  obtain ack g1 where a: "gw_account env fd n payload g = (ack, g1)" by fastforce
  have g1: "gw_pool g1 = gw_pool g" "gw_handled g1 = gw_handled g @ [(fd, payload)]" "gw_req_recv_total g1 = gw_req_recv_total g + 1"
    "gw_out g1 = gw_out g" "gw_writes g1 = gw_writes g" "gw_conns g1 = gw_conns g"
    using a by (auto simp: gw_account_def Let_def split: prod.splits if_splits)
  let ?build = "\<lambda>block m. create_data ?tcp (ge_ack env) 24 block (mem_write m (ge_ack env) (OrderAck_bytes (ge_pad env) ack))"
  have sound: "gw_pool_sound base g1" using assms(1) g1(1) by (simp add: gw_pool_sound_def)
  have blk: "\<And>b m. pkt_data (fst (?build b m)) = b" by (simp add: create_data_def Let_def)
  obtain pkt nw g2 where s: "gw_send env fd ?build g1 = Some (pkt, nw, g2)" using gw_send_sound(1) [where build = ?build, OF sound blk] by blast
  note r = gw_send_sound(2) [where build = ?build, OF sound blk s]
  have tallies: "gw_tallies g2" using assms(2) g1 r False by (auto simp: gw_tallies_def is_Wrote_def)
  then have "gw_tallies (if b then g2\<lparr>gw_unexpected_disconnects := x\<rparr> else g2\<lparr>gw_ack_sent_total := y, gw_tracer := z\<rparr>)" for b x y z
    by (simp add: gw_tallies_def)
  moreover have "gw_pool_sound base (if b then g2\<lparr>gw_unexpected_disconnects := x\<rparr> else g2\<lparr>gw_ack_sent_total := y, gw_tracer := z\<rparr>)" for b x y z
    using r by (simp add: gw_pool_sound_def)
  ultimately show ?thesis using False a s r g1(6) by (simp add: process_order_payload_def Let_def)
qed

lemma replay_sound:
  assumes "gw_pool_sound base g" and "gw_tallies g"
  shows "\<exists>ctx' g'. gw_replay env fd n segs ctx g = Some (ctx', g') \<and> gw_pool_sound base g' \<and> gw_tallies g' \<and>
    gw_conns g' = gw_conns g \<and> cx_reassembly ctx' = cx_reassembly ctx"
  using assms
proof (induction segs arbitrary: ctx g)
  case (Cons seg segs)
  obtain ctx1 g1 where one: "process_order_payload env fd n (seg_data seg) ctx g = Some (ctx1, g1)" "gw_pool_sound base g1" "gw_tallies g1"
    "gw_conns g1 = gw_conns g" "cx_reassembly ctx1 = cx_reassembly ctx" using process_sound [OF Cons.prems] by blast
  show ?case using Cons.IH [OF one(2,3), of ctx1] one(1,4,5) by simp
qed simp

lemma data_sound:
  assumes "gw_pool_sound base g" and "gw_tallies g" and "ctx_sound ctx"
  shows "\<exists>ctx' g'. gw_data env fd n sq p len ctx g = Some (ctx', g') \<and> gw_pool_sound base g' \<and> gw_tallies g' \<and>
    gw_conns g' = gw_conns g \<and> ctx_sound ctx'"
proof (cases "len > 0 \<and> sq \<noteq> recv_seq (cx_tcp ctx)")
  case True
  obtain ok b where i: "reassembly_insert (gw_mem g) sq p len (cx_reassembly ctx) = (ok, b)" by fastforce
  have "sorted_map (segments b)" using insert_spec [OF assms(3) [unfolded ctx_sound_def] i] by blast
  then have "\<exists>ctx' g'. gw_buffer sq p len ctx g = (ctx', g') \<and> gw_pool g' = gw_pool g \<and> gw_tallies g' \<and> gw_conns g' = gw_conns g \<and> ctx_sound ctx'"
    using assms(2) i by (simp add: gw_buffer_def Let_def ctx_sound_def gw_tallies_def)
  then show ?thesis using True assms(1) by (auto simp: gw_data_def gw_pool_sound_def)
next
  case False
  let ?payload = "mem_read (gw_mem g) p (unat len)"
  obtain ctx1 g1 where one: "process_order_payload env fd n ?payload ctx g = Some (ctx1, g1)" "gw_pool_sound base g1" "gw_tallies g1"
    "gw_conns g1 = gw_conns g" "cx_reassembly ctx1 = cx_reassembly ctx" using process_sound [OF assms(1,2)] by blast
  obtain k segs b where pop: "pop_contiguous (recv_seq (cx_tcp ctx1)) (cx_reassembly ctx1) = (k, segs, b)" by (metis prod_cases3)
  have "sorted_map (segments (cx_reassembly ctx1))" using assms(3) one(5) by (simp add: ctx_sound_def)
  from pop_contiguous_spec [OF this pop] have srt: "sorted_map (segments b)" by blast
  define g2 where "g2 = g1\<lparr>gw_reorder_replayed_total := gw_reorder_replayed_total g1 + k\<rparr>"
  have "gw_pool_sound base g2" "gw_tallies g2" using one(2,3) by (simp_all add: g2_def gw_pool_sound_def gw_tallies_def)
  from replay_sound [OF this, of env fd n segs "ctx1\<lparr>cx_reassembly := b\<rparr>"]
  obtain ctx' g' where r: "gw_replay env fd n segs (ctx1\<lparr>cx_reassembly := b\<rparr>) g2 = Some (ctx', g')" "gw_pool_sound base g'" "gw_tallies g'"
    "gw_conns g' = gw_conns g2" "cx_reassembly ctx' = b" by auto
  have eq: "gw_data env fd n sq p len ctx g = (if k > 0 then Some (ctx', g') else Some (ctx1\<lparr>cx_reassembly := b\<rparr>, g1))"
    using one(1) pop r(1) by (simp only: gw_data_def g2_def if_not_P [OF False]) simp
  have "ctx_sound ctx'" "ctx_sound (ctx1\<lparr>cx_reassembly := b\<rparr>)" using r(5) srt by (simp_all add: ctx_sound_def)
  with eq r one show ?thesis by (cases "k > 0") (simp_all add: g2_def)
qed

lemma control_sound:
  assumes "gw_sound base g" and "ctx_sound ctx"
  shows "\<exists>g'. gw_control env fd h len ctx g = Some g' \<and> gw_sound base g'"
proof -
  let ?conn = "snd (handle_incoming (cx_tcp ctx) h len)"
  define g1 where "g1 = (if has_ack h \<and> \<not> has_fin h then g\<lparr>gw_keepalive_recv_total := gw_keepalive_recv_total g + 1\<rparr> else g)"
  have g1: "gw_pool_sound base g1" "gw_tallies g1" "gw_conns g1 = gw_conns g"
    using assms(1) by (simp_all add: g1_def gw_sound_def gw_pool_sound_def gw_tallies_def)
  have blk: "\<And>b m. pkt_data (fst (create_ack c x b m)) = b" "\<And>b m. pkt_data (fst (create_fin c b m)) = b" for c x
    by (simp_all add: create_seal)
  have sent: "gw_tallies g'" if "gw_tallies g0" "(\<exists>bs. gw_out g' = gw_out g0 @ [Wrote fd bs]) \<and> gw_writes g' = Suc (gw_writes g0) \<and>
      gw_handled g' = gw_handled g0 \<and> gw_req_recv_total g' = gw_req_recv_total g0 \<and> gw_conns g' = gw_conns g0" for g0 g'
    using that by (auto simp: gw_tallies_def is_Wrote_def)
  have reply: "\<exists>conn g'. gw_close_reply env fd ?conn g1 = Some (conn, g') \<and> gw_pool_sound base g' \<and> gw_tallies g' \<and> gw_conns g' = gw_conns g"
  proof -
    obtain pkt nw g2 where s: "gw_send env fd (create_ack ?conn (send_ack ?conn)) g1 = Some (pkt, nw, g2)"
      using gw_send_sound(1) [where build = "create_ack ?conn (send_ack ?conn)", OF g1(1) blk(1)] by blast
    note r = gw_send_sound(2) [where build = "create_ack ?conn (send_ack ?conn)", OF g1(1) blk(1) s]
    have t2: "gw_tallies g2" "gw_pool_sound base g2" "gw_conns g2 = gw_conns g" using sent [OF g1(2)] r g1(3) by auto
    obtain ok conn where cl: "initiate_close ?conn = (ok, conn)" by fastforce
    obtain pkt' nw' g3 where s': "gw_send env fd (create_fin conn) g2 = Some (pkt', nw', g3)"
      using gw_send_sound(1) [where build = "create_fin conn", OF t2(2) blk(2)] by blast
    note r' = gw_send_sound(2) [where build = "create_fin conn", OF t2(2) blk(2) s']
    have "gw_tallies g3" "gw_pool_sound base g3" "gw_conns g3 = gw_conns g" using sent [OF t2(1)] r' t2(3) by auto
    with t2 show ?thesis using s s' cl by (simp add: gw_close_reply_def)
  qed
  obtain conn g2 where c: "(if has_fin h then gw_close_reply env fd ?conn g1 else Some (?conn, g1)) = Some (conn, g2)"
    "gw_pool_sound base g2" "gw_tallies g2" "gw_conns g2 = gw_conns g"
    using reply g1 by (cases "has_fin h") auto
  let ?g3 = "gw_store fd (ctx\<lparr>cx_tcp := conn\<rparr>) g2"
  have "conns_sound (gw_conns ?g3)" using assms c(4) by (simp add: gw_store_def conns_sound_update gw_sound_def ctx_sound_def)
  then have s3: "gw_sound base ?g3" using c(2,3) by (simp add: gw_sound_def gw_store_def gw_pool_sound_def gw_tallies_def)
  then have "gw_sound base (gw_drop fd ?g3)"
    by (simp add: gw_sound_def gw_drop_def gw_pool_sound_def gw_tallies_def conns_sound_delete is_Wrote_def)
  with s3 show ?thesis using c(1) by (simp add: gw_control_def g1_def [symmetric] Let_def)
qed

lemma packet_sound:
  assumes "gw_sound base g"
  shows "\<exists>g'. gw_packet env n pkt g = Some g' \<and> gw_sound base g'"
proof -
  let ?fd = "uint (pkt_port pkt)" and ?g = "g\<lparr>gw_popped := Suc (gw_popped g)\<rparr>"
  have g: "gw_sound base ?g" using assms by (simp add: gw_sound_def gw_pool_sound_def gw_tallies_def)
  then have dropped: "gw_sound base (gw_drop ?fd ?g)"
    by (simp add: gw_sound_def gw_drop_def gw_pool_sound_def gw_tallies_def conns_sound_delete is_Wrote_def)
  show ?thesis
  proof (cases "ge_drop env (gw_popped g)")
    case True
    with dropped show ?thesis by (simp add: gw_packet_def Let_def)
  next
    case run: False
    show ?thesis
    proof (cases "map_of (gw_conns g) ?fd")
      case None
      with run g show ?thesis by (simp add: gw_packet_def Let_def)
    next
      case (Some ctx)
      have ctx: "ctx_sound ctx" using assms map_of_SomeD [OF Some] by (auto simp: gw_sound_def conns_sound_def)
      have control: "\<exists>g'. gw_control env ?fd h len ctx ?g = Some g' \<and> gw_sound base g'" for h len by (rule control_sound [OF g ctx])
      have data: "\<exists>g'. (case gw_data env ?fd n sq p len ctx ?g of None \<Rightarrow> None | Some (ctx, g) \<Rightarrow> Some (gw_store ?fd ctx g)) = Some g' \<and> gw_sound base g'"
        for sq p len
      proof -
        obtain ctx' g' where d: "gw_data env ?fd n sq p len ctx ?g = Some (ctx', g')" "gw_pool_sound base g'" "gw_tallies g'"
          "gw_conns g' = gw_conns ?g" "ctx_sound ctx'" using data_sound [OF _ _ ctx] g unfolding gw_sound_def by blast
        have "conns_sound (gw_conns (gw_store ?fd ctx' g'))"
          using g d(4,5) by (simp add: gw_store_def conns_sound_update gw_sound_def)
        with d(1-3) show ?thesis by (simp add: gw_sound_def gw_store_def gw_pool_sound_def gw_tallies_def)
      qed
      show ?thesis
      proof (cases "parse (gw_mem g) pkt")
        case None
        with Some run g show ?thesis by (simp add: gw_packet_def Let_def)
      next
        case hpl: (Some hpl)
        obtain h p len where e: "hpl = (h, p, len)" by (cases hpl)
        show ?thesis using Some run g hpl e control data by (simp add: gw_packet_def Let_def)
      qed
    qed
  qed
qed

interpretation sound: gw_total env "gw_sound base" for env base
proof
  show "gw_sound base (gw_on_accept outcome g)" if "gw_sound base g" for g outcome
  proof (cases outcome)
    case AcceptFailed
    then show ?thesis using that by (simp add: gw_on_accept_def gw_sound_def gw_pool_sound_def gw_tallies_def)
  next
    case (Accepted fd port added)
    have "ctx_sound (gw_new_connection port)" by (simp add: ctx_sound_def gw_new_connection_def reassembly_empty_def)
    then have "conns_sound (if map_of (gw_conns g) fd = None then gw_conns g @ [(fd, gw_new_connection port)] else gw_conns g)"
      using that by (auto simp: gw_sound_def conns_sound_def map_of_eq_None_iff)
    with Accepted that show ?thesis
      by (simp add: gw_on_accept_def gw_sound_def gw_pool_sound_def gw_tallies_def is_Wrote_def Let_def)
  qed
  show "gw_sound base (snd (gw_on_read env fd input (ring, g)))" if "gw_sound base g" for g fd input ring
  proof -
    have "gw_sound base (g\<lparr>gw_mem := m\<rparr>)" "gw_sound base (gw_drop fd (g\<lparr>gw_mem := m, gw_unexpected_disconnects := x\<rparr>))" for m x
      using that by (simp_all add: gw_sound_def gw_drop_def gw_pool_sound_def gw_tallies_def conns_sound_delete is_Wrote_def)
    then show ?thesis by (cases input) (simp_all add: gw_on_read_def Let_def)
  qed
  show "gw_sound base g'" if "gw_sound base g" "gw_packet env n pkt g = Some g'" for g n pkt g'
    using packet_sound [OF that(1), of env n pkt] that(2) by simp
  show "gw_packet env n pkt g \<noteq> None" if "gw_sound base g" for g n pkt
    using packet_sound [OF that, of env n pkt] by auto
qed

lemma gateway_init_sound:
  assumes "mmap 4608 False = Some base" and "0 < base" and "gateway_init mmap t m = Some s"
  shows "gw_sound base (snd s)"
proof -
  have far: "ge_ack (ex_env\<lparr>ge_ack := base + 80\<rparr>) + 24 \<le> base + 36 \<or> base + 80 \<le> ge_ack (ex_env\<lparr>ge_ack := base + 80\<rparr>)" by simp
  obtain g where g: "gateway_init mmap t m = Some (PacketRing 64, g)" "\<exists>free. zp_inv (gw_pool g) ((base + 36) # free) {base}"
    "gw_conns g = []" "gw_handled g = []" "gw_out g = []" "gw_writes g = 0" "gw_req_recv_total g = 0"
    by (rule gateway_init_ready [where mmap = mmap, OF assms(1,2) far])
  with assms(3) show ?thesis by (auto simp: gw_sound_def gw_pool_sound_def gw_tallies_def conns_sound_def)
qed

text \<open>
  \<^bold>\<open>C3\<close>. The gateway never runs out of blocks for its answers and never frees a block it does not hold, and its data stays well formed: whatever is accepted, read, written and
  dropped in its loop from its start, valid frames or not, every block of the pool but the one lost at the start is free again
  when a turn is over and none was freed twice, no descriptor is registered twice, the reassembly buffers are sorted, the
  number of requests is the number of payloads processed, each of them at least one request long, and each was answered by a write.\<close>

theorem gateway_well_formed:
  assumes "mmap 4608 False = Some base" and "0 < base" and "gateway_init mmap t m = Some s"
  shows "\<exists>g. gw_final (gateway_main env listen_fd rounds s) = Some g \<and> gw_sound base g"
proof -
  have s: "gw_sound base (snd s)" by (rule gateway_init_sound [OF assms])
  have "gateway_main env listen_fd rounds s \<noteq> GwUndefined" by (rule sound.main_defined [OF s])
  then obtain g where g: "gw_final (gateway_main env listen_fd rounds s) = Some g"
    by (cases "gateway_main env listen_fd rounds s") (auto simp: gw_final_def)
  from sound.main_keeps [OF s g] g show ?thesis by blast
qed

theorem gateway_well_formed_witness:
  "\<exists>s g. gateway_init ex_mmap 0 (\<lambda>_. 0) = Some s \<and> gw_final (gateway_main ex_env 3 [ex_round] s) = Some g \<and> gw_sound 65536 g \<and> map fst (gw_conns g) = [5]"
proof -
  obtain g0 where g0: "gateway_init ex_mmap 0 (\<lambda>_. 0) = Some (PacketRing 64, g0)" "gw_conns g0 = []" by (rule ex_start)
  have h: "ex_mmap 4608 False = Some 65536" "(0 :: nat) < 65536" by (simp_all add: ex_mmap_def)
  from gateway_well_formed [OF h g0(1), of ex_env 3 "[ex_round]"] obtain g where
    g: "gw_final (gateway_main ex_env 3 [ex_round] (PacketRing 64, g0)) = Some g" "gw_sound 65536 g" by blast
  have "map fst (gw_conns g) = [5]"
    using g(1) ex_round_run [OF g0(2), of ex_env] accept_fresh(1) [OF g0(2)] by (auto simp: gw_final_def)
  with g0(1) g show ?thesis by (intro exI conjI)
qed

section \<open>Two clients in one turn\<close>

text \<open>The locals of the loop and the block of the answer are different objects.\<close>

definition locals_apart :: "gateway_env \<Rightarrow> ptr \<Rightarrow> bool" where
  "locals_apart env b \<longleftrightarrow> (ge_buf env + 2048 \<le> b \<or> b + 44 \<le> ge_buf env) \<and>
     (ge_buf env + 2048 \<le> ge_ack env \<or> ge_ack env + 24 \<le> ge_buf env)"

lemma uint_fd: "0 \<le> fd \<Longrightarrow> fd < 65536 \<Longrightarrow> uint (of_int fd :: u16) = fd"
  by (simp add: unsigned_of_int take_bit_int_eq_self)

lemma gw_packet_next:
  assumes "gw_ready env b g" and "locals_apart env b" and "map_of (gw_conns g) fd = Some ctx" and "segments (cx_reassembly ctx) = []"
    and "recv_seq (cx_tcp ctx) = send_seq c" and "0 \<le> fd" "fd < 65536" and "\<forall>i. \<not> ge_drop env i"
    and "mem_read (gw_mem g) (ge_buf env) 60 = data_frame c payload" and "length payload = 40"
    and "apply_order (OrderRequest_of_bytes payload) (gw_live g) = (accepted, live)"
  obtains g' ctx' tcp where "gw_packet env n (gw_request_packet env fd 60) g = Some g'" "gw_ready env b g'"
    "gw_conns g' = AList.update fd ctx' (gw_conns g)" "gw_handled g' = gw_handled g @ [(fd, payload)]" "gw_live g' = live"
    "mem_read (gw_mem g') (ge_buf env) 60 = data_frame c payload"
    "gw_out g' = gw_out g @ [Wrote fd (ack_frame env tcp (order_ack (OrderRequest_of_bytes payload) accepted))]"
proof -
  let ?g = "g\<lparr>gw_popped := Suc (gw_popped g)\<rparr>" and ?tcp = "(cx_tcp ctx)\<lparr>recv_seq := recv_seq (cx_tcp ctx) + of_nat (length payload)\<rparr>"
  have fr: "mem_read (gw_mem g) (ge_buf env) (20 + length payload) = data_frame c payload" "length payload \<le> 2028" using assms(9,10) by simp_all
  obtain h where h: "parse (gw_mem g) (mk_Packet (ge_buf env) (of_nat (20 + length payload)) 0) = Some (h, ge_buf env + 20, of_nat (length payload))"
    "th_seq_num h = send_seq c" "\<not> is_malformed_header h" "mem_read (gw_mem g) (ge_buf env + 20) (length payload) = payload"
    by (rule parse_data_frame [OF fr])
  have g: "gw_ready env b ?g" "apply_order (OrderRequest_of_bytes payload) (gw_live ?g) = (accepted, live)" "40 \<le> length payload"
    using assms(1,10,11) by (simp_all add: gw_ready_def)
  obtain g' where p: "process_order_payload env fd n payload ctx ?g = Some (ctx\<lparr>cx_tcp := ?tcp\<rparr>, g')"
    "gw_ready env b g'" "gw_live g' = live" "gw_handled g' = gw_handled ?g @ [(fd, payload)]" "gw_conns g' = gw_conns ?g"
    "gw_out g' = gw_out ?g @ [Wrote fd (ack_frame env ?tcp (order_ack (OrderRequest_of_bytes payload) accepted))]"
    "\<forall>q k. (q + k \<le> b \<or> b + 44 \<le> q) \<and> (q + k \<le> ge_ack env \<or> ge_ack env + 24 \<le> q) \<longrightarrow> mem_read (gw_mem g') q k = mem_read (gw_mem ?g) q k"
    by (rule process_ok [OF g(1,3,2) refl])
  have mem: "mem_read (gw_mem g') (ge_buf env) 60 = data_frame c payload"
    using p(7) assms(2,9) by (auto simp: locals_apart_def)
  have pop: "pop_contiguous sq (cx_reassembly ctx) = (0, [], cx_reassembly ctx)" for sq
    using assms(4) by (simp add: pop_absent)
  have "gw_data env fd n (send_seq c) (ge_buf env + 20) 40 ctx ?g = Some (ctx\<lparr>cx_tcp := ?tcp\<rparr>, g')"
    using p(1) h(4) assms(5,10) pop by (simp add: gw_data_def)
  then have run: "gw_packet env n (gw_request_packet env fd 60) g = Some (gw_store fd (ctx\<lparr>cx_tcp := ?tcp\<rparr>) g')"
    using h(1-3) assms(3,8,10) uint_fd [OF assms(6,7)] by (simp add: gw_packet_def gw_request_packet_def Let_def)
  show ?thesis by (rule that [OF run]) (use p mem in \<open>simp_all add: gw_store_def gw_ready_def\<close>)
qed

text \<open>
  \<^bold>\<open>C39\<close>. Two clients that become readable in the same turn of the loop corrupt each other: the packets in the ring all point to the one
  local buffer, so when the first requests of two clients are read in one turn, the request of the first client is lost and that
  of the second is processed twice, once for each connection; both are acknowledged with the identifier of the second.\<close>

theorem gateway_shared_buffer:
  assumes "mmap 4608 False = Some base" and "0 < base" and "ge_ack env + 24 \<le> base + 36 \<or> base + 80 \<le> ge_ack env"
    and "gateway_init mmap t m = Some (ring, g)" and "locals_apart env (base + 36)" and "\<forall>i. \<not> ge_drop env i"
    and "fd1 \<noteq> fd2" and "{fd1, fd2} \<subseteq> {0..<65536}" and "map (\<lambda>ev. sint (data_fd (ev_data ev))) evs = [fd1, fd2]"
    and "listen_fd \<notin> (\<lambda>ev. data_fd (ev_data ev)) ` set evs"
    and "rd 0 = ReadBytes (data_frame c1 (OrderRequest_bytes pad r1))" and "rd 1 = ReadBytes (data_frame c2 (OrderRequest_bytes pad r2))"
    and "send_seq c1 = 1" and "send_seq c2 = 1"
    and "gw_events env listen_fd acc rd 0 evs (ring, gw_accepts port [fd1, fd2] g) = (ring1, g1)"
  shows "\<exists>ring' g' a1 a2. gw_drain env ring1 g1 = Some (ring', g') \<and>
    gw_handled g' = [(fd1, OrderRequest_bytes pad r2), (fd2, OrderRequest_bytes pad r2)] \<and> gw_out g' = [Wrote fd1 a1, Wrote fd2 a2] \<and>
    map oa_client_order_id (acks_in [a1, a2]) = [or_client_order_id r2, or_client_order_id r2]"
proof -
  obtain g0 where g0: "gateway_init mmap t m = Some (PacketRing 64, g0)" "gw_ready env (base + 36) g0" "gw_conns g0 = []"
    "gw_handled g0 = []" "gw_out g0 = []" by (rule gateway_init_ready [where mmap = mmap, OF assms(1-3)])
  have eq: "ring = PacketRing 64" "g = g0" using assms(4) g0(1) by auto
  let ?g = "gw_accepts port [fd1, fd2] g" and ?f1 = "data_frame c1 (OrderRequest_bytes pad r1)" and ?f2 = "data_frame c2 (OrderRequest_bytes pad r2)"
  have "map_of (gw_conns g) = (\<lambda>_. None)" using g0(3) eq by simp
  note acc = gw_accepts_spec [OF this, of port "[fd1, fd2]"]
  have out: "gw_out ?g = []" using g0(5) eq by (simp add: gw_accepts_def gw_on_accept_def Let_def)
  have ready: "gw_ready env (base + 36) ?g" using g0(2) eq acc(1) by (simp add: gw_ready_def)
  have ring: "ring_inv (Suc (Suc 0)) ring" "ring_contents ring = []" using PacketRing_inv [of 64 "Suc (Suc 0)"] eq by simp_all
  have cap: "unat (ring_capacity ring) = 64" unfolding eq by code_simp
  have ne: "?f1 \<noteq> []" "?f2 \<noteq> []" using length_data_frame by (metis add_is_0 list.size(3) zero_neq_numeral)+
  obtain ringA mA where a: "gw_on_read env fd1 (ReadBytes ?f1) (ring, ?g) = (ringA, ?g\<lparr>gw_mem := mA\<rparr>)"
    "ring_contents ringA = ring_contents ring @ [gw_request_packet env fd1 (length ?f1)]" "ring_inv (Suc 0) ringA" "ring_capacity ringA = ring_capacity ring"
    by (rule gw_read_pushes [where env = env and fd = fd1 and g = ?g, OF ring(1) _ ne(1)]) (simp_all add: cap ring(2))
  obtain ringB mB where b: "gw_on_read env fd2 (ReadBytes ?f2) (ringA, ?g\<lparr>gw_mem := mA\<rparr>) = (ringB, ?g\<lparr>gw_mem := mA\<rparr>\<lparr>gw_mem := mB\<rparr>)"
    "ring_contents ringB = ring_contents ringA @ [gw_request_packet env fd2 (length ?f2)]" "ring_inv 0 ringB"
    "mem_read mB (ge_buf env) (length ?f2) = ?f2"
    by (rule gw_read_pushes [where env = env and fd = fd2 and g = "?g\<lparr>gw_mem := mA\<rparr>", OF a(3) _ ne(2)]) (simp_all add: cap ring(2) a(2,4))
  have ev: "ring1 = ringB" "g1 = ?g\<lparr>gw_mem := mB\<rparr>" using assms(9-12,15) a(1) b(1) by (auto simp: Let_def)
  let ?p = "OrderRequest_bytes pad r2"
  have two: "ring_contents ringB = [gw_request_packet env fd1 60, gw_request_packet env fd2 60]" using a(2) b(2) ring(2) by simp
  obtain ringC where c: "\<forall>g. gw_drain env ringB g = (case gw_packet env (ring_size ringC) (gw_request_packet env fd1 60) g of None \<Rightarrow> None | Some g \<Rightarrow> gw_drain env ringC g)"
    "ring_inv 0 ringC" "ring_contents ringC = [gw_request_packet env fd2 60]"
    by (rule gw_drain_next [where env = env, OF b(3) two])
  obtain ringD where d: "\<forall>g. gw_drain env ringC g = (case gw_packet env (ring_size ringD) (gw_request_packet env fd2 60) g of None \<Rightarrow> None | Some g \<Rightarrow> gw_drain env ringD g)"
    "ring_inv 0 ringD" "ring_contents ringD = []"
    by (rule gw_drain_next [where env = env, OF c(2,3)])
  have new: "segments (cx_reassembly (gw_new_connection x)) = []" "recv_seq (cx_tcp (gw_new_connection x)) = send_seq c2" for x
    using assms(14) by (simp_all add: gw_new_connection_def reassembly_empty_def)
  have fds: "0 \<le> fd1" "fd1 < 65536" "0 \<le> fd2" "fd2 < 65536" using assms(8) by auto
  have g1: "gw_ready env (base + 36) g1" "map_of (gw_conns g1) fd1 = Some (gw_new_connection (port fd1))"
    "mem_read (gw_mem g1) (ge_buf env) 60 = data_frame c2 ?p" using ready ev acc(3) b(4) by (simp_all add: gw_ready_def)
  obtain ok live where o1: "apply_order (OrderRequest_of_bytes ?p) (gw_live g1) = (ok, live)" by fastforce
  obtain g2 ctx tcp where g2: "gw_packet env (ring_size ringC) (gw_request_packet env fd1 60) g1 = Some g2" "gw_ready env (base + 36) g2"
    "gw_conns g2 = AList.update fd1 ctx (gw_conns g1)" "gw_handled g2 = gw_handled g1 @ [(fd1, ?p)]"
    "mem_read (gw_mem g2) (ge_buf env) 60 = data_frame c2 ?p" "gw_out g2 = gw_out g1 @ [Wrote fd1 (ack_frame env tcp (order_ack (OrderRequest_of_bytes ?p) ok))]"
    by (rule gw_packet_next [OF g1(1) assms(5) g1(2) new fds(1,2) assms(6) g1(3) _ o1]) simp_all
  have at2: "map_of (gw_conns g2) fd2 = Some (gw_new_connection (port fd2))" using g2(3) assms(7) ev(2) acc(3) by (simp add: update_conv')
  obtain ok' live' where o2: "apply_order (OrderRequest_of_bytes ?p) (gw_live g2) = (ok', live')" by fastforce
  obtain g3 ctx' tcp' where g3: "gw_packet env (ring_size ringD) (gw_request_packet env fd2 60) g2 = Some g3"
    "gw_handled g3 = gw_handled g2 @ [(fd2, ?p)]" "gw_out g3 = gw_out g2 @ [Wrote fd2 (ack_frame env tcp' (order_ack (OrderRequest_of_bytes ?p) ok'))]"
    by (rule gw_packet_next [OF g2(2) assms(5) at2 new fds(3,4) assms(6) g2(5) _ o2]) simp_all
  have "gw_drain env ring1 g1 = Some (ringD, g3)" using c(1) d(1) g2(1) g3(1) gw_drain_empty [OF d(2,3)] ev(1) by simp
  moreover have "gw_handled g3 = [(fd1, ?p), (fd2, ?p)]" using g2(4) g3(2) ev(2) acc(2) g0(4) eq by simp
  moreover have "gw_out g3 = [Wrote fd1 (ack_frame env tcp (order_ack (OrderRequest_of_bytes ?p) ok)), Wrote fd2 (ack_frame env tcp' (order_ack (OrderRequest_of_bytes ?p) ok'))]"
    using g2(6) g3(3) out ev(2) by simp
  ultimately show ?thesis by (intro exI conjI) (assumption+, simp add: acks_in_def ack_frame_payload order_ack_def)
qed

theorem gateway_shared_buffer_witness:
  "\<exists>ring g ring1 g1 ring' g'. gateway_init ex_mmap 0 (\<lambda>_. 0) = Some (ring, g) \<and>
    gw_events ex_env 3 (\<lambda>_. AcceptFailed) (\<lambda>i. ReadBytes (data_frame (TcpConnection_default\<lparr>send_seq := 1\<rparr>) (OrderRequest_bytes 0 (ex_request New (7 + of_nat i) 0))))
      0 [\<lparr>ev_events = 1, ev_data = 5\<rparr>, \<lparr>ev_events = 1, ev_data = 6\<rparr>] (ring, gw_accepts (\<lambda>_. 0) [5, 6] g) = (ring1, g1) \<and>
    gw_drain ex_env ring1 g1 = Some (ring', g') \<and>
    gw_handled g' = [(5, OrderRequest_bytes 0 (ex_request New 8 0)), (6, OrderRequest_bytes 0 (ex_request New 8 0))]"
proof -
  let ?c = "TcpConnection_default\<lparr>send_seq := 1\<rparr>" and ?evs = "[\<lparr>ev_events = 1, ev_data = 5\<rparr>, \<lparr>ev_events = 1, ev_data = 6\<rparr>]"
  let ?rd = "\<lambda>i. ReadBytes (data_frame ?c (OrderRequest_bytes 0 (ex_request New (7 + of_nat i) 0)))"
  obtain g where g: "gateway_init ex_mmap 0 (\<lambda>_. 0) = Some (PacketRing 64, g)" by (rule ex_start)
  obtain ring1 g1 where e: "gw_events ex_env 3 (\<lambda>_. AcceptFailed) ?rd 0 ?evs (PacketRing 64, gw_accepts (\<lambda>_. 0) [5, 6] g) = (ring1, g1)" by fastforce
  have h: "ex_mmap 4608 False = Some 65536" "(0 :: nat) < 65536" "ge_ack ex_env + 24 \<le> 65536 + 36 \<or> 65536 + 80 \<le> ge_ack ex_env"
    "locals_apart ex_env (65536 + 36)" "\<forall>i. \<not> ge_drop ex_env i" "(5 :: int) \<noteq> 6" "{5, 6} \<subseteq> {0..<65536 :: int}"
    "?rd 0 = ReadBytes (data_frame ?c (OrderRequest_bytes 0 (ex_request New 7 0)))" "?rd 1 = ReadBytes (data_frame ?c (OrderRequest_bytes 0 (ex_request New 8 0)))"
    "send_seq ?c = 1"
    by (simp_all add: ex_mmap_def ex_env_def locals_apart_def)
  have fds: "data_fd 5 = 5" "data_fd 6 = 6" by code_simp+
  have evs: "map (\<lambda>ev. sint (data_fd (ev_data ev))) ?evs = [5, 6]" "3 \<notin> (\<lambda>ev. data_fd (ev_data ev)) ` set ?evs" by (simp_all add: fds)
  from gateway_shared_buffer [OF h(1-3) g h(4-7) evs h(8-10,10) e] obtain ring' g' a1 a2 where
    "gw_drain ex_env ring1 g1 = Some (ring', g')"
    "gw_handled g' = [(5, OrderRequest_bytes 0 (ex_request New 8 0)), (6, OrderRequest_bytes 0 (ex_request New 8 0))]" by (elim exE conjE)
  with g e show ?thesis by (intro exI conjI)
qed

end
