(* ===== verification/Gateway_Setup.thy ===== *)
theory Gateway_Setup
  imports Gateway_Loop Tcp_Socket App_Options
begin

text \<open>
  The start and the end of \<^verbatim>\<open>main\<close> in \<^verbatim>\<open>apps/order_tcp/order_gateway.cpp\<close> around the loop of \<^verbatim>\<open>Order_Gateway\<close>: the listening socket, the
  epoll instance, and how the options steer the loop.
\<close>

definition create_listen_socket :: "server_answers \<Rightarrow> int \<times> sys_event list" where
  "create_listen_socket k = tcp_create_server 9000 128 True k"

text \<open>
  \<open>epoll_fd\<close> is the result of \<^verbatim>\<open>epoll_create1\<close>, \<open>added\<close> whether \<^verbatim>\<open>epoll_ctl\<close> succeeded. A failure ends \<^verbatim>\<open>main\<close>: the listening socket is
  closed by hand, the epoll descriptor by the destructor of \<^verbatim>\<open>EpollWrapper\<close>.
\<close>

definition epoll_destroy :: "int \<Rightarrow> sys_event list" where
  "epoll_destroy epoll_fd = (if epoll_fd \<ge> 0 then [SysClose epoll_fd] else [])"

definition gateway_setup :: "server_answers \<Rightarrow> int \<Rightarrow> bool \<Rightarrow> (int \<times> int) option \<times> sys_event list" where
  "gateway_setup k epoll_fd added =
     (let (listen_fd, es) = create_listen_socket k
      in if listen_fd < 0 then (None, es)
         else
           let es = es @ [SysEpollCreate epoll_fd]
           in if epoll_fd < 0 then (None, es @ [SysClose listen_fd] @ epoll_destroy epoll_fd)
              else if \<not> added then (None, es @ [SysClose listen_fd] @ epoll_destroy epoll_fd)
              else (Some (listen_fd, epoll_fd), es))"

text \<open>After the loop.\<close>

definition gateway_shutdown :: "int \<Rightarrow> int \<Rightarrow> sys_event list" where
  "gateway_shutdown listen_fd epoll_fd = SysClose listen_fd # epoll_destroy epoll_fd"

text \<open>
  What the options mean for the loop: from \<open>server_drop_at_s\<close> seconds after the start every packet makes the gateway drop its
  connection; \<open>clock\<close> is the time in nanoseconds at the \<open>i\<close>-th packet.
\<close>

definition gateway_configure :: "gateway_options \<Rightarrow> int \<Rightarrow> (nat \<Rightarrow> int) \<Rightarrow> gateway_env \<Rightarrow> gateway_env" where
  "gateway_configure o1 start_time clock env =
     env\<lparr>ge_drop := (\<lambda>i. go_server_drop_at_s o1 > 0 \<and> clock i - start_time \<ge> go_server_drop_at_s o1 * 1000000000),
         ge_backpressure := go_backpressure_threshold o1\<rparr>"

lemma default_never_drops: "go_server_drop_at_s o1 = 0 \<Longrightarrow> \<not> ge_drop (gateway_configure o1 start_time clock env) i"
  by (simp add: gateway_configure_def)

text \<open>With a monotonic clock, dropping once means dropping ever after.\<close>

lemma drops_forever:
  "mono clock \<Longrightarrow> ge_drop (gateway_configure o1 start_time clock env) i \<Longrightarrow> i \<le> j \<Longrightarrow> ge_drop (gateway_configure o1 start_time clock env) j"
  by (auto simp: gateway_configure_def dest: monoD [of clock i j])

text \<open>
  \<^bold>\<open>C36\<close>. The gateway's start is all or nothing: when it fails at any step, no descriptor is left open and none was closed that was
  not open; when it succeeds, exactly the listening socket and the epoll instance are open, listening on port 9000, and the
  end of \<^verbatim>\<open>main\<close> closes both.\<close>

theorem gateway_setup_clean:
  assumes "gateway_setup k epoll_fd added = (r, es)" and "0 \<le> epoll_fd \<longrightarrow> epoll_fd \<noteq> sv_socket k"
  shows "clean es \<and>
    (case r of
       None \<Rightarrow> open_fds es = {}
     | Some (lfd, efd) \<Rightarrow> open_fds es = {lfd, efd} \<and> lfd \<noteq> efd \<and> SysBind lfd (htonl 0) (htons 9000) \<in> set es \<and> SysListen lfd 128 \<in> set es \<and>
         clean (es @ gateway_shutdown lfd efd) \<and> open_fds (es @ gateway_shutdown lfd efd) = {}) \<and>
    (r = None \<longleftrightarrow> sv_socket k < 0 \<or> sv_bind k < 0 \<or> sv_listen k < 0 \<or> epoll_fd < 0 \<or> \<not> added)"
  using assms
  by (auto simp: gateway_setup_def create_listen_socket_def tcp_create_server_def epoll_destroy_def gateway_shutdown_def clean_def open_fds_def Let_def
      split: if_splits)

theorem gateway_setup_clean_witness:
  "\<exists>es. gateway_setup \<lparr>sv_socket = 3, sv_bind = 0, sv_listen = 0\<rparr> 4 True = (Some (3, 4), es) \<and> open_fds es = {3, 4} \<and>
    open_fds (es @ gateway_shutdown 3 4) = {}"
proof -
  let ?k = "\<lparr>sv_socket = 3, sv_bind = 0, sv_listen = 0\<rparr>"
  obtain r es where g: "gateway_setup ?k 4 True = (r, es)" by fastforce
  then have "r = Some (3, 4)" by (auto simp: gateway_setup_def create_listen_socket_def tcp_create_server_def Let_def)
  with gateway_setup_clean [OF g] g show ?thesis by simp
qed

end
