(* ===== verification/Order_Client.thy ===== *)
theory Order_Client
  imports App_Messages Memory_Pool Tcp_Socket Tcp_State_Machine Tcp_Retransmission Tcp_Congestion "HOL-Library.AList"
begin

text \<open>
  The order client \<^verbatim>\<open>apps/order_tcp/order_client.cpp\<close>: it sends order requests in bursts, waits for the acknowledgement of
  each, retransmits what is overdue, keeps the congestion window and a shadow of the order book, and reconnects when asked to.

  The results of system calls, the clock (nanoseconds), the random numbers and the arrival of a signal are arguments: the
  \<open>i\<close>-th call gets the \<open>i\<close>-th answer. The addresses of the locals \<^verbatim>\<open>req\<close> and \<^verbatim>\<open>ack_buf\<close> are arguments too. The first element of
  an unordered map is whichever \<open>ce_pick\<close> chooses. Printed text and metrics, and
  clock readings that are only printed, are left out.
\<close>

section \<open>State\<close>

datatype ClientState = CONNECTING | ACTIVE | RETRYING | STOPPED

record client_env =
  ce_req :: ptr
  ce_ackbuf :: ptr
  ce_pad :: u16
  ce_clock :: "nat \<Rightarrow> int"
  ce_write :: "nat \<Rightarrow> int + int"
  ce_read :: "nat \<Rightarrow> u8 list + int"
  ce_connect :: "nat \<Rightarrow> connect_answers"
  ce_signal :: "nat \<Rightarrow> bool"
  ce_pct :: "nat \<Rightarrow> int"
  ce_pick :: "nat \<Rightarrow> nat"
  ce_pton :: "string \<Rightarrow> u32 option"
  ce_gateway_ip :: string
  ce_timeout_ms :: int
  ce_disconnect_interval_s :: int
  ce_cancel_ratio :: int
  ce_replace_ratio :: int
  ce_burst :: nat

record order_client =
  oc_state :: ClientState
  oc_fd :: int
  oc_pool :: memory_pool
  oc_mem :: mem
  oc_conn :: TcpConnection
  oc_tracer :: Tracer
  oc_order_id :: u64
  oc_req_sent_total :: u64
  oc_ack_recv_total :: u64
  oc_ack_timeout_total :: u64
  oc_reconnect_total :: u64
  oc_send_blocked_total :: u64
  oc_retransmit_total :: u64
  oc_retransmit_failed_total :: u64
  oc_retransmit_drop_total :: u64
  oc_new_total :: u64
  oc_cancel_total :: u64
  oc_replace_total :: u64
  oc_keepalive_sent_total :: u64
  oc_cwnd_blocked_total :: u64
  oc_congestion_loss_total :: u64
  oc_rtt_us_samples :: "u64 list"
  oc_rtt_new :: "u64 list"
  oc_rtt_cancel :: "u64 list"
  oc_rtt_replace :: "u64 list"
  oc_shadow :: "(u64 \<times> OrderRequest) list"
  oc_retrans_q :: retransmission_queue
  oc_rto_estimator :: TcpRtoEstimator
  oc_cc :: TcpCongestionController
  oc_outstanding :: "(u32 \<times> u8 list) list"
  oc_last_activity :: int
  oc_last_disconnect :: int
  oc_running :: bool
  oc_trace :: "sys_event list"
  oc_clocks :: nat
  oc_writes :: nat
  oc_reads :: nat
  oc_connects :: nat
  oc_loads :: nat
  oc_draws :: nat

section \<open>Calls\<close>

definition oc_now :: "client_env \<Rightarrow> order_client \<Rightarrow> int \<times> order_client" where
  "oc_now env c = (ce_clock env (oc_clocks c), c\<lparr>oc_clocks := Suc (oc_clocks c)\<rparr>)"

definition to_ms :: "int \<Rightarrow> u64" where
  "to_ms ns = of_int (ns div 1000000)"

text \<open>\<^verbatim>\<open>g_running.load()\<close>: false once the program or a signal has set it.\<close>

definition oc_load :: "client_env \<Rightarrow> order_client \<Rightarrow> bool \<times> order_client" where
  "oc_load env c =
     (let running = oc_running c \<and> \<not> ce_signal env (oc_loads c)
      in (running, c\<lparr>oc_running := running, oc_loads := Suc (oc_loads c)\<rparr>))"

text \<open>The value that \<^verbatim>\<open>write_to\<close> returns: -1 for an error.\<close>

definition oc_write :: "client_env \<Rightarrow> u8 list \<Rightarrow> order_client \<Rightarrow> int \<times> order_client" where
  "oc_write env bs c =
     (let (r, es) = tcp_write_to (oc_fd c) bs (ce_write env (oc_writes c))
      in (case r of Inl n \<Rightarrow> n | Inr _ \<Rightarrow> -1, c\<lparr>oc_trace := oc_trace c @ es, oc_writes := Suc (oc_writes c)\<rparr>))"

definition oc_read :: "client_env \<Rightarrow> order_client \<Rightarrow> (u8 list + int) \<times> order_client" where
  "oc_read env c =
     (let (r, es) = tcp_read_from (oc_fd c) 256 (ce_read env (oc_reads c))
      in (r, c\<lparr>oc_trace := oc_trace c @ es, oc_reads := Suc (oc_reads c)\<rparr>))"

definition connect_to_gateway :: "client_env \<Rightarrow> order_client \<Rightarrow> order_client" where
  "connect_to_gateway env c =
     (let (fd, es) = tcp_connect_to (ce_pton env) (ce_gateway_ip env) 9000 (ce_timeout_ms env) (ce_connect env (oc_connects c))
      in c\<lparr>oc_fd := if fd < 0 then -1 else fd, oc_trace := oc_trace c @ es, oc_connects := Suc (oc_connects c)\<rparr>)"

text \<open>Taking a block, building a frame in it, writing it and giving the block back; also the bytes written.\<close>

definition oc_send :: "client_env \<Rightarrow> (ptr \<Rightarrow> mem \<Rightarrow> Packet \<times> mem) \<Rightarrow> order_client \<Rightarrow> (bool \<times> u8 list \<times> order_client) option" where
  "oc_send env build c =
     (case mp_allocate (oc_pool c) of
        None \<Rightarrow> None
      | Some (block, pool) \<Rightarrow>
          if block = nullptr then None
          else
            let (pkt, m) = build block (oc_mem c); bs = pkt_bytes m pkt;
                (n, c) = oc_write env bs (c\<lparr>oc_mem := m\<rparr>)
            in case mp_deallocate (pkt_data pkt) pool of
                 None \<Rightarrow> None
               | Some pool \<Rightarrow> Some (n = int (unat (pkt_len pkt)), bs, c\<lparr>oc_pool := pool\<rparr>))"

section \<open>Reconnecting and keepalive\<close>

text \<open>The result says whether the turn goes on.\<close>

definition client_disconnect :: "client_env \<Rightarrow> order_client \<Rightarrow> bool \<times> order_client" where
  "client_disconnect env c =
     (if ce_disconnect_interval_s env > 0 then
        let (now, c) = oc_now env c
        in if now - oc_last_disconnect c \<ge> ce_disconnect_interval_s env * 1000000000 then
             let c = c\<lparr>oc_trace := oc_trace c @ [SysClose (oc_fd c)], oc_state := RETRYING\<rparr>;
                 c = connect_to_gateway env c
             in if oc_fd c < 0 then (False, c)
                else
                  let c = c\<lparr>oc_reconnect_total := oc_reconnect_total c + 1, oc_cc := mk_congestion 1200, oc_state := ACTIVE\<rparr>;
                      (now, c) = oc_now env c
                  in (True, c\<lparr>oc_last_disconnect := now\<rparr>)
           else (True, c)
      else (True, c))"

definition client_keepalive :: "client_env \<Rightarrow> order_client \<Rightarrow> order_client option" where
  "client_keepalive env c =
     (let (now, c) = oc_now env c
      in if should_send_keepalive (to_ms now) (to_ms (oc_last_activity c)) 1000 then
           case oc_send env (create_keepalive (oc_conn c)) c of
             None \<Rightarrow> None
           | Some (ok, _, c) \<Rightarrow>
               if ok then
                 let c = c\<lparr>oc_keepalive_sent_total := oc_keepalive_sent_total c + 1\<rparr>; (now, c) = oc_now env c
                 in Some (c\<lparr>oc_last_activity := now\<rparr>)
               else Some c
         else Some c)"

section \<open>Sending a request\<close>

definition client_target :: "client_env \<Rightarrow> order_client \<Rightarrow> u64" where
  "client_target env c = fst (oc_shadow c ! (ce_pick env (oc_draws c) mod length (oc_shadow c)))"

definition client_request :: "client_env \<Rightarrow> order_client \<Rightarrow> OrderRequest \<times> order_client" where
  "client_request env c =
     (let order_id = oc_order_id c + 1;
          req = \<lparr>or_client_order_id = oc_order_id c, or_target_order_id = 0, or_instrument_id = 10001, or_action = OrderAction_code New,
                 or_side = Side_code (if order_id mod 2 = 0 then Buy else Sell), or_price = 100000 + ucast (order_id mod 100),
                 or_quantity = 1, or_send_ts_ns = 0\<rparr>;
          p = ce_pct env (oc_draws c); target = client_target env c;
          req = (if p \<le> ce_cancel_ratio env \<and> oc_shadow c \<noteq> [] then req\<lparr>or_action := OrderAction_code Cancel, or_target_order_id := target\<rparr>
                 else if p \<le> ce_cancel_ratio env + ce_replace_ratio env \<and> oc_shadow c \<noteq> []
                 then req\<lparr>or_action := OrderAction_code Replace, or_target_order_id := target, or_price := or_price req + 1\<rparr>
                 else req);
          c = c\<lparr>oc_order_id := order_id, oc_draws := Suc (oc_draws c)\<rparr>;
          (now, c) = oc_now env c
      in (req\<lparr>or_send_ts_ns := of_int now\<rparr>, c))"

text \<open>What is remembered of a segment that was written.\<close>

definition client_record :: "client_env \<Rightarrow> u32 \<Rightarrow> u8 list \<Rightarrow> order_client \<Rightarrow> int \<times> order_client" where
  "client_record env seg_seq wire_copy c =
     (let c = c\<lparr>oc_req_sent_total := oc_req_sent_total c + 1, oc_tracer := snd (should_emit (oc_tracer c))\<rparr>;
          (now, c) = oc_now env c; c = c\<lparr>oc_last_activity := now\<rparr>;
          (now, c) = oc_now env c;
          c = c\<lparr>oc_retrans_q := track_segment seg_seq 40 (to_ms now) (rto_ms (oc_rto_estimator c)) (oc_retrans_q c),
                oc_outstanding := AList.update seg_seq wire_copy (oc_outstanding c),
                oc_conn := (oc_conn c)\<lparr>send_seq := send_seq (oc_conn c) + 40\<rparr>\<rparr>
      in oc_now env c)"

text \<open>\<open>SendDone\<close> carries the reading \<^verbatim>\<open>send_ts\<close>.\<close>

datatype send_outcome = SendBlocked order_client | SendFailed order_client | SendDone int order_client

definition client_send :: "client_env \<Rightarrow> OrderRequest \<Rightarrow> order_client \<Rightarrow> send_outcome option" where
  "client_send env req c =
     (let inflight_bytes = of_nat (length (oc_outstanding c)) * 40
      in if \<not> can_send (oc_conn c) 40 then Some (SendBlocked (c\<lparr>oc_send_blocked_total := oc_send_blocked_total c + 1\<rparr>))
         else if \<not> cc_can_send (oc_cc c) inflight_bytes 40 (peer_window (oc_conn c))
         then Some (SendBlocked (c\<lparr>oc_cwnd_blocked_total := oc_cwnd_blocked_total c + 1\<rparr>))
         else
           let seg_seq = send_seq (oc_conn c)
           in case oc_send env (\<lambda>block m. create_data (oc_conn c) (ce_req env) 40 block
                    (mem_write m (ce_req env) (OrderRequest_bytes (ce_pad env) req))) c of
                None \<Rightarrow> None
              | Some (ok, wire_copy, c) \<Rightarrow>
                  if \<not> ok then Some (SendFailed (c\<lparr>oc_running := False\<rparr>))
                  else let (send_ts, c) = client_record env seg_seq wire_copy c in Some (SendDone send_ts c))"

section \<open>Waiting for the acknowledgement\<close>

definition client_resend :: "client_env \<Rightarrow> TcpRetransmissionEntry \<Rightarrow> order_client \<Rightarrow> order_client" where
  "client_resend env entry c =
     (case map_of (oc_outstanding c) (re_seq_start entry) of
        None \<Rightarrow> c
      | Some seg \<Rightarrow>
          let (n, c) = oc_write env seg c
          in if n = int (length seg) then c\<lparr>oc_retransmit_total := oc_retransmit_total c + 1\<rparr>
             else c\<lparr>oc_retransmit_failed_total := oc_retransmit_failed_total c + 1\<rparr>)"

text \<open>What happens when \<^verbatim>\<open>read\<close> timed out: overdue segments are sent again, abandoned ones forgotten.\<close>

definition client_sweep :: "order_client \<Rightarrow> order_client" where
  "client_sweep c =
     (let kept = filter (\<lambda>(sq, _). queue_contains sq (oc_retrans_q c)) (oc_outstanding c)
      in c\<lparr>oc_retransmit_drop_total := oc_retransmit_drop_total c + of_nat (length (oc_outstanding c) - length kept),
           oc_outstanding := kept\<rparr>)"

definition client_tick :: "client_env \<Rightarrow> order_client \<Rightarrow> order_client" where
  "client_tick env c =
     (let (now, c) = oc_now env c;
          (due, q) = collect_due (to_ms now) (rto_ms (oc_rto_estimator c)) 5 (oc_retrans_q c);
          c = client_sweep (c\<lparr>oc_retrans_q := q\<rparr>)
      in if due = [] then c
         else fold (client_resend env) due
                (c\<lparr>oc_cc := cc_on_loss (oc_cc c), oc_congestion_loss_total := oc_congestion_loss_total c + 1\<rparr>))"

text \<open>\<open>None\<close> as a value is \<^verbatim>\<open>nread <= 0\<close>. The loop may wait for ever.\<close>

partial_function (option) client_wait :: "client_env \<Rightarrow> order_client \<Rightarrow> (u8 list option \<times> order_client) option" where
  "client_wait env c =
     (let (running, c) = oc_load env c
      in if \<not> running then Some (None, c)
         else
           let (r, c) = oc_read env c
           in case r of
                Inl bs \<Rightarrow> if bs \<noteq> [] then Some (Some bs, c) else Some (None, c\<lparr>oc_running := False\<rparr>)
              | Inr errno \<Rightarrow>
                  if errno \<noteq> 11 \<and> errno \<noteq> 4
                  then Some (None, c\<lparr>oc_ack_timeout_total := oc_ack_timeout_total c + 1, oc_running := False\<rparr>)
                  else client_wait env (client_tick env c))"

section \<open>The acknowledgement\<close>

definition client_acked :: "u32 \<Rightarrow> u16 \<Rightarrow> order_client \<Rightarrow> order_client option" where
  "client_acked ack_num window c =
     (let c = c\<lparr>oc_conn := (on_window_update (oc_conn c) window)\<lparr>recv_ack := ack_num\<rparr>\<rparr>;
          (acked_segments, q) = ack_up_to ack_num (oc_retrans_q c)
      in case cc_on_ack (acked_segments * 40) (oc_cc c) of
           None \<Rightarrow> None
         | Some cc \<Rightarrow> Some (c\<lparr>oc_retrans_q := q, oc_cc := cc,
             oc_outstanding := filter (\<lambda>(sq, _). \<not> sq + 40 \<le> ack_num) (oc_outstanding c)\<rparr>))"

definition client_book :: "OrderRequest \<Rightarrow> int \<Rightarrow> order_client \<Rightarrow> order_client" where
  "client_book req rtt_us c =
     (if or_action req = OrderAction_code New then
        c\<lparr>oc_new_total := oc_new_total c + 1, oc_rtt_new := oc_rtt_new c @ [of_int rtt_us],
          oc_shadow := AList.update (or_client_order_id req) req (oc_shadow c)\<rparr>
      else if or_action req = OrderAction_code Cancel then
        c\<lparr>oc_cancel_total := oc_cancel_total c + 1, oc_rtt_cancel := oc_rtt_cancel c @ [of_int rtt_us],
          oc_shadow := AList.delete (or_target_order_id req) (oc_shadow c)\<rparr>
      else
        let c = c\<lparr>oc_replace_total := oc_replace_total c + 1, oc_rtt_replace := oc_rtt_replace c @ [of_int rtt_us]\<rparr>
        in case map_of (oc_shadow c) (or_target_order_id req) of
             None \<Rightarrow> c
           | Some r \<Rightarrow> c\<lparr>oc_shadow := AList.update (or_target_order_id req) (r\<lparr>or_price := or_price req\<rparr>) (oc_shadow c)\<rparr>)"

text \<open>
  An acknowledgement that arrived as \<open>bs\<close>; the result says whether the burst goes on. The order identifier in it is compared
  and a mismatch printed only.
\<close>

definition client_ack :: "client_env \<Rightarrow> OrderRequest \<Rightarrow> int \<Rightarrow> u8 list \<Rightarrow> order_client \<Rightarrow> (bool \<times> order_client) option" where
  "client_ack env req send_ts bs c =
     (let c = c\<lparr>oc_mem := mem_write (oc_mem c) (ce_ackbuf env) bs\<rparr>
      in case parse (oc_mem c) (mk_Packet (ce_ackbuf env) (of_nat (length bs)) 0) of
           None \<Rightarrow> Some (False, c\<lparr>oc_running := False\<rparr>)
         | Some (h, payload, payload_len) \<Rightarrow>
             if is_malformed_header h then Some (False, c\<lparr>oc_running := False\<rparr>)
             else if \<not> has_ack h then Some (False, c\<lparr>oc_running := False\<rparr>)
             else
               case client_acked (th_ack_num h) (th_window h) c of
                 None \<Rightarrow> None
               | Some c \<Rightarrow>
                   let (now, c) = oc_now env c;
                       rtt_us = (now - send_ts) div 1000;
                       c = c\<lparr>oc_rto_estimator := sample_rtt (of_int (max 1 (rtt_us div 1000))) (oc_rto_estimator c),
                             oc_rtt_us_samples := oc_rtt_us_samples c @ [of_int rtt_us],
                             oc_ack_recv_total := oc_ack_recv_total c + 1, oc_tracer := snd (should_emit (oc_tracer c))\<rparr>;
                       (now, c) = oc_now env c;
                       c = c\<lparr>oc_last_activity := now\<rparr>
                   in Some (True, client_book req rtt_us c))"

section \<open>The loops\<close>

text \<open>One request of a burst; the result says whether the burst goes on.\<close>

definition client_order :: "client_env \<Rightarrow> order_client \<Rightarrow> (bool \<times> order_client) option" where
  "client_order env c =
     (let (req, c) = client_request env c
      in case client_send env req c of
           None \<Rightarrow> None
         | Some (SendBlocked c) \<Rightarrow> Some (True, c)
         | Some (SendFailed c) \<Rightarrow> Some (False, c)
         | Some (SendDone send_ts c) \<Rightarrow>
             (case client_wait env (c\<lparr>oc_mem := mem_write (oc_mem c) (ce_ackbuf env) (replicate 256 0)\<rparr>) of
                None \<Rightarrow> None
              | Some (answer, c) \<Rightarrow>
                  let (running, c) = oc_load env c
                  in case answer of
                       None \<Rightarrow> Some (False, c)
                     | Some bs \<Rightarrow> if \<not> running then Some (False, c) else client_ack env req send_ts bs c))"

fun client_burst :: "client_env \<Rightarrow> nat \<Rightarrow> order_client \<Rightarrow> order_client option" where
  "client_burst env 0 c = Some c"
| "client_burst env (Suc n) c =
     (let (running, c) = oc_load env c
      in if \<not> running then Some c
         else
           case client_order env c of
             None \<Rightarrow> None
           | Some (go_on, c) \<Rightarrow> if go_on then client_burst env n c else Some c)"

definition client_turn :: "client_env \<Rightarrow> order_client \<Rightarrow> order_client option" where
  "client_turn env c =
     (let (go_on, c) = client_disconnect env c
      in if \<not> go_on then Some c
         else case client_keepalive env c of None \<Rightarrow> None | Some c \<Rightarrow> client_burst env (ce_burst env) c)"

partial_function (option) client_loop :: "client_env \<Rightarrow> order_client \<Rightarrow> order_client option" where
  "client_loop env c =
     (let (running, c) = oc_load env c
      in if \<not> running then Some c
         else case client_turn env c of None \<Rightarrow> None | Some c \<Rightarrow> client_loop env c)"

section \<open>Teardown\<close>

fun client_close_loop :: "client_env \<Rightarrow> nat \<Rightarrow> order_client \<Rightarrow> order_client option" where
  "client_close_loop env 0 c = Some c"
| "client_close_loop env (Suc n) c =
     (let (r, c) = oc_read env c
      in case r of
           Inr _ \<Rightarrow> Some c
         | Inl bs \<Rightarrow>
             if bs = [] then Some c
             else
               let c = c\<lparr>oc_mem := mem_write (oc_mem c) (ce_ackbuf env) bs\<rparr>
               in case parse (oc_mem c) (mk_Packet (ce_ackbuf env) (of_nat (length bs)) 0) of
                    None \<Rightarrow> client_close_loop env n c
                  | Some (h, payload, payload_len) \<Rightarrow>
                      if is_malformed_header h then client_close_loop env n c
                      else
                        let c = c\<lparr>oc_conn := snd (handle_incoming (oc_conn c) h payload_len)\<rparr>
                        in case (if has_fin h then oc_send env (create_ack (oc_conn c) (send_ack (oc_conn c))) c else Some (True, [], c)) of
                             None \<Rightarrow> None
                           | Some (_, _, c) \<Rightarrow>
                               if conn_state (oc_conn c) = TIME_WAIT \<or> conn_state (oc_conn c) = CLOSED then Some c
                               else client_close_loop env n c)"

definition client_fin :: "client_env \<Rightarrow> order_client \<Rightarrow> order_client option" where
  "client_fin env c =
     (if 0 \<le> oc_fd c \<and> oc_state c = ACTIVE then
        let (ok, conn) = initiate_close (oc_conn c); c = c\<lparr>oc_conn := conn\<rparr>
        in if ok then
             case oc_send env (create_fin (oc_conn c)) c of
               None \<Rightarrow> None
             | Some (_, _, c) \<Rightarrow>
                 client_close_loop env 4 (c\<lparr>oc_conn := (oc_conn c)\<lparr>send_seq := send_seq (oc_conn c) + 1\<rparr>,
                   oc_mem := mem_write (oc_mem c) (ce_ackbuf env) (replicate 256 0)\<rparr>)
           else Some c
      else Some c)"

definition client_teardown :: "client_env \<Rightarrow> order_client \<Rightarrow> order_client option" where
  "client_teardown env c =
     (case client_fin env c of
        None \<Rightarrow> None
      | Some c \<Rightarrow> Some (c\<lparr>oc_state := STOPPED, oc_trace := oc_trace c @ [SysClose (oc_fd c)]\<rparr>))"

text \<open>
  The start: \<open>base\<close> is where the pool's storage lies; a first connection that fails leaves the client stopped. \<open>None\<close> is a pool
  that cannot be built.
\<close>

definition client_conn :: TcpConnection where
  "client_conn = TcpConnection_default\<lparr>local_ip := htonl 0x7F000001, remote_ip := htonl 0x7F000001, local_port := 9101,
     remote_port := 9000, send_seq := 1, recv_seq := 1\<rparr>"

definition client_blank :: "memory_pool \<Rightarrow> int \<Rightarrow> mem \<Rightarrow> order_client" where
  "client_blank pool trace_every m =
     \<lparr>oc_state = CONNECTING, oc_fd = -1, oc_pool = pool, oc_mem = m, oc_conn = client_conn,
      oc_tracer = mk_Tracer \<lparr>tc_enabled = trace_every > 0, tc_sample_every = of_int (max 1 trace_every)\<rparr>, oc_order_id = 1,
      oc_req_sent_total = 0, oc_ack_recv_total = 0, oc_ack_timeout_total = 0, oc_reconnect_total = 0, oc_send_blocked_total = 0,
      oc_retransmit_total = 0, oc_retransmit_failed_total = 0, oc_retransmit_drop_total = 0, oc_new_total = 0, oc_cancel_total = 0,
      oc_replace_total = 0, oc_keepalive_sent_total = 0, oc_cwnd_blocked_total = 0, oc_congestion_loss_total = 0, oc_rtt_us_samples = [],
      oc_rtt_new = [], oc_rtt_cancel = [], oc_rtt_replace = [], oc_shadow = [], oc_retrans_q = [], oc_rto_estimator = rto_default,
      oc_cc = mk_congestion 1200, oc_outstanding = [], oc_last_activity = 0, oc_last_disconnect = 0, oc_running = True, oc_trace = [],
      oc_clocks = 0, oc_writes = 0, oc_reads = 0, oc_connects = 0, oc_loads = 0, oc_draws = 0\<rparr>"

definition client_init :: "client_env \<Rightarrow> ptr \<Rightarrow> int \<Rightarrow> mem \<Rightarrow> order_client option" where
  "client_init env base trace_every m =
     (case MemoryPool base (20 + 40 + 16) 64 of
        None \<Rightarrow> None
      | Some pool \<Rightarrow>
          let c = connect_to_gateway env (client_blank pool trace_every m)
          in if oc_fd c < 0 then Some (c\<lparr>oc_state := STOPPED\<rparr>)
             else
               let c = c\<lparr>oc_state := ACTIVE\<rparr>; (now, c) = oc_now env c; c = c\<lparr>oc_last_activity := now\<rparr>; (now, c) = oc_now env c
               in Some (c\<lparr>oc_last_disconnect := now\<rparr>))"

definition client_main :: "client_env \<Rightarrow> ptr \<Rightarrow> int \<Rightarrow> mem \<Rightarrow> order_client option" where
  "client_main env base trace_every m =
     (case client_init env base trace_every m of
        None \<Rightarrow> None
      | Some c \<Rightarrow>
          if oc_state c = STOPPED then Some c
          else case client_loop env c of None \<Rightarrow> None | Some c \<Rightarrow> client_teardown env c)"

section \<open>The invariant\<close>

text \<open>
  What holds through the whole run: the connection is never established; every outstanding segment is in the retransmission
  queue and was written before; and every frame written carries ACK or PSH and ACK.
\<close>

definition frame_flags :: "u8 list \<Rightarrow> u8" where
  "frame_flags bs = bs ! 13"

definition client_inv :: "order_client \<Rightarrow> bool" where
  "client_inv c \<longleftrightarrow> conn_state (oc_conn c) = CLOSED \<and> (\<forall>e \<in> set (oc_retrans_q c). re_seq_end e = re_seq_start e + 40) \<and>
     (\<forall>(sq, bs) \<in> set (oc_outstanding c). queue_contains sq (oc_retrans_q c) \<and> (\<exists>fd. SysWrite fd bs \<in> set (oc_trace c))) \<and>
     (\<forall>fd bs. SysWrite fd bs \<in> set (oc_trace c) \<longrightarrow> frame_flags bs \<in> {16, 24})"

text \<open>Steps that leave all this alone but for harmless events at the end of the trace.\<close>

definition quiet :: "order_client \<Rightarrow> order_client \<Rightarrow> bool" where
  "quiet c c' \<longleftrightarrow> conn_state (oc_conn c') = conn_state (oc_conn c) \<and> oc_retrans_q c' = oc_retrans_q c \<and> oc_outstanding c' = oc_outstanding c \<and>
     (\<exists>es. oc_trace c' = oc_trace c @ es \<and> (\<forall>fd bs. SysWrite fd bs \<in> set es \<longrightarrow> frame_flags bs \<in> {16, 24}))"

lemma quiet_refl [simp]: "quiet c c"
  by (simp add: quiet_def)

lemma quiet_trans: "quiet a b \<Longrightarrow> quiet b c \<Longrightarrow> quiet a c"
  unfolding quiet_def by auto

lemma quiet_inv: "client_inv c \<Longrightarrow> quiet c c' \<Longrightarrow> client_inv c'"
  by (auto simp: client_inv_def quiet_def) fastforce+

lemma quiet_now: "oc_now env c = (t, c') \<Longrightarrow> quiet c c'"
  by (auto simp: oc_now_def quiet_def)

lemma quiet_load: "oc_load env c = (b, c') \<Longrightarrow> quiet c c'"
  by (auto simp: oc_load_def quiet_def Let_def)

lemma quiet_read: "oc_read env c = (r, c') \<Longrightarrow> quiet c c'"
  by (auto simp: oc_read_def tcp_read_from_def quiet_def Let_def split: if_splits)

lemma quiet_write: "oc_write env bs c = (n, c') \<Longrightarrow> frame_flags bs \<in> {16, 24} \<Longrightarrow> quiet c c'"
  by (auto simp: oc_write_def tcp_write_to_def quiet_def Let_def split: if_splits)

lemma connect_no_write: "tcp_connect_to pton ip port t k = (fd, es) \<Longrightarrow> SysWrite f bs \<notin> set es"
  by (auto simp: tcp_connect_to_def connect_wait_def Let_def split: if_splits option.splits)

lemma quiet_connect: "quiet c (connect_to_gateway env c)"
  by (auto simp: connect_to_gateway_def quiet_def Let_def connect_no_write [OF prod.collapse [symmetric]] split_beta)

lemma wire_header_flags: "wire_header (segment_header sp dp sq ak fl win) ! 13 = ucast (fl AND 0xFF)"
  by (simp add: wire_header_def segment_header_def nth_append)

lemma keepalive_flags: "create_keepalive conn block m = (pkt, m') \<Longrightarrow> frame_flags (pkt_bytes m' pkt) = 16"
proof -
  assume "create_keepalive conn block m = (pkt, m')"
  then have c: "pkt = mk_Packet block 20 0" "m' = seal_segment block (segment_header (local_port conn) (remote_port conn)
      (send_seq conn) (send_ack conn) 16 (window_size conn)) [] (local_ip conn) (remote_ip conn) m"
    by (simp_all add: create_keepalive_def create_seal)
  have "pkt_bytes m' pkt = sealed_bytes (segment_header (local_port conn) (remote_port conn)
      (send_seq conn) (send_ack conn) 16 (window_size conn)) [] (local_ip conn) (remote_ip conn)"
    using seal_bytes [of block _ "[]"] by (simp add: c pkt_bytes_def)
  then show ?thesis by (simp add: frame_flags_def sealed_bytes_def Let_def wire_header_flags)
qed

lemma data_flags:
  assumes "create_data conn data 40 block m = (pkt, m')"
  shows "frame_flags (pkt_bytes m' pkt) = 24"
proof -
  let ?h = "segment_header (local_port conn) (remote_port conn) (send_seq conn) (recv_seq conn) 24 (window_size conn)"
  define m1 where "m1 = mem_write (mem_write m block (wire_header ?h)) (block + 20) (mem_read (mem_write m block (wire_header ?h)) data 40)"
  have pkt: "pkt = mk_Packet block 60 0" and m': "m' = put_checksum block 60 (local_ip conn) (remote_ip conn) m1"
    using assms by (simp_all add: create_data_def put_header_wire Let_def m1_def)
  have "m' (block + 13) = m1 (block + 13)" by (simp add: m' put_checksum_def Let_def mem_write_outside)
  also have "\<dots> = mem_write m block (wire_header ?h) (block + 13)" by (simp add: m1_def mem_write_outside)
  also have "\<dots> = 24" by (simp add: mem_write_inside wire_header_flags)
  finally show ?thesis by (simp add: frame_flags_def pkt_bytes_def pkt)
qed

lemma quiet_send:
  assumes "oc_send env build c = Some (ok, bs, c')"
    and "\<And>block m pkt m'. build block m = (pkt, m') \<Longrightarrow> frame_flags (pkt_bytes m' pkt) \<in> {16, 24}"
  shows "quiet c c'" and "frame_flags bs \<in> {16, 24}" and "0 \<le> oc_fd c \<Longrightarrow> SysWrite (oc_fd c) bs \<in> set (oc_trace c')"
    and "oc_conn c' = oc_conn c"
proof -
  from assms(1) obtain block pool where p: "mp_allocate (oc_pool c) = Some (block, pool)" "block \<noteq> nullptr"
    by (auto simp: oc_send_def split: option.splits if_splits)
  obtain pkt m where b: "build block (oc_mem c) = (pkt, m)" by fastforce
  obtain n c1 where w: "oc_write env (pkt_bytes m pkt) (c\<lparr>oc_mem := m\<rparr>) = (n, c1)" by fastforce
  obtain pool' where r: "bs = pkt_bytes m pkt" "c' = c1\<lparr>oc_pool := pool'\<rparr>"
    using assms(1) p b w by (auto simp: oc_send_def Let_def split: option.splits)
  show fl: "frame_flags bs \<in> {16, 24}" using assms(2) [OF b] r(1) by simp
  have "quiet (c\<lparr>oc_mem := m\<rparr>) c1" using quiet_write [OF w] fl r(1) by simp
  then show "quiet c c'" by (simp add: quiet_def r(2))
  show "SysWrite (oc_fd c) bs \<in> set (oc_trace c')" if "0 \<le> oc_fd c"
    using w that r by (auto simp: oc_write_def tcp_write_to_def Let_def split: if_splits)
  show "oc_conn c' = oc_conn c" using w r by (auto simp: oc_write_def Let_def split: prod.splits)
qed

lemma inv_cong:
  "conn_state (oc_conn c') = conn_state (oc_conn c) \<Longrightarrow> oc_retrans_q c' = oc_retrans_q c \<Longrightarrow> oc_outstanding c' = oc_outstanding c \<Longrightarrow>
    oc_trace c' = oc_trace c \<Longrightarrow> client_inv c \<Longrightarrow> client_inv c'"
  by (simp add: client_inv_def)

lemma inv_disconnect: "client_inv c \<Longrightarrow> client_disconnect env c = (b, c') \<Longrightarrow> client_inv c'"
  by (auto simp: client_disconnect_def Let_def split: if_splits prod.splits
      intro!: quiet_inv [where c = c] dest!: quiet_now)
    (auto intro: quiet_trans simp: quiet_def connect_to_gateway_def Let_def split_beta oc_now_def
      connect_no_write [OF prod.collapse [symmetric]])

lemma inv_keepalive:
  assumes "client_inv c" and "client_keepalive env c = Some c'"
  shows "client_inv c'"
proof -
  obtain t c1 where n: "oc_now env c = (t, c1)" by fastforce
  have i1: "client_inv c1" using quiet_inv [OF assms(1) quiet_now [OF n]] .
  show ?thesis
  proof (cases "oc_send env (create_keepalive (oc_conn c1)) c1")
    case None
    with assms(2) n i1 show ?thesis by (auto simp: client_keepalive_def split: if_splits)
  next
    case (Some r)
    obtain ok bs c2 where r: "r = (ok, bs, c2)" by (cases r)
    have "client_inv c2" using quiet_inv [OF i1 quiet_send(1) [OF Some [unfolded r]]] keepalive_flags by force
    then show ?thesis using assms(2) n i1 Some r
      by (auto simp: client_keepalive_def oc_now_def Let_def split: if_splits intro: inv_cong)
  qed
qed

lemma oc_now_sel:
  assumes "oc_now env c = (t, c')"
  shows "oc_conn c' = oc_conn c" "oc_retrans_q c' = oc_retrans_q c" "oc_outstanding c' = oc_outstanding c" "oc_trace c' = oc_trace c"
    "oc_fd c' = oc_fd c"
  using assms by (auto simp: oc_now_def)

lemma send_ok_open:
  assumes "oc_send env build c = Some (True, bs, c')"
  shows "0 \<le> oc_fd c"
proof (rule ccontr)
  assume neg: "\<not> 0 \<le> oc_fd c"
  from assms obtain block pool where p: "mp_allocate (oc_pool c) = Some (block, pool)" "block \<noteq> nullptr"
    by (auto simp: oc_send_def split: option.splits if_splits)
  obtain pkt m where b: "build block (oc_mem c) = (pkt, m)" by fastforce
  have "fst (oc_write env (pkt_bytes m pkt) (c\<lparr>oc_mem := m\<rparr>)) = -1" using neg by (simp add: oc_write_def tcp_write_to_def)
  then have "-1 = int (unat (pkt_len pkt))"
    using assms p b by (simp add: oc_send_def Let_def split_beta split: option.splits)
  then show False by linarith
qed

lemma record_sel:
  assumes "client_record env sq bs c = (t, c')"
  shows "conn_state (oc_conn c') = conn_state (oc_conn c)" "oc_trace c' = oc_trace c"
    "oc_outstanding c' = AList.update sq bs (oc_outstanding c)" "oc_retrans_q c' = track_segment sq 40 (to_ms (ce_clock env (Suc (oc_clocks c)))) (rto_ms (oc_rto_estimator c)) (oc_retrans_q c)"
  using assms by (auto simp: client_record_def oc_now_def Let_def)

definition outcome_client :: "send_outcome \<Rightarrow> order_client" where
  "outcome_client r = (case r of SendBlocked c \<Rightarrow> c | SendFailed c \<Rightarrow> c | SendDone _ c \<Rightarrow> c)"

lemma inv_record:
  assumes "client_inv c" and "SysWrite fd bs \<in> set (oc_trace c)" and "client_record env sq bs c = (t, c')"
  shows "client_inv c'"
proof -
  note r = record_sel [OF assms(3)]
  obtain d where q: "oc_retrans_q c' = oc_retrans_q c @ [\<lparr>re_seq_start = sq, re_seq_end = sq + 40, re_deadline_ms = d, re_retries = 0\<rparr>]"
    using r(4) by (simp add: track_segment_def)
  have sub: "set (oc_outstanding c') \<subseteq> insert (sq, bs) (set (oc_outstanding c))" unfolding r(3) by (rule set_update_subset)
  show ?thesis unfolding client_inv_def
  proof (intro conjI)
    show "\<forall>(sq, bs) \<in> set (oc_outstanding c'). queue_contains sq (oc_retrans_q c') \<and> (\<exists>fd. SysWrite fd bs \<in> set (oc_trace c'))"
      using assms(1,2) sub r(2) by (auto simp: client_inv_def q queue_contains_def)
  qed (use assms(1) r(1,2) in \<open>simp_all add: client_inv_def q\<close>)
qed

lemma inv_send:
  assumes "client_inv c" and "client_send env req c = Some r"
  shows "client_inv (outcome_client r)"
proof -
  let ?build = "\<lambda>block m. create_data (oc_conn c) (ce_req env) 40 block (mem_write m (ce_req env) (OrderRequest_bytes (ce_pad env) req))"
  show ?thesis
  proof (cases "can_send (oc_conn c) 40 \<and> cc_can_send (oc_cc c) (of_nat (length (oc_outstanding c)) * 40) 40 (peer_window (oc_conn c))")
    case False
    then have "quiet c (outcome_client r)" using assms(2)
      by (auto simp: client_send_def Let_def outcome_client_def quiet_def split: if_splits)
    then show ?thesis by (rule quiet_inv [OF assms(1)])
  next
    case go: True
    then obtain ok bs c1 where s: "oc_send env ?build c = Some (ok, bs, c1)"
      using assms(2) by (auto simp: client_send_def Let_def split: option.splits)
    have fl: "frame_flags (pkt_bytes m' pkt) \<in> {16, 24}" if "?build block m = (pkt, m')" for block m pkt m'
      using data_flags [OF that] by simp
    note q = quiet_send [OF s fl]
    have inv1: "client_inv c1" by (rule quiet_inv [OF assms(1) q(1)])
    show ?thesis
    proof (cases ok)
      case False
      then have "r = SendFailed (c1\<lparr>oc_running := False\<rparr>)" using assms(2) go s by (simp add: client_send_def Let_def)
      then show ?thesis using inv1 by (simp add: outcome_client_def client_inv_def)
    next
      case True
      obtain t c2 where rec: "client_record env (send_seq (oc_conn c)) bs c1 = (t, c2)" by fastforce
      then have "r = SendDone t c2" using assms(2) go s True by (simp add: client_send_def Let_def)
      moreover have "0 \<le> oc_fd c" using s True by (intro send_ok_open) simp
      ultimately show ?thesis using inv_record [OF inv1 q(3) rec] by (simp add: outcome_client_def)
    qed
  qed
qed

section \<open>Retransmission\<close>

lemma collect_due_entries:
  "collect_due now rto n q = (due, q') \<Longrightarrow> set due \<subseteq> set q \<and> (\<forall>e' \<in> set q'. \<exists>e \<in> set q. re_seq_start e' = re_seq_start e \<and> re_seq_end e' = re_seq_end e)"
proof (induction q arbitrary: due q')
  case (Cons e q)
  obtain due1 q1 where c: "collect_due now rto n q = (due1, q1)" by fastforce
  have IH: "set due1 \<subseteq> set q" "\<forall>e' \<in> set q1. \<exists>e \<in> set q. re_seq_start e' = re_seq_start e \<and> re_seq_end e' = re_seq_end e"
    using Cons.IH [OF c] by auto
  show ?case using Cons.prems IH c by (auto simp: Let_def split: if_splits)
qed simp

lemma resend_trace:
  assumes "map_of (oc_outstanding c) = m" and "\<forall>seg. m (re_seq_start e) = Some seg \<longrightarrow> P seg"
  shows "\<exists>es. oc_trace (client_resend env e c) = oc_trace c @ es \<and> (\<forall>x \<in> set es. \<exists>seg. x = SysWrite (oc_fd c) seg \<and> P seg)"
    and "oc_conn (client_resend env e c) = oc_conn c" "oc_retrans_q (client_resend env e c) = oc_retrans_q c"
    "oc_outstanding (client_resend env e c) = oc_outstanding c" "oc_fd (client_resend env e c) = oc_fd c"
  using assms by (auto simp: client_resend_def oc_write_def tcp_write_to_def Let_def split: option.splits prod.splits if_splits)

lemma resend_all:
  assumes "\<forall>(sq, seg) \<in> set (oc_outstanding c). P seg"
  shows "(\<exists>es. oc_trace (fold (client_resend env) due c) = oc_trace c @ es \<and> (\<forall>x \<in> set es. \<exists>seg. x = SysWrite (oc_fd c) seg \<and> P seg)) \<and>
    oc_conn (fold (client_resend env) due c) = oc_conn c \<and> oc_retrans_q (fold (client_resend env) due c) = oc_retrans_q c \<and>
    oc_outstanding (fold (client_resend env) due c) = oc_outstanding c"
  using assms
proof (induction due arbitrary: c)
  case (Cons e due)
  let ?c = "client_resend env e c"
  have "\<forall>seg. map_of (oc_outstanding c) (re_seq_start e) = Some seg \<longrightarrow> P seg" using Cons.prems by (auto dest: map_of_SomeD)
  note r = resend_trace [OF refl this]
  obtain es where es: "oc_trace ?c = oc_trace c @ es" "\<forall>x \<in> set es. \<exists>seg. x = SysWrite (oc_fd c) seg \<and> P seg" using r(1) by blast
  have "\<forall>(sq, seg) \<in> set (oc_outstanding ?c). P seg" using Cons.prems r(4) by simp
  from Cons.IH [OF this] obtain es' where es': "oc_trace (fold (client_resend env) due ?c) = oc_trace ?c @ es'"
    "\<forall>x \<in> set es'. \<exists>seg. x = SysWrite (oc_fd ?c) seg \<and> P seg"
    "oc_conn (fold (client_resend env) due ?c) = oc_conn ?c" "oc_retrans_q (fold (client_resend env) due ?c) = oc_retrans_q ?c"
    "oc_outstanding (fold (client_resend env) due ?c) = oc_outstanding ?c" by blast
  have "oc_trace (fold (client_resend env) (e # due) c) = oc_trace c @ (es @ es')" using es es' by simp
  moreover have "\<forall>x \<in> set (es @ es'). \<exists>seg. x = SysWrite (oc_fd c) seg \<and> P seg" using es(2) es'(2) r(5) by auto
  ultimately show ?case using es'(3-5) r(2-4) by (intro conjI exI [of _ "es @ es'"]) simp_all
qed simp

text \<open>A tick writes only frames that were written before, and keeps the invariant.\<close>

lemma tick_spec:
  assumes "client_inv c"
  shows "client_inv (client_tick env c)"
    and "\<exists>es. oc_trace (client_tick env c) = oc_trace c @ es \<and> (\<forall>x \<in> set es. \<exists>fd bs fd'. x = SysWrite fd bs \<and> SysWrite fd' bs \<in> set (oc_trace c))"
proof -
  obtain t c0 where n: "oc_now env c = (t, c0)" by fastforce
  note n0 = oc_now_sel [OF n]
  obtain due q where cd: "collect_due (to_ms t) (rto_ms (oc_rto_estimator c0)) 5 (oc_retrans_q c0) = (due, q)" by fastforce
  note entries = collect_due_entries [OF cd]
  let ?c1 = "client_sweep (c0\<lparr>oc_retrans_q := q\<rparr>)"
  have c1: "oc_trace ?c1 = oc_trace c" "oc_conn ?c1 = oc_conn c" "oc_retrans_q ?c1 = q"
    "oc_outstanding ?c1 = filter (\<lambda>(sq, _). queue_contains sq q) (oc_outstanding c)"
    using n0 by (simp_all add: client_sweep_def Let_def)
  define cl where "cl = ?c1\<lparr>oc_cc := cc_on_loss (oc_cc ?c1), oc_congestion_loss_total := oc_congestion_loss_total ?c1 + 1\<rparr>"
  have tick: "client_tick env c = (if due = [] then ?c1 else fold (client_resend env) due cl)"
    using n cd by (simp add: client_tick_def cl_def Let_def)
  have old: "\<forall>(sq, seg) \<in> set (oc_outstanding cl). \<exists>fd'. SysWrite fd' seg \<in> set (oc_trace c)"
    using assms c1(4) by (auto simp: client_inv_def cl_def)
  note ra = resend_all [where P = "\<lambda>seg. \<exists>fd'. SysWrite fd' seg \<in> set (oc_trace c)", OF old, of env due]
  have same: "oc_conn (client_tick env c) = oc_conn c" "oc_retrans_q (client_tick env c) = q"
    "oc_outstanding (client_tick env c) = filter (\<lambda>(sq, _). queue_contains sq q) (oc_outstanding c)"
    using ra c1 by (auto simp: tick cl_def)
  show tr: "\<exists>es. oc_trace (client_tick env c) = oc_trace c @ es \<and> (\<forall>x \<in> set es. \<exists>fd bs fd'. x = SysWrite fd bs \<and> SysWrite fd' bs \<in> set (oc_trace c))"
  proof (cases "due = []")
    case False
    have cl: "oc_trace cl = oc_trace c" using c1(1) by (simp add: cl_def)
    from ra [THEN conjunct1] obtain es where es: "oc_trace (fold (client_resend env) due cl) = oc_trace cl @ es"
      "\<forall>x \<in> set es. \<exists>seg. x = SysWrite (oc_fd cl) seg \<and> (\<exists>fd'. SysWrite fd' seg \<in> set (oc_trace c))" by (elim exE conjE)
    have "oc_trace (client_tick env c) = oc_trace c @ es" using es(1) tick False cl by simp
    moreover have "\<forall>x \<in> set es. \<exists>fd bs fd'. x = SysWrite fd bs \<and> SysWrite fd' bs \<in> set (oc_trace c)" using es(2) by blast
    ultimately show ?thesis by blast
  qed (use c1(1) tick in simp)
  show "client_inv (client_tick env c)"
    unfolding client_inv_def same
  proof (intro conjI allI impI)
    show "conn_state (oc_conn c) = CLOSED" using assms by (simp add: client_inv_def)
    show "\<forall>e \<in> set q. re_seq_end e = re_seq_start e + 40"
    proof
      fix e assume "e \<in> set q"
      then obtain e0 where "e0 \<in> set (oc_retrans_q c)" "re_seq_start e = re_seq_start e0" "re_seq_end e = re_seq_end e0"
        using entries n0(2) by fastforce
      then show "re_seq_end e = re_seq_start e + 40" using assms by (simp add: client_inv_def)
    qed
    obtain es where es: "oc_trace (client_tick env c) = oc_trace c @ es"
      "\<forall>x \<in> set es. \<exists>fd bs fd'. x = SysWrite fd bs \<and> SysWrite fd' bs \<in> set (oc_trace c)" using tr by blast
    show "\<forall>(sq, bs) \<in> set (filter (\<lambda>(sq, _). queue_contains sq q) (oc_outstanding c)).
        queue_contains sq q \<and> (\<exists>fd. SysWrite fd bs \<in> set (oc_trace (client_tick env c)))"
      using assms es(1) by (auto simp: client_inv_def)
    fix fd bs assume "SysWrite fd bs \<in> set (oc_trace (client_tick env c))"
    then obtain fd' where "SysWrite fd' bs \<in> set (oc_trace c)" using es by auto
    then show "frame_flags bs \<in> {16, 24}" using assms by (simp add: client_inv_def)
  qed
qed

section \<open>The whole run\<close>

lemma inv_wait_body:
  assumes IH: "\<And>env c r. wait env c = Some r \<Longrightarrow> client_inv c \<longrightarrow> client_inv (snd r)" and inv: "client_inv c"
    and body: "(let (running, c) = oc_load env c
      in if \<not> running then Some (None, c)
         else
           let (r, c) = oc_read env c
           in case r of
                Inl bs \<Rightarrow> if bs \<noteq> [] then Some (Some bs, c) else Some (None, c\<lparr>oc_running := False\<rparr>)
              | Inr errno \<Rightarrow>
                  if errno \<noteq> 11 \<and> errno \<noteq> 4
                  then Some (None, c\<lparr>oc_ack_timeout_total := oc_ack_timeout_total c + 1, oc_running := False\<rparr>)
                  else wait env (client_tick env c)) = Some r"
  shows "client_inv (snd r)"
proof -
  obtain run c1 where l: "oc_load env c = (run, c1)" by fastforce
  obtain x c2 where rd: "oc_read env c1 = (x, c2)" by fastforce
  have i1: "client_inv c1" by (rule quiet_inv [OF inv quiet_load [OF l]])
  have i2: "client_inv c2" by (rule quiet_inv [OF i1 quiet_read [OF rd]])
  show ?thesis
  proof (cases run)
    case False
    then show ?thesis using body l i1 by auto
  next
    case run: True
    show ?thesis
    proof (cases "\<exists>e. x = Inr e \<and> (e = 11 \<or> e = 4)")
      case True
      then have "wait env (client_tick env c2) = Some r" using body l rd run by auto
      then show ?thesis using IH tick_spec(1) [OF i2] by blast
    next
      case False
      then have "snd r = c2 \<or> snd r = c2\<lparr>oc_running := False\<rparr> \<or>
          snd r = c2\<lparr>oc_ack_timeout_total := oc_ack_timeout_total c2 + 1, oc_running := False\<rparr>"
        using body l rd run by (cases x) (simp_all split: if_splits, auto)
      then show ?thesis using i2 by (auto intro: inv_cong)
    qed
  qed
qed

lemma inv_wait:
  assumes "client_wait env c = Some r" and "client_inv c"
  shows "client_inv (snd r)"
proof -
  have "client_inv c \<longrightarrow> client_inv (snd r)"
    by (rule client_wait.raw_induct [OF _ assms(1), where P = "\<lambda>env c r. client_inv c \<longrightarrow> client_inv (snd r)"])
      (intro impI, rule inv_wait_body)
  with assms(2) show ?thesis by blast
qed

lemma not_dropped: "x \<in> set xs \<Longrightarrow> \<not> P x \<Longrightarrow> x \<in> set (dropWhile P xs)"
  by (induction xs) auto

lemma inv_acked:
  assumes "client_inv c" and "client_acked ack_num window c = Some c'"
  shows "client_inv c'"
proof -
  let ?gone = "\<lambda>e. re_seq_end e \<le> ack_num"
  have c': "conn_state (oc_conn c') = conn_state (oc_conn c)" "oc_trace c' = oc_trace c" "oc_retrans_q c' = dropWhile ?gone (oc_retrans_q c)"
    "oc_outstanding c' = filter (\<lambda>(sq, _). \<not> sq + 40 \<le> ack_num) (oc_outstanding c)"
    using assms(2) by (auto simp: client_acked_def ack_up_to_def ack_loop_spec Let_def split: option.splits)
  have "queue_contains sq (dropWhile ?gone (oc_retrans_q c))" if "(sq, bs) \<in> set (oc_outstanding c)" "\<not> sq + 40 \<le> ack_num" for sq bs
  proof -
    from that(1) assms(1) have "queue_contains sq (oc_retrans_q c)" by (auto simp: client_inv_def)
    then obtain e where e: "e \<in> set (oc_retrans_q c)" "re_seq_start e = sq" by (auto simp: queue_contains_def list_ex_iff)
    then have "\<not> ?gone e" using assms(1) that(2) by (simp add: client_inv_def)
    from not_dropped [where P = ?gone, OF e(1) this] e(2) show ?thesis by (auto simp: queue_contains_def list_ex_iff)
  qed
  then show ?thesis using assms(1) unfolding client_inv_def c' by (auto dest: set_dropWhileD)
qed

lemma book_sel [simp]:
  "oc_conn (client_book req rtt c) = oc_conn c" "oc_retrans_q (client_book req rtt c) = oc_retrans_q c"
  "oc_outstanding (client_book req rtt c) = oc_outstanding c" "oc_trace (client_book req rtt c) = oc_trace c"
  by (simp_all add: client_book_def Let_def split: option.split)

lemma inv_ack:
  assumes "client_inv c" and "client_ack env req send_ts bs c = Some (b, c')"
  shows "client_inv c'"
proof -
  let ?c = "c\<lparr>oc_mem := mem_write (oc_mem c) (ce_ackbuf env) bs\<rparr>"
  have i: "client_inv ?c" using assms(1) by (rule inv_cong [rotated 4]) simp_all
  show ?thesis
  proof (cases "\<exists>h p n. parse (oc_mem ?c) (mk_Packet (ce_ackbuf env) (of_nat (length bs)) 0) = Some (h, p, n) \<and> \<not> is_malformed_header h \<and> has_ack h")
    case False
    then have "c' = ?c\<lparr>oc_running := False\<rparr>"
      using assms(2) by (auto simp: client_ack_def Let_def split: option.splits if_splits)
    then show ?thesis using i by (simp add: client_inv_def)
  next
    case True
    then obtain h p n where h: "parse (oc_mem ?c) (mk_Packet (ce_ackbuf env) (of_nat (length bs)) 0) = Some (h, p, n)" "\<not> is_malformed_header h" "has_ack h"
      by blast
    then obtain c1 where c1: "client_acked (th_ack_num h) (th_window h) ?c = Some c1"
      using assms(2) by (auto simp: client_ack_def Let_def split: option.splits)
    have "client_inv c1" by (rule inv_acked [OF i c1])
    moreover have "oc_conn c' = oc_conn c1 \<and> oc_retrans_q c' = oc_retrans_q c1 \<and> oc_outstanding c' = oc_outstanding c1 \<and> oc_trace c' = oc_trace c1"
      using assms(2) h c1 by (simp add: client_ack_def oc_now_def Let_def) auto
    ultimately show ?thesis by (simp add: client_inv_def)
  qed
qed

lemma inv_order:
  assumes "client_inv c" and "client_order env c = Some (b, c')"
  shows "client_inv c'"
proof -
  obtain req c1 where r: "client_request env c = (req, c1)" by fastforce
  have i1: "client_inv c1" using assms(1) r by (rule_tac inv_cong) (auto simp: client_request_def oc_now_def Let_def)
  obtain out where o: "client_send env req c1 = Some out" using assms(2) r by (auto simp: client_order_def split: option.splits)
  have i2: "client_inv (outcome_client out)" by (rule inv_send [OF i1 o])
  show ?thesis
  proof (cases out)
    case (SendDone t c2)
    let ?c = "c2\<lparr>oc_mem := mem_write (oc_mem c2) (ce_ackbuf env) (replicate 256 0)\<rparr>"
    have i3: "client_inv ?c" using i2 SendDone by (simp add: outcome_client_def client_inv_def)
    obtain answer c3 where w: "client_wait env ?c = Some (answer, c3)"
      using assms(2) r o SendDone by (auto simp: client_order_def split: option.splits)
    obtain run c4 where l: "oc_load env c3 = (run, c4)" by fastforce
    have "client_inv c3" using inv_wait [OF w i3] by simp
    then have i4: "client_inv c4" by (rule quiet_inv [OF _ quiet_load [OF l]])
    then show ?thesis using assms(2) r o SendDone w l inv_ack [OF i4]
      by (auto simp: client_order_def Let_def split: option.splits if_splits)
  qed (use assms(2) r o i2 in \<open>auto simp: client_order_def outcome_client_def\<close>)
qed

lemma inv_burst: "client_inv c \<Longrightarrow> client_burst env n c = Some c' \<Longrightarrow> client_inv c'"
proof (induction n arbitrary: c)
  case (Suc n)
  obtain run c1 where l: "oc_load env c = (run, c1)" by fastforce
  have i: "client_inv c1" by (rule quiet_inv [OF Suc.prems(1) quiet_load [OF l]])
  show ?case
  proof (cases "client_order env c1")
    case None
    with Suc.prems(2) l i show ?thesis by (auto split: if_splits)
  next
    case (Some r)
    obtain b c2 where r: "r = (b, c2)" by (cases r)
    with Some inv_order [OF i] have "client_inv c2" by blast
    with Suc l i Some r show ?thesis by (auto split: if_splits)
  qed
qed simp

lemma inv_turn:
  assumes "client_inv c" and "client_turn env c = Some c'"
  shows "client_inv c'"
proof -
  obtain b c1 where d: "client_disconnect env c = (b, c1)" by fastforce
  have i: "client_inv c1" by (rule inv_disconnect [OF assms(1) d])
  show ?thesis
  proof (cases b)
    case False
    then show ?thesis using assms(2) d i by (simp add: client_turn_def)
  next
    case True
    then obtain c2 where k: "client_keepalive env c1 = Some c2" using assms(2) d by (auto simp: client_turn_def split: option.splits)
    then have "client_burst env (ce_burst env) c2 = Some c'" using assms(2) d True by (simp add: client_turn_def)
    then show ?thesis by (rule inv_burst [OF inv_keepalive [OF i k]])
  qed
qed

lemma inv_loop:
  assumes "client_loop env c = Some r" and "client_inv c"
  shows "client_inv r"
proof -
  have "client_inv c \<longrightarrow> client_inv r"
  proof (rule client_loop.raw_induct [OF _ assms(1), where P = "\<lambda>env c r. client_inv c \<longrightarrow> client_inv r"], intro impI)
    fix loop env c r
    assume IH: "\<And>env c r. loop env c = Some r \<Longrightarrow> client_inv c \<longrightarrow> client_inv r" and inv: "client_inv c"
      and body: "(let (running, c) = oc_load env c
        in if \<not> running then Some c else case client_turn env c of None \<Rightarrow> None | Some c \<Rightarrow> loop env c) = Some r"
    obtain run c1 where l: "oc_load env c = (run, c1)" by fastforce
    have "client_inv c1" by (rule quiet_inv [OF inv quiet_load [OF l]])
    then show "client_inv r" using body l IH inv_turn [of c1 env] by (auto split: if_splits option.splits)
  qed
  with assms(2) show ?thesis by blast
qed

lemma client_blank_inv: "client_inv (client_blank pool trace_every m)"
  by (simp add: client_inv_def client_blank_def client_conn_def TcpConnection_default_def)

lemma client_init_inv:
  assumes "client_init env base trace_every m = Some c"
  shows "client_inv c"
proof -
  from assms obtain pool where p: "MemoryPool base (20 + 40 + 16) 64 = Some pool" by (auto simp: client_init_def split: option.splits)
  let ?c = "connect_to_gateway env (client_blank pool trace_every m)"
  have "client_inv ?c" by (rule quiet_inv [OF client_blank_inv quiet_connect])
  moreover have "oc_conn c = oc_conn ?c \<and> oc_retrans_q c = oc_retrans_q ?c \<and> oc_outstanding c = oc_outstanding ?c \<and> oc_trace c = oc_trace ?c"
    using assms p by (auto simp: client_init_def oc_now_def Let_def split: if_splits)
  ultimately show ?thesis by (simp add: client_inv_def)
qed

lemma inv_teardown:
  assumes "client_inv c" and "client_teardown env c = Some c'"
  shows "oc_state c' = STOPPED \<and> oc_trace c' = oc_trace c @ [SysClose (oc_fd c)] \<and> oc_conn c' = oc_conn c"
proof -
  have "initiate_close (oc_conn c) = (False, oc_conn c)" using assms(1) by (simp add: client_inv_def initiate_close_def)
  then have "client_fin env c = Some c" by (simp add: client_fin_def)
  then show ?thesis using assms(2) by (auto simp: client_teardown_def)
qed

text \<open>
  \<^bold>\<open>C16\<close>. The bookkeeping of the client is consistent at its start and after every turn of its loop, whatever the kernel
  answers: each outstanding segment is in the retransmission queue and was written before. So what a retransmission writes is
  always, byte for byte, a frame written earlier.\<close>

theorem client_retransmits_only_sent:
  "(client_init env base trace_every m = Some c \<longrightarrow> client_inv c) \<and> (client_inv c \<and> client_turn env c = Some c' \<longrightarrow> client_inv c') \<and>
   (client_inv c \<longrightarrow> (\<exists>es. oc_trace (client_tick env c) = oc_trace c @ es \<and>
      (\<forall>x \<in> set es. \<exists>fd bs fd'. x = SysWrite fd bs \<and> SysWrite fd' bs \<in> set (oc_trace c))))"
  using client_init_inv inv_turn tick_spec(2) by blast


text \<open>A client whose connection succeeds and that is interrupted by a signal before its first turn.\<close>

definition ex_client_env :: client_env where
  "ex_client_env = \<lparr>ce_req = 4096, ce_ackbuf = 8192, ce_pad = 0, ce_clock = \<lambda>i. int i * 1000000, ce_write = \<lambda>_. Inl 60,
     ce_read = \<lambda>_. Inr 11, ce_connect = \<lambda>_. \<lparr>co_socket = 5, co_getfl = 2, co_setfl = 0, co_connect = 0, co_errno = 0, co_poll = 0,
       co_getsockopt = 0, co_so_error = 0\<rparr>, ce_signal = \<lambda>_. True, ce_pct = \<lambda>_. 50, ce_pick = \<lambda>_. 0, ce_pton = \<lambda>_. Some 0,
     ce_gateway_ip = ''127.0.0.1'', ce_timeout_ms = 1000, ce_disconnect_interval_s = 0, ce_cancel_ratio = 0, ce_replace_ratio = 0, ce_burst = 1\<rparr>"

lemma ex_connect: "\<exists>es. tcp_connect_to (ce_pton ex_client_env) (ce_gateway_ip ex_client_env) 9000 (ce_timeout_ms ex_client_env) (ce_connect ex_client_env n) = (5, es)"
  by (simp add: ex_client_env_def tcp_connect_to_def connect_wait_def Let_def)

lemma ex_client_init: "\<exists>c. client_init ex_client_env 65536 0 (\<lambda>_. 0) = Some c \<and> oc_state c = ACTIVE \<and> oc_fd c = 5"
  using ex_connect [of 0]
  by (auto simp: client_init_def MemoryPool_def connect_to_gateway_def client_blank_def oc_now_def Let_def)

theorem client_retransmits_only_sent_witness:
  "\<exists>c es. client_init ex_client_env 65536 0 (\<lambda>_. 0) = Some c \<and> client_inv c \<and> oc_trace (client_tick ex_client_env c) = oc_trace c @ es"
proof -
  obtain c where c: "client_init ex_client_env 65536 0 (\<lambda>_. 0) = Some c" using ex_client_init by blast
  with client_retransmits_only_sent [of ex_client_env 65536 0 "\<lambda>_. 0" c] show ?thesis by blast
qed


end
