(* ===== verification/Order_Session.thy ===== *)
theory Order_Session
  imports Gateway_Setup Gateway_Turns Order_Client
begin

text \<open>
  The order client and the order gateway together: what each of them reads is what the other one wrote. The theory shows that
  on a working connection every order of a burst is answered and accepted and both sides keep the same book, and that
  this no longer works after the client has reconnected.
\<close>

section \<open>The gateway answers one frame\<close>

lemma ack_frame_data: "ack_frame env tcp ack = data_frame tcp (OrderAck_bytes (ge_pad env) ack)"
  by (simp add: ack_frame_def data_frame_def)

text \<open>
  A connection of the gateway that expects the byte \<open>sq\<close> and buffers only segments that start at numbers in \<open>K\<close>. It is idle when
  those are numbers from before, of segments that came twice.
\<close>

definition gw_holds :: "int \<Rightarrow> u32 \<Rightarrow> u32 set \<Rightarrow> gateway \<Rightarrow> bool" where
  "gw_holds fd sq K g \<longleftrightarrow> (\<exists>ctx. map_of (gw_conns g) fd = Some ctx \<and> sorted_map (segments (cx_reassembly ctx)) \<and>
     fst ` set (segments (cx_reassembly ctx)) \<subseteq> K \<and> recv_seq (cx_tcp ctx) = sq \<and> window_size (cx_tcp ctx) = 65535)"

definition gw_expects :: "int \<Rightarrow> u32 \<Rightarrow> gateway \<Rightarrow> bool" where
  "gw_expects fd sq g \<longleftrightarrow> gw_holds fd sq {k. k < sq} g"

lemma gateway_answers:
  assumes "ring_inv (Suc n) ring" and "ring_contents ring = []" and "0 \<le> fd" "fd < 65536" and "\<forall>i. \<not> ge_drop env i"
    and "gw_ready env b g" and "gw_expects fd (send_seq c) g" and "unat (send_seq c) + 40 < 2 ^ 32"
    and "apply_order req (gw_live g) = (accepted, live)"
  obtains ring' g' tcp where "gw_receive env fd [data_frame c (OrderRequest_bytes pad req)] (ring, g) = Some (ring', g')"
    "ring_inv n ring'" "ring_contents ring' = []" "gw_ready env b g'" "gw_expects fd (send_seq c + 40) g'" "gw_live g' = live"
    "gw_out g' = gw_out g @ [Wrote fd (ack_frame env tcp (order_ack req accepted))]"
    "recv_seq tcp = send_seq c + 40" "window_size tcp = 65535"
proof -
  let ?pl = "OrderRequest_bytes pad req"
  obtain ctx where ctx: "map_of (gw_conns g) fd = Some ctx" "sorted_map (segments (cx_reassembly ctx))"
    "fst ` set (segments (cx_reassembly ctx)) \<subseteq> {k. k < send_seq c}" "recv_seq (cx_tcp ctx) = send_seq c"
    "window_size (cx_tcp ctx) = 65535" using assms(7) by (auto simp: gw_expects_def gw_holds_def)
  obtain ring' m where r: "gw_receive env fd [data_frame c ?pl] (ring, g) =
      (case gw_data env fd (ring_size ring') (send_seq c) (ge_buf env + 20) (of_nat (length ?pl)) ctx
          (g\<lparr>gw_mem := m, gw_popped := Suc (gw_popped g)\<rparr>) of None \<Rightarrow> None | Some (ctx, g) \<Rightarrow> Some (ring', gw_store fd ctx g))"
    "ring_inv n ring'" "ring_contents ring' = []" "mem_read m (ge_buf env + 20) (length ?pl) = ?pl"
    by (rule gw_frame_arrives [where payload = ?pl and c = c, OF assms(1-5) ctx(1)]) simp_all
  let ?g = "g\<lparr>gw_mem := m, gw_popped := Suc (gw_popped g)\<rparr>" and ?tcp = "(cx_tcp ctx)\<lparr>recv_seq := send_seq c + 40\<rparr>"
  have ready: "gw_ready env b ?g" using assms(6) by (simp add: gw_ready_def)
  have a: "apply_order (OrderRequest_of_bytes ?pl) (gw_live ?g) = (accepted, live)" using assms(9) by simp
  have tcp: "?tcp = (cx_tcp ctx)\<lparr>recv_seq := recv_seq (cx_tcp ctx) + of_nat (length ?pl)\<rparr>" by (simp add: ctx(4))
  obtain g' where g': "process_order_payload env fd (ring_size ring') ?pl ctx ?g = Some (ctx\<lparr>cx_tcp := ?tcp\<rparr>, g')"
    "gw_ready env b g'" "gw_live g' = live" "gw_out g' = gw_out ?g @ [Wrote fd (ack_frame env ?tcp (order_ack (OrderRequest_of_bytes ?pl) accepted))]"
    by (rule process_ok [OF ready _ a tcp]) simp_all
  have sq: "unat (send_seq c + 40) = unat (send_seq c) + 40" using assms(8) by (subst unat_add_no_wrap) simp_all
  have less: "{k. k < send_seq c} \<subseteq> {k. k < send_seq c + 40}" using sq by (auto simp: word_less_nat_alt)
  then have old: "send_seq c + 40 \<notin> fst ` set (segments (cx_reassembly ctx))" "fst ` set (segments (cx_reassembly ctx)) \<subseteq> {k. k < send_seq c + 40}"
    using ctx(3) by auto
  have "gw_data env fd (ring_size ring') (send_seq c) (ge_buf env + 20) (of_nat (length ?pl)) ctx ?g = Some (ctx\<lparr>cx_tcp := ?tcp\<rparr>, g')"
    using g'(1) r(4) ctx(4) old(1) by (simp add: gw_data_def pop_absent)
  then have "gw_receive env fd [data_frame c ?pl] (ring, g) = Some (ring', gw_store fd (ctx\<lparr>cx_tcp := ?tcp\<rparr>) g')"
    using r(1) by simp
  moreover have "gw_expects fd (send_seq c + 40) (gw_store fd (ctx\<lparr>cx_tcp := ?tcp\<rparr>) g')"
    using ctx(2,5) old(2) by (simp add: gw_expects_def gw_holds_def gw_store_def update_conv')
  ultimately show ?thesis using r(2,3) g'(2-4) ctx(5)
    by (intro that [of ring' "gw_store fd (ctx\<lparr>cx_tcp := ?tcp\<rparr>) g'" ?tcp]) (simp_all add: gw_store_def gw_ready_def)
qed

text \<open>A frame that does not start at the expected number is buffered, and nothing else happens.\<close>

lemma gw_receive_append: "gw_receive env fd (xs @ ys) s = (case gw_receive env fd xs s of None \<Rightarrow> None | Some s \<Rightarrow> gw_receive env fd ys s)"
  by (induction xs arbitrary: s) (auto simp: Let_def split: option.split prod.split)

lemma gw_buffers_frame:
  assumes "ring_inv (Suc n) ring" and "ring_contents ring = []" and "0 \<le> fd" "fd < 65536" and "\<forall>i. \<not> ge_drop env i"
    and "gw_holds fd sq K g" and "0 < length payload" "length payload \<le> 2028" and "send_seq c \<noteq> sq" "send_seq c \<in> K"
  obtains ring' g' where "gw_receive env fd [data_frame c payload] (ring, g) = Some (ring', g')" "ring_inv n ring'" "ring_contents ring' = []"
    "gw_holds fd sq K g'" "gw_out g' = gw_out g" "gw_handled g' = gw_handled g" "gw_live g' = gw_live g" "gw_pool g' = gw_pool g"
proof -
  obtain ctx where ctx: "map_of (gw_conns g) fd = Some ctx" "sorted_map (segments (cx_reassembly ctx))"
    "fst ` set (segments (cx_reassembly ctx)) \<subseteq> K" "recv_seq (cx_tcp ctx) = sq" "window_size (cx_tcp ctx) = 65535"
    using assms(6) by (auto simp: gw_holds_def)
  let ?l = "of_nat (length payload) :: size_type"
  obtain ring' m where r: "gw_receive env fd [data_frame c payload] (ring, g) =
      (case gw_data env fd (ring_size ring') (send_seq c) (ge_buf env + 20) ?l ctx (g\<lparr>gw_mem := m, gw_popped := Suc (gw_popped g)\<rparr>) of
         None \<Rightarrow> None | Some (ctx, g) \<Rightarrow> Some (ring', gw_store fd ctx g))"
    "ring_inv n ring'" "ring_contents ring' = []"
    by (rule gw_frame_arrives [where c = c, OF assms(1-5) ctx(1) assms(7,8)])
  let ?g = "g\<lparr>gw_mem := m, gw_popped := Suc (gw_popped g)\<rparr>"
  obtain ok b where i: "reassembly_insert (gw_mem ?g) (send_seq c) (ge_buf env + 20) ?l (cx_reassembly ctx) = (ok, b)" by fastforce
  note sp = insert_spec [OF ctx(2) i]
  have keys: "sorted_map (segments b)" "fst ` set (segments b) \<subseteq> K" using sp ctx(3) assms(10) by (auto split: if_splits)
  obtain ctx' g' where bf: "gw_buffer (send_seq c) (ge_buf env + 20) ?l ctx ?g = (ctx', g')" by fastforce
  have "unat ?l = length payload" using assms(8) by (simp add: unat_of_nat_small)
  then have "0 < ?l" using assms(7) by (simp add: word_less_nat_alt)
  then have "gw_receive env fd [data_frame c payload] (ring, g) = Some (ring', gw_store fd ctx' g')"
    using r(1) bf assms(9) ctx(4) by (simp add: gw_data_def)
  moreover have "cx_tcp ctx' = cx_tcp ctx" "cx_reassembly ctx' = b" "gw_out g' = gw_out g" "gw_handled g' = gw_handled g" "gw_live g' = gw_live g"
    "gw_pool g' = gw_pool g"
    using bf i by (auto simp: gw_buffer_def Let_def split: if_splits)
  ultimately show ?thesis using r(2,3) ctx(4,5) keys
    by (intro that [of ring' "gw_store fd ctx' g'"]) (simp_all add: gw_store_def gw_holds_def update_conv')
qed

text \<open>
  One read must return one frame. When a frame of a request and its retransmission are returned by the same read, the second one counts as
  payload of the first: the request is answered, but the connection then expects a number 100 further on, and the next order, 40 further
  on, is buffered and not answered.
\<close>

lemma coalesced_read_stalls:
  assumes "ring_inv (Suc (Suc n)) ring" and "ring_contents ring = []" and "0 \<le> fd" "fd < 65536" and "\<forall>i. \<not> ge_drop env i"
    and "gw_ready env b g" and "gw_expects fd (send_seq c) g" and "unat (send_seq c) + 100 < 2 ^ 32" and "send_seq c' = send_seq c + 40"
    and "frame = data_frame c (OrderRequest_bytes pad req)"
  shows "\<exists>ring' g' answer. gw_receive env fd [frame @ frame, data_frame c' (OrderRequest_bytes pad req')] (ring, g) = Some (ring', g') \<and>
    gw_out g' = gw_out g @ [Wrote fd answer] \<and> gw_holds fd (send_seq c + 100) {k. k < send_seq c + 100} g'"
proof -
  let ?pl = "OrderRequest_bytes pad req" and ?sq = "send_seq c + 100"
  obtain ctx where ctx: "map_of (gw_conns g) fd = Some ctx" "sorted_map (segments (cx_reassembly ctx))"
    "fst ` set (segments (cx_reassembly ctx)) \<subseteq> {k. k < send_seq c}" "recv_seq (cx_tcp ctx) = send_seq c"
    "window_size (cx_tcp ctx) = 65535" using assms(7) by (auto simp: gw_expects_def gw_holds_def)
  have len: "length (?pl @ frame) = 100" by (simp add: assms(10))
  obtain ring1 m where r: "gw_receive env fd [data_frame c ?pl @ frame] (ring, g) =
      (case gw_data env fd (ring_size ring1) (send_seq c) (ge_buf env + 20) (of_nat (length (?pl @ frame))) ctx
          (g\<lparr>gw_mem := m, gw_popped := Suc (gw_popped g)\<rparr>) of None \<Rightarrow> None | Some (ctx, g) \<Rightarrow> Some (ring1, gw_store fd ctx g))"
    "ring_inv (Suc n) ring1" "ring_contents ring1 = []" "mem_read m (ge_buf env + 20) (length (?pl @ frame)) = ?pl @ frame"
    by (rule gw_frame_prefix [where payload = ?pl and c = c and extra = frame, OF assms(1-5) ctx(1)]) (use len in simp_all)
  let ?g = "g\<lparr>gw_mem := m, gw_popped := Suc (gw_popped g)\<rparr>" and ?ctx = "ctx\<lparr>cx_tcp := (cx_tcp ctx)\<lparr>recv_seq := ?sq\<rparr>\<rparr>"
  have ready: "gw_ready env b ?g" using assms(6) by (simp add: gw_ready_def)
  obtain accepted live where a: "apply_order (OrderRequest_of_bytes (?pl @ frame)) (gw_live ?g) = (accepted, live)" by fastforce
  have tcp: "(cx_tcp ctx)\<lparr>recv_seq := ?sq\<rparr> = (cx_tcp ctx)\<lparr>recv_seq := recv_seq (cx_tcp ctx) + of_nat (length (?pl @ frame))\<rparr>"
    unfolding len by (simp add: ctx(4))
  have long: "40 \<le> length (?pl @ frame)" unfolding len by simp
  obtain g1 answer where g1: "process_order_payload env fd (ring_size ring1) (?pl @ frame) ctx ?g = Some (?ctx, g1)" "gw_out g1 = gw_out g @ [Wrote fd answer]"
    by (rule process_ok [OF ready long a tcp]) simp
  have up: "unat ?sq = unat (send_seq c) + 100" "unat (send_seq c + 40) = unat (send_seq c) + 40"
    using assms(8) by (subst unat_add_no_wrap; simp)+
  have old: "?sq \<notin> fst ` set (segments (cx_reassembly ctx))" "fst ` set (segments (cx_reassembly ctx)) \<subseteq> {k. k < ?sq}"
    using ctx(3) up(1) by (auto simp: word_less_nat_alt)
  have read: "mem_read m (ge_buf env + 20) (unat (100 :: size_type)) = ?pl @ frame" using r(4) unfolding len by simp
  have "gw_data env fd (ring_size ring1) (send_seq c) (ge_buf env + 20) 100 ctx ?g = Some (?ctx, g1)"
    using g1(1) read ctx(4) old(1) by (simp add: gw_data_def pop_absent)
  then have first: "gw_receive env fd [frame @ frame] (ring, g) = Some (ring1, gw_store fd ?ctx g1)"
    using r(1) unfolding len by (simp add: assms(10))
  have holds: "gw_holds fd ?sq {k. k < ?sq} (gw_store fd ?ctx g1)"
    using ctx(2,5) old(2) by (simp add: gw_holds_def gw_store_def update_conv')
  have later: "send_seq c' \<noteq> ?sq" "send_seq c' \<in> {k. k < ?sq}" using up assms(9) by (auto simp: word_less_nat_alt)
  obtain ring' g' where nx: "gw_receive env fd [data_frame c' (OrderRequest_bytes pad req')] (ring1, gw_store fd ?ctx g1) = Some (ring', g')"
    "gw_holds fd ?sq {k. k < ?sq} g'" "gw_out g' = gw_out (gw_store fd ?ctx g1)"
    by (rule gw_buffers_frame [OF r(2,3) assms(3-5) holds _ _ later, where payload = "OrderRequest_bytes pad req'"]) simp_all
  have "gw_receive env fd [frame @ frame, data_frame c' (OrderRequest_bytes pad req')] (ring, g) = Some (ring', g')"
    using gw_receive_append [of env fd "[frame @ frame]" "[data_frame c' (OrderRequest_bytes pad req')]" "(ring, g)"] first nx(1) by simp
  then show ?thesis using nx(2,3) g1(2) by (auto simp: gw_store_def)
qed

lemma gw_buffers_copies:
  assumes "0 \<le> fd" "fd < 65536" and "\<forall>i. \<not> ge_drop env i" and "0 < length payload" "length payload \<le> 2028" and "send_seq c \<noteq> sq" "send_seq c \<in> K"
    and "ring_inv (k + n) ring" and "ring_contents ring = []" and "gw_holds fd sq K g"
  shows "\<exists>ring' g'. gw_receive env fd (replicate k (data_frame c payload)) (ring, g) = Some (ring', g') \<and> ring_inv n ring' \<and> ring_contents ring' = [] \<and>
    gw_holds fd sq K g' \<and> gw_out g' = gw_out g \<and> gw_handled g' = gw_handled g \<and> gw_live g' = gw_live g \<and> gw_pool g' = gw_pool g"
  using assms(8-10)
proof (induction k arbitrary: ring g)
  case (Suc k)
  have inv: "ring_inv (Suc (k + n)) ring" using Suc.prems(1) by simp
  obtain ring1 g1 where one: "gw_receive env fd [data_frame c payload] (ring, g) = Some (ring1, g1)" "ring_inv (k + n) ring1" "ring_contents ring1 = []"
    "gw_holds fd sq K g1" "gw_out g1 = gw_out g" "gw_handled g1 = gw_handled g" "gw_live g1 = gw_live g" "gw_pool g1 = gw_pool g"
    by (rule gw_buffers_frame [OF inv Suc.prems(2) assms(1-3) Suc.prems(3) assms(4-7)])
  have "gw_receive env fd (replicate (Suc k) (data_frame c payload)) (ring, g) = gw_receive env fd (replicate k (data_frame c payload)) (ring1, g1)"
    using one(1) gw_receive_append [of env fd "[data_frame c payload]" "replicate k (data_frame c payload)" "(ring, g)"] by simp
  with Suc.IH [OF one(2-4)] one(5-8) show ?case by simp
qed simp

section \<open>The client sends one request\<close>

text \<open>The client can send: it has a free block \<open>b\<close>, an open connection, nothing in flight and room in its windows.\<close>

definition oc_ready :: "client_env \<Rightarrow> ptr \<Rightarrow> order_client \<Rightarrow> bool" where
  "oc_ready env b c \<longleftrightarrow> (\<exists>free live. mp_inv (oc_pool c) (b # free) live) \<and> (ce_req env + 40 \<le> b \<or> b + 20 \<le> ce_req env) \<and>
     0 \<le> oc_fd c \<and> oc_running c \<and> oc_outstanding c = [] \<and> oc_retrans_q c = [] \<and> cc_inv (oc_cc c) \<and> mss_bytes (oc_cc c) = 1200 \<and>
     40 \<le> unat (peer_window (oc_conn c))"

lemma oc_send_data:
  assumes "oc_ready env b c" and "ce_write env (oc_writes c) = Inl 60"
  obtains pool m where "oc_send env (\<lambda>block m. create_data (oc_conn c) (ce_req env) 40 block
        (mem_write m (ce_req env) (OrderRequest_bytes (ce_pad env) req))) c =
      Some (True, data_frame (oc_conn c) (OrderRequest_bytes (ce_pad env) req), c\<lparr>oc_pool := pool, oc_mem := m,
        oc_trace := oc_trace c @ [SysWrite (oc_fd c) (data_frame (oc_conn c) (OrderRequest_bytes (ce_pad env) req))], oc_writes := Suc (oc_writes c)\<rparr>)"
    "\<exists>free live. mp_inv pool (b # free) live"
proof -
  let ?pl = "OrderRequest_bytes (ce_pad env) req"
  from assms(1) obtain free live where inv: "mp_inv (oc_pool c) (b # free) live"
    and dis: "ce_req env + unat (40 :: size_type) \<le> b \<or> b + 20 \<le> ce_req env" and fd: "0 \<le> oc_fd c" by (auto simp: oc_ready_def)
  obtain p' p'' where p: "mp_allocate (oc_pool c) = Some (b, p')" "mp_deallocate b p' = Some p''" "mp_inv p'' (b # free) live" "b \<noteq> nullptr"
    by (rule mpool.borrow [OF inv])
  let ?m = "mem_write (oc_mem c) (ce_req env) ?pl"
  let ?m' = "seal_segment b (segment_header (local_port (oc_conn c)) (remote_port (oc_conn c)) (send_seq (oc_conn c)) (recv_seq (oc_conn c))
      24 (window_size (oc_conn c))) ?pl (local_ip (oc_conn c)) (remote_ip (oc_conn c)) ?m"
  have build: "create_data (oc_conn c) (ce_req env) 40 b ?m = (mk_Packet b 60 0, ?m')"
    using create_data_seal(1) [OF _ dis, of "oc_conn c" ?m] by simp
  have bytes: "pkt_bytes ?m' (mk_Packet b 60 0) = data_frame (oc_conn c) ?pl"
    using seal_bytes [where ps = ?pl and buffer = b] by (simp add: pkt_bytes_def data_frame_def)
  show ?thesis
    by (rule that [where pool = p'' and m = ?m'])
      (use p build bytes fd assms(2) in \<open>auto simp: oc_send_def oc_write_def tcp_write_to_def Let_def\<close>)
qed

lemma windows_open:
  assumes "oc_ready env b c"
  shows "can_send (oc_conn c) 40" "cc_can_send (oc_cc c) 0 40 (peer_window (oc_conn c))"
proof -
  have u: "unat (ucast x :: size_type) = unat x" for x :: u32 by (rule unat_ucast_up) simp
  have "40 \<le> unat (peer_window (oc_conn c))" "40 \<le> unat (cwnd_bytes (oc_cc c))" using assms by (auto simp: oc_ready_def cc_inv_def)
  then show "can_send (oc_conn c) 40" "cc_can_send (oc_cc c) 0 40 (peer_window (oc_conn c))"
    by (simp_all add: can_send_def cc_can_send_def word_le_nat_alt min_def u)
qed

text \<open>What a request of the client is about, and what drawing it leaves alone.\<close>

lemma client_request_sel:
  assumes "client_request env c = (req, c')"
  shows "or_client_order_id req = oc_order_id c" and "oc_order_id c' = oc_order_id c + 1" and "oc_shadow c' = oc_shadow c"
    and "oc_ready env b c' = oc_ready env b c" and "oc_conn c' = oc_conn c" and "oc_trace c' = oc_trace c" and "oc_reads c' = oc_reads c"
    and "oc_fd c' = oc_fd c" "oc_running c' = oc_running c" "oc_req_sent_total c' = oc_req_sent_total c" "oc_ack_recv_total c' = oc_ack_recv_total c"
    and "oc_writes c' = oc_writes c" "oc_outstanding c' = oc_outstanding c" "oc_cc c' = oc_cc c"
    and "or_action req = OrderAction_code New \<or> or_target_order_id req \<in> fst ` set (oc_shadow c) \<and>
      (or_action req = OrderAction_code Cancel \<or> or_action req = OrderAction_code Replace)"
proof -
  have c': "c' = c\<lparr>oc_order_id := oc_order_id c + 1, oc_draws := Suc (oc_draws c), oc_clocks := Suc (oc_clocks c)\<rparr>"
    using assms by (simp add: client_request_def oc_now_def Let_def)
  show "or_client_order_id req = oc_order_id c" using assms by (auto simp: client_request_def oc_now_def Let_def)
  show "oc_ready env b c' = oc_ready env b c" by (simp add: c' oc_ready_def)
  have target: "client_target env c \<in> fst ` set (oc_shadow c)" if "oc_shadow c \<noteq> []"
    using that by (auto simp: client_target_def)
  show "or_action req = OrderAction_code New \<or> or_target_order_id req \<in> fst ` set (oc_shadow c) \<and>
      (or_action req = OrderAction_code Cancel \<or> or_action req = OrderAction_code Replace)"
    using assms by (auto simp: client_request_def oc_now_def Let_def split: if_splits intro: target)
qed (use assms in \<open>simp_all add: client_request_def oc_now_def Let_def, auto\<close>)

lemma client_sends:
  assumes "oc_ready env b c" and "ce_write env (oc_writes c) = Inl 60" and "frame = data_frame (oc_conn c) (OrderRequest_bytes (ce_pad env) req)"
  obtains ts c' where "client_send env req c = Some (SendDone ts c')" "oc_trace c' = oc_trace c @ [SysWrite (oc_fd c) frame]"
    "oc_conn c' = (oc_conn c)\<lparr>send_seq := send_seq (oc_conn c) + 40\<rparr>" "oc_outstanding c' = [(send_seq (oc_conn c), frame)]"
    "\<exists>d. oc_retrans_q c' = [\<lparr>re_seq_start = send_seq (oc_conn c), re_seq_end = send_seq (oc_conn c) + 40, re_deadline_ms = d, re_retries = 0\<rparr>]"
    "\<exists>free live. mp_inv (oc_pool c') (b # free) live" "oc_shadow c' = oc_shadow c" "oc_cc c' = oc_cc c" "oc_fd c' = oc_fd c"
    "oc_running c'" "oc_reads c' = oc_reads c" "oc_order_id c' = oc_order_id c" "oc_req_sent_total c' = oc_req_sent_total c + 1"
    "oc_ack_recv_total c' = oc_ack_recv_total c"
proof -
  obtain pool m where s: "oc_send env (\<lambda>block m. create_data (oc_conn c) (ce_req env) 40 block
        (mem_write m (ce_req env) (OrderRequest_bytes (ce_pad env) req))) c =
      Some (True, frame, c\<lparr>oc_pool := pool, oc_mem := m, oc_trace := oc_trace c @ [SysWrite (oc_fd c) frame], oc_writes := Suc (oc_writes c)\<rparr>)"
    "\<exists>free live. mp_inv pool (b # free) live" unfolding assms(3) by (rule oc_send_data [OF assms(1,2)])
  let ?c = "c\<lparr>oc_pool := pool, oc_mem := m, oc_trace := oc_trace c @ [SysWrite (oc_fd c) frame], oc_writes := Suc (oc_writes c)\<rparr>"
  obtain ts c' where rc: "client_record env (send_seq (oc_conn c)) frame ?c = (ts, c')" by fastforce
  have old: "oc_outstanding c = []" "oc_retrans_q c = []" "oc_running c" using assms(1) by (auto simp: oc_ready_def)
  have snt: "client_send env req c = Some (SendDone ts c')"
    using windows_open [OF assms(1)] s(1) rc old by (simp add: client_send_def)
  have c': "oc_trace c' = oc_trace c @ [SysWrite (oc_fd c) frame]" "oc_conn c' = (oc_conn c)\<lparr>send_seq := send_seq (oc_conn c) + 40\<rparr>"
    "oc_outstanding c' = [(send_seq (oc_conn c), frame)]" "oc_pool c' = pool" "oc_shadow c' = oc_shadow c" "oc_cc c' = oc_cc c" "oc_fd c' = oc_fd c"
    "oc_running c'" "oc_reads c' = oc_reads c" "oc_order_id c' = oc_order_id c" "oc_req_sent_total c' = oc_req_sent_total c + 1"
    "oc_ack_recv_total c' = oc_ack_recv_total c"
    "\<exists>d. oc_retrans_q c' = [\<lparr>re_seq_start = send_seq (oc_conn c), re_seq_end = send_seq (oc_conn c) + 40, re_deadline_ms = d, re_retries = 0\<rparr>]"
    using rc old by (auto simp: client_record_def oc_now_def track_segment_def Let_def)
  show ?thesis by (rule that [OF snt]) (use c' s(2) in simp_all)
qed

section \<open>The client takes the answer\<close>

lemma window_wide: "th_window h = of_le [x, ucast (drop_bit 8 (65535 :: u16))] \<Longrightarrow> 40 \<le> unat (th_window h)"
  by (simp add: unat_of_le_2 del: of_le.simps)

text \<open>
  The client waits for the answer to the frame it wrote at \<open>sq\<close>: the segment is in its queue, or was given up after the last retry.
\<close>

definition oc_waiting :: "u32 \<Rightarrow> u8 list \<Rightarrow> order_client \<Rightarrow> bool" where
  "oc_waiting sq frame c \<longleftrightarrow> cc_inv (oc_cc c) \<and> mss_bytes (oc_cc c) = 1200 \<and>
     (oc_outstanding c = [(sq, frame)] \<and> (\<exists>e. oc_retrans_q c = [e] \<and> re_seq_start e = sq \<and> re_seq_end e = sq + 40) \<or>
      oc_outstanding c = [] \<and> oc_retrans_q c = [])"

lemma oc_waiting_cong:
  "oc_cc c' = oc_cc c \<Longrightarrow> oc_outstanding c' = oc_outstanding c \<Longrightarrow> oc_retrans_q c' = oc_retrans_q c \<Longrightarrow> oc_waiting sq frame c' = oc_waiting sq frame c"
  by (simp add: oc_waiting_def)

lemma client_acked_ok:
  assumes "oc_waiting sq frame c"
  obtains c' cc where "client_acked (sq + 40) window c = Some c'"
    "c' = c\<lparr>oc_conn := (on_window_update (oc_conn c) window)\<lparr>recv_ack := sq + 40\<rparr>, oc_retrans_q := [], oc_cc := cc, oc_outstanding := []\<rparr>"
    "cc_inv cc" "mss_bytes cc = mss_bytes (oc_cc c)"
proof -
  from assms obtain k :: size_type where k: "ack_up_to (sq + 40) (oc_retrans_q c) = (k, [])" "k = 0 \<or> k = 1"
    "filter (\<lambda>(s, _). \<not> s + 40 \<le> sq + 40) (oc_outstanding c) = []"
    by (auto simp: oc_waiting_def ack_up_to_def)
  have "unat (k * 40) \<le> 2 ^ 20" using k(2) by auto
  from cc_on_ack_ok [OF _ this] assms obtain cc where cc: "cc_on_ack (k * 40) (oc_cc c) = Some cc" "cc_inv cc" "mss_bytes cc = mss_bytes (oc_cc c)"
    unfolding oc_waiting_def by blast
  show ?thesis by (rule that [of _ cc]) (use k cc in \<open>simp_all add: client_acked_def\<close>)
qed

lemma alist_delete_keys: "fst ` set (AList.delete k al) = fst ` set al - {k}"
  by (induction al) auto

lemma book_keys:
  assumes "or_action req = OrderAction_code New \<or> or_target_order_id req \<in> fst ` set (oc_shadow c) \<and>
      (or_action req = OrderAction_code Cancel \<or> or_action req = OrderAction_code Replace)"
  shows "apply_order req (fst ` set (oc_shadow c)) = (True, fst ` set (oc_shadow (client_book req rtt c)))"
proof -
  have upd: "k \<in> fst ` set xs \<Longrightarrow> insert k (fst ` set xs) = fst ` set xs" for k :: u64 and xs :: "(u64 \<times> OrderRequest) list" by blast
  consider "or_action req = OrderAction_code New" | "or_action req = OrderAction_code Cancel" "or_target_order_id req \<in> fst ` set (oc_shadow c)"
    | "or_action req = OrderAction_code Replace" "or_target_order_id req \<in> fst ` set (oc_shadow c)" using assms by blast
  then show ?thesis
    by cases (simp_all add: apply_order_def client_book_def Let_def dom_update alist_delete_keys upd split: option.split)
qed

lemma book_kept [simp]:
  "oc_pool (client_book req rtt c) = oc_pool c" "oc_fd (client_book req rtt c) = oc_fd c" "oc_running (client_book req rtt c) = oc_running c"
  "oc_cc (client_book req rtt c) = oc_cc c" "oc_order_id (client_book req rtt c) = oc_order_id c" "oc_reads (client_book req rtt c) = oc_reads c"
  "oc_req_sent_total (client_book req rtt c) = oc_req_sent_total c" "oc_ack_recv_total (client_book req rtt c) = oc_ack_recv_total c"
  by (simp_all add: client_book_def Let_def split: option.split)

lemma book_shadow: "oc_shadow c' = oc_shadow c \<Longrightarrow> oc_shadow (client_book req rtt c') = oc_shadow (client_book req 0 c)"
  by (simp add: client_book_def Let_def split: option.split)

lemma client_takes_answer:
  assumes "oc_waiting sq frame c" and "recv_seq tcp = sq + 40" "window_size tcp = 65535" and "length payload \<le> 2028"
  obtains c' where "client_ack env req ts (data_frame tcp payload) c = Some (True, c')"
    "oc_pool c' = oc_pool c" "oc_fd c' = oc_fd c" "oc_running c' = oc_running c" "oc_outstanding c' = []" "oc_retrans_q c' = []"
    "cc_inv (oc_cc c')" "mss_bytes (oc_cc c') = 1200" "40 \<le> unat (peer_window (oc_conn c'))" "send_seq (oc_conn c') = send_seq (oc_conn c)"
    "oc_order_id c' = oc_order_id c" "oc_reads c' = oc_reads c" "oc_trace c' = oc_trace c" "oc_req_sent_total c' = oc_req_sent_total c"
    "oc_ack_recv_total c' = oc_ack_recv_total c + 1" "oc_shadow c' = oc_shadow (client_book req 0 c)"
proof -
  let ?bs = "data_frame tcp payload"
  let ?c = "c\<lparr>oc_mem := mem_write (oc_mem c) (ce_ackbuf env) ?bs\<rparr>"
  have mem: "mem_read (oc_mem ?c) (ce_ackbuf env) (20 + length payload) = ?bs" by simp
  obtain h where h: "parse (oc_mem ?c) (mk_Packet (ce_ackbuf env) (of_nat (20 + length payload)) 0) = Some (h, ce_ackbuf env + 20, of_nat (length payload))"
    "\<not> is_malformed_header h" "has_ack h" "th_ack_num h = recv_seq tcp" "\<exists>x. th_window h = of_le [x, ucast (drop_bit 8 (window_size tcp))]"
    by (rule parse_data_frame [OF mem assms(4)])
  have w: "40 \<le> unat (th_window h)" using h(5) assms(3) window_wide by auto
  have old: "oc_waiting sq frame ?c" "mss_bytes (oc_cc c) = 1200" using assms(1) by (simp_all add: oc_waiting_def)
  obtain c1 cc where c1: "client_acked (sq + 40) (th_window h) ?c = Some c1"
    "c1 = ?c\<lparr>oc_conn := (on_window_update (oc_conn ?c) (th_window h))\<lparr>recv_ack := sq + 40\<rparr>, oc_retrans_q := [], oc_cc := cc, oc_outstanding := []\<rparr>"
    "cc_inv cc" "mss_bytes cc = mss_bytes (oc_cc ?c)" by (rule client_acked_ok [OF old(1)])
  have "unat (ucast (th_window h) :: u32) = unat (th_window h)" by (rule unat_ucast_up) simp
  with w have pw: "40 \<le> unat (peer_window (oc_conn c1))" by (simp add: c1(2) on_window_update_def)
  let ?rtt = "(ce_clock env (oc_clocks c1) - ts) div 1000"
  let ?c2 = "c1\<lparr>oc_rto_estimator := sample_rtt (of_int (max 1 (?rtt div 1000))) (oc_rto_estimator c1),
     oc_rtt_us_samples := oc_rtt_us_samples c1 @ [of_int ?rtt], oc_ack_recv_total := oc_ack_recv_total c1 + 1,
     oc_tracer := snd (should_emit (oc_tracer c1)), oc_clocks := Suc (Suc (oc_clocks c1)), oc_last_activity := ce_clock env (Suc (oc_clocks c1))\<rparr>"
  have a: "client_ack env req ts ?bs c = Some (True, client_book req ?rtt ?c2)"
    using h(1-4) c1(1) assms(2) by (simp add: client_ack_def oc_now_def Let_def)
  have "oc_shadow (client_book req ?rtt ?c2) = oc_shadow (client_book req 0 c)" by (rule book_shadow) (simp add: c1(2))
  then show ?thesis by (intro that [OF a]) (use c1(3,4) pw old(2) in \<open>simp_all\<close>, simp_all add: c1(2) on_window_update_def)
qed

section \<open>The client waits\<close>

text \<open>What a frame on the wire is to the peer: the bytes of the writes of a trace.\<close>

definition written :: "int \<Rightarrow> sys_event list \<Rightarrow> u8 list list" where
  "written fd es = concat (map (\<lambda>e. case e of SysWrite f bs \<Rightarrow> if f = fd then [bs] else [] | _ \<Rightarrow> []) es)"

lemma written_simps [simp]:
  "written fd [] = []" "written fd (es @ es') = written fd es @ written fd es'"
  "written fd (SysWrite f bs # es) = (if f = fd then bs # written fd es else written fd es)" "written fd (SysRead f n # es) = written fd es"
  by (simp_all add: written_def)

text \<open>What waiting leaves alone.\<close>

definition oc_same :: "order_client \<Rightarrow> order_client \<Rightarrow> bool" where
  "oc_same c c' \<longleftrightarrow> oc_pool c' = oc_pool c \<and> oc_fd c' = oc_fd c \<and> oc_running c' = oc_running c \<and> oc_conn c' = oc_conn c \<and>
     oc_shadow c' = oc_shadow c \<and> oc_order_id c' = oc_order_id c \<and> oc_req_sent_total c' = oc_req_sent_total c \<and>
     oc_ack_recv_total c' = oc_ack_recv_total c"

text \<open>
  A timeout: the overdue segment is written once more, or it is not due yet, or it is given up.
\<close>

lemma client_tick_waiting:
  assumes "oc_waiting sq frame c" and "length frame = 60" and "\<forall>i. ce_write env i = Inl 60" and "0 \<le> oc_fd c" and "c' = client_tick env c"
  shows "oc_waiting sq frame c' \<and> oc_same c c' \<and> oc_reads c' = oc_reads c \<and> oc_loads c' = oc_loads c \<and>
    (\<exists>d. d \<le> 1 \<and> oc_trace c' = oc_trace c @ replicate d (SysWrite (oc_fd c) frame))"
proof -
  have loss: "cc_inv (cc_on_loss (oc_cc c))" "mss_bytes (cc_on_loss (oc_cc c)) = 1200" "cc_inv (oc_cc c)" "mss_bytes (oc_cc c) = 1200"
    using assms(1) cc_on_loss_inv [of "oc_cc c"] by (auto simp: oc_waiting_def cc_on_loss_def)
  let ?now = "to_ms (ce_clock env (oc_clocks c))"
  consider (gone) "oc_outstanding c = []" "oc_retrans_q c = []"
    | (kept) e where "oc_outstanding c = [(sq, frame)]" "oc_retrans_q c = [e]" "re_seq_start e = sq" "re_seq_end e = sq + 40" "\<not> re_deadline_ms e \<le> ?now"
    | (dropped) e where "oc_outstanding c = [(sq, frame)]" "oc_retrans_q c = [e]" "re_seq_start e = sq" "re_deadline_ms e \<le> ?now" "re_retries e \<ge> 5"
    | (sent) e where "oc_outstanding c = [(sq, frame)]" "oc_retrans_q c = [e]" "re_seq_start e = sq" "re_seq_end e = sq + 40" "re_deadline_ms e \<le> ?now" "\<not> re_retries e \<ge> 5"
    using assms(1) by (auto simp: oc_waiting_def)
  then show ?thesis
  proof cases
    case sent
    let ?c = "(client_sweep (c\<lparr>oc_clocks := Suc (oc_clocks c), oc_retrans_q := snd (collect_due ?now (rto_ms (oc_rto_estimator c)) 5 [e])\<rparr>))
        \<lparr>oc_cc := cc_on_loss (oc_cc c), oc_congestion_loss_total := oc_congestion_loss_total c + 1\<rparr>"
    have "c' = client_resend env e ?c"
      using sent assms(5) by (simp add: client_tick_def oc_now_def client_sweep_def Let_def)
    moreover have "oc_outstanding ?c = [(sq, frame)]" using sent by (simp add: client_sweep_def queue_contains_def Let_def)
    ultimately have "c' = ?c\<lparr>oc_trace := oc_trace c @ [SysWrite (oc_fd c) frame], oc_writes := Suc (oc_writes c),
        oc_retransmit_total := oc_retransmit_total c + 1\<rparr>"
      using sent assms(2-4) by (simp add: client_resend_def oc_write_def tcp_write_to_def client_sweep_def Let_def)
    then show ?thesis using loss sent
      by (simp add: oc_waiting_def oc_same_def client_sweep_def queue_contains_def Let_def exI [of _ "Suc 0"])
  qed (use assms(5) loss in \<open>simp_all add: client_tick_def oc_now_def client_sweep_def queue_contains_def oc_waiting_def oc_same_def Let_def exI [of _ 0]\<close>)
qed

section \<open>One order of a session\<close>

text \<open>Only \<^verbatim>\<open>read\<close> depends on what the other side sends.\<close>

lemma answers_irrelevant [simp]:
  "oc_now (env\<lparr>ce_read := r\<rparr>) = oc_now env" "oc_load (env\<lparr>ce_read := r\<rparr>) = oc_load env" "oc_write (env\<lparr>ce_read := r\<rparr>) = oc_write env"
  by (simp_all add: fun_eq_iff oc_now_def oc_load_def oc_write_def)

lemma answers_irrelevant_send [simp]:
  "oc_send (env\<lparr>ce_read := r\<rparr>) = oc_send env" "client_record (env\<lparr>ce_read := r\<rparr>) = client_record env"
  "client_target (env\<lparr>ce_read := r\<rparr>) = client_target env"
  by (simp_all add: fun_eq_iff oc_send_def client_record_def client_target_def Let_def split_beta cong: if_cong option.case_cong)

lemma answers_irrelevant_tick [simp]: "client_tick (env\<lparr>ce_read := r\<rparr>) = client_tick env"
proof -
  have "client_resend (env\<lparr>ce_read := r\<rparr>) = client_resend env"
    by (simp add: fun_eq_iff client_resend_def split: option.split)
  then show ?thesis by (intro ext) (simp only: client_tick_def answers_irrelevant)
qed

lemma answers_irrelevant_order [simp]:
  "client_request (env\<lparr>ce_read := r\<rparr>) = client_request env" "client_send (env\<lparr>ce_read := r\<rparr>) = client_send env"
  "client_ack (env\<lparr>ce_read := r\<rparr>) = client_ack env"
  by (simp_all add: fun_eq_iff client_request_def client_send_def client_ack_def Let_def split_beta cong: if_cong option.case_cong)

lemma oc_load_running:
  assumes "oc_running c" and "\<forall>i. \<not> ce_signal env i"
  shows "oc_load env c = (True, c\<lparr>oc_loads := Suc (oc_loads c)\<rparr>)"
proof -
  have "oc_running c = True" using assms(1) by simp
  then show ?thesis using assms(2) by (simp add: oc_load_def Let_def)
qed

text \<open>One read; and \<open>k\<close> reads that time out, each with what the client does then.\<close>

definition oc_took :: "order_client \<Rightarrow> order_client" where
  "oc_took c = c\<lparr>oc_loads := Suc (oc_loads c), oc_trace := oc_trace c @ [SysRead (oc_fd c) 256], oc_reads := Suc (oc_reads c)\<rparr>"

fun oc_idle :: "client_env \<Rightarrow> nat \<Rightarrow> order_client \<Rightarrow> order_client" where
  "oc_idle env 0 c = c"
| "oc_idle env (Suc k) c = oc_idle env k (client_tick env (oc_took c))"

lemma oc_took_sel [simp]:
  "oc_waiting sq frame (oc_took c) = oc_waiting sq frame c" "oc_same c0 (oc_took c) = oc_same c0 c" "oc_same (oc_took c) c0 = oc_same c c0" "oc_reads (oc_took c) = Suc (oc_reads c)"
  "oc_fd (oc_took c) = oc_fd c" "oc_running (oc_took c) = oc_running c" "oc_trace (oc_took c) = oc_trace c @ [SysRead (oc_fd c) 256]"
  by (simp_all add: oc_took_def oc_waiting_def oc_same_def)

lemma oc_same_trans: "oc_same c c' \<Longrightarrow> oc_same c' c'' \<Longrightarrow> oc_same c c''"
  by (simp add: oc_same_def)

lemma oc_idle_spec:
  assumes "length frame = 60" and "\<forall>i. ce_write env i = Inl 60"
    and "oc_waiting sq frame c" and "0 \<le> oc_fd c"
  shows "oc_waiting sq frame (oc_idle env k c) \<and> oc_same c (oc_idle env k c) \<and> oc_reads (oc_idle env k c) = oc_reads c + k \<and>
    (\<exists>es d. d \<le> k \<and> oc_trace (oc_idle env k c) = oc_trace c @ es \<and> written (oc_fd c) es = replicate d frame)"
  using assms(3,4)
proof (induction k arbitrary: c)
  case 0
  then show ?case by (simp add: oc_same_def)
next
  case (Suc k)
  define c1 where "c1 = client_tick env (oc_took c)"
  obtain d where t: "oc_waiting sq frame c1" "oc_same c c1" "oc_reads c1 = Suc (oc_reads c)" "d \<le> 1"
    "oc_trace c1 = oc_trace c @ [SysRead (oc_fd c) 256] @ replicate d (SysWrite (oc_fd c) frame)"
    using client_tick_waiting [OF _ assms(1,2) _ c1_def, of sq] Suc.prems by auto
  have fd: "oc_fd c1 = oc_fd c" using t(2) by (simp add: oc_same_def)
  obtain es d' where IH: "oc_waiting sq frame (oc_idle env k c1)" "oc_same c1 (oc_idle env k c1)" "oc_reads (oc_idle env k c1) = oc_reads c1 + k"
    "d' \<le> k" "oc_trace (oc_idle env k c1) = oc_trace c1 @ es" "written (oc_fd c) es = replicate d' frame"
    using Suc.IH [OF t(1)] Suc.prems(2) fd by auto
  let ?es = "[SysRead (oc_fd c) 256] @ replicate d (SysWrite (oc_fd c) frame) @ es"
  have w: "written (oc_fd c) (replicate d (SysWrite (oc_fd c) frame)) = replicate d frame" by (induction d) simp_all
  have "oc_trace (oc_idle env k c1) = oc_trace c @ ?es" "written (oc_fd c) ?es = replicate (d + d') frame" "d + d' \<le> Suc k"
    using IH(4-6) t(4,5) w by (simp_all add: replicate_add)
  then have "\<exists>es d. d \<le> Suc k \<and> oc_trace (oc_idle env k c1) = oc_trace c @ es \<and> written (oc_fd c) es = replicate d frame" by blast
  moreover have "oc_reads (oc_idle env k c1) = oc_reads c + Suc k" using IH(3) t(3) by simp
  ultimately show ?case unfolding oc_idle.simps c1_def [symmetric] using IH(1) oc_same_trans [OF t(2) IH(2)] by blast
qed

lemma client_wait_delayed:
  assumes "\<forall>i. \<not> ce_signal env i" and "length frame = 60" and "\<forall>i. ce_write env i = Inl 60"
    and "oc_waiting sq frame c" and "0 \<le> oc_fd c" and "oc_running c"
    and "\<forall>j < k. r (oc_reads c + j) \<in> {Inr 11, Inr 4}" and "r (oc_reads c + k) = Inl answer" and "answer \<noteq> []"
  shows "client_wait (env\<lparr>ce_read := r\<rparr>) c = Some (Some answer, oc_took (oc_idle env k c))"
  using assms(4-8)
proof (induction k arbitrary: c)
  case 0
  then show ?case using assms(9) oc_load_running [OF _ assms(1)]
    by (simp add: client_wait.simps [of "env\<lparr>ce_read := r\<rparr>"] oc_read_def oc_took_def tcp_read_from_def)
next
  case (Suc k)
  have r0: "r (oc_reads c) = Inr 11 \<or> r (oc_reads c) = Inr 4" using Suc.prems(4) by force
  let ?c = "client_tick env (oc_took c)"
  have "client_wait (env\<lparr>ce_read := r\<rparr>) c = client_wait (env\<lparr>ce_read := r\<rparr>) ?c"
    using r0 Suc.prems(2) oc_load_running [OF Suc.prems(3) assms(1)]
    by (auto simp: client_wait.simps [of "env\<lparr>ce_read := r\<rparr>" c] oc_read_def oc_took_def tcp_read_from_def)
  moreover have t: "oc_waiting sq frame ?c" "oc_same c ?c" "oc_reads ?c = Suc (oc_reads c)"
    using client_tick_waiting [OF _ assms(2,3) _ refl, of sq "oc_took c"] Suc.prems by auto
  moreover have "client_wait (env\<lparr>ce_read := r\<rparr>) ?c = Some (Some answer, oc_took (oc_idle env k ?c))"
  proof (rule Suc.IH [OF t(1)])
    show "0 \<le> oc_fd ?c" "oc_running ?c" using t(2) Suc.prems(2,3) by (simp_all add: oc_same_def)
    show "\<forall>j < k. r (oc_reads ?c + j) \<in> {Inr 11, Inr 4}" using Suc.prems(4) t(3) by (metis Suc_less_eq add_Suc_shift)
    show "r (oc_reads ?c + k) = Inl answer" using Suc.prems(5) t(3) by simp
  qed
  ultimately show ?case by simp
qed

lemma client_order_answered:
  assumes "client_request env c = (req, c1)" and "client_send env req c1 = Some (SendDone ts c2)" and "oc_running c2" and "0 \<le> oc_fd c2"
    and "\<forall>i. \<not> ce_signal env i" and "length frame = 60" and "\<forall>i. ce_write env i = Inl 60" and "oc_waiting sq frame c2"
    and "\<forall>j < k. r (oc_reads c2 + j) \<in> {Inr 11, Inr 4}" and "r (oc_reads c2 + k) = Inl answer" and "answer \<noteq> []"
    and "c3 = oc_took (oc_idle env k (c2\<lparr>oc_mem := mem_write (oc_mem c2) (ce_ackbuf env) (replicate 256 0)\<rparr>))"
  shows "client_order (env\<lparr>ce_read := r\<rparr>) c = client_ack env req ts answer (c3\<lparr>oc_loads := Suc (oc_loads c3)\<rparr>)"
proof -
  let ?c2 = "c2\<lparr>oc_mem := mem_write (oc_mem c2) (ce_ackbuf env) (replicate 256 0)\<rparr>"
  have w: "oc_waiting sq frame ?c2" using assms(8) by (simp add: oc_waiting_def)
  have "client_wait (env\<lparr>ce_read := r\<rparr>) ?c2 = Some (Some answer, c3)"
    unfolding assms(12) by (rule client_wait_delayed [OF assms(5-7) w]) (use assms(3,4,9-11) in simp_all)
  moreover have "oc_running c3" using oc_idle_spec [OF assms(6,7) w, of k] assms(3,4,12) by (simp add: oc_same_def)
  ultimately show ?thesis using assms(1,2) oc_load_running [OF _ assms(5), of c3] by (simp add: client_order_def)
qed

text \<open>
  A session with room for \<open>n\<close> more frames: both sides are ready and idle, the gateway expects the number the client sends next,
  and the client's shadow book has the orders that are live at the gateway.
\<close>

definition session :: "client_env \<Rightarrow> gateway_env \<Rightarrow> ptr \<Rightarrow> ptr \<Rightarrow> int \<Rightarrow> nat \<Rightarrow> order_client \<Rightarrow> packet_ring \<Rightarrow> gateway \<Rightarrow> bool" where
  "session env genv bc bg fd n c ring g \<longleftrightarrow> oc_ready env bc c \<and> gw_ready genv bg g \<and> ring_inv n ring \<and> ring_contents ring = [] \<and>
     gw_expects fd (send_seq (oc_conn c)) g \<and> unat (send_seq (oc_conn c)) + 40 * n < 2 ^ 32 \<and> gw_live g = fst ` set (oc_shadow c)"

text \<open>The gateway on the frame of a request and \<open>d\<close> copies of it: one answer.\<close>

lemma gateway_answers_once:
  assumes "ring_inv (Suc d + n) ring" and "ring_contents ring = []" and "0 \<le> fd" "fd < 65536" and "\<forall>i. \<not> ge_drop env i"
    and "gw_ready env b g" and "gw_expects fd (send_seq c) g" and "unat (send_seq c) + 40 < 2 ^ 32"
    and "apply_order req (gw_live g) = (accepted, live)" and "frame = data_frame c (OrderRequest_bytes pad req)"
  obtains ring' g' tcp where "gw_receive env fd (frame # replicate d frame) (ring, g) = Some (ring', g')"
    "ring_inv n ring'" "ring_contents ring' = []" "gw_ready env b g'" "gw_expects fd (send_seq c + 40) g'" "gw_live g' = live"
    "gw_out g' = gw_out g @ [Wrote fd (ack_frame env tcp (order_ack req accepted))]"
    "recv_seq tcp = send_seq c + 40" "window_size tcp = 65535"
proof -
  have inv: "ring_inv (Suc (d + n)) ring" using assms(1) by simp
  obtain ring1 g1 tcp where one: "gw_receive env fd [frame] (ring, g) = Some (ring1, g1)" "ring_inv (d + n) ring1" "ring_contents ring1 = []"
    "gw_ready env b g1" "gw_expects fd (send_seq c + 40) g1" "gw_live g1 = live"
    "gw_out g1 = gw_out g @ [Wrote fd (ack_frame env tcp (order_ack req accepted))]" "recv_seq tcp = send_seq c + 40" "window_size tcp = 65535"
    unfolding assms(10) by (rule gateway_answers [OF inv assms(2-9)])
  have sq: "send_seq c < send_seq c + 40" using assms(8) unat_add_no_wrap [of "send_seq c" 40] by (simp add: word_less_nat_alt)
  have dup: "0 < length (OrderRequest_bytes pad req)" "length (OrderRequest_bytes pad req) \<le> 2028" "send_seq c \<noteq> send_seq c + 40" "send_seq c \<in> {k. k < send_seq c + 40}"
    using sq by auto
  obtain ring' g' where r: "gw_receive env fd (replicate d frame) (ring1, g1) = Some (ring', g')" "ring_inv n ring'" "ring_contents ring' = []"
    "gw_expects fd (send_seq c + 40) g'" "gw_out g' = gw_out g1" "gw_live g' = gw_live g1" "gw_pool g' = gw_pool g1"
    using gw_buffers_copies [OF assms(3-5) dup one(2,3) one(5) [unfolded gw_expects_def]] unfolding assms(10) gw_expects_def by blast
  have "gw_receive env fd (frame # replicate d frame) (ring, g) = Some (ring', g')"
    using gw_receive_append [of env fd "[frame]" "replicate d frame" "(ring, g)"] one(1) r(1) by simp
  then show ?thesis using r one gw_ready_cong [OF r(7)] by (intro that [of ring' g' tcp]) simp_all
qed

text \<open>
  One order whose answer the client reads after \<open>k\<close> timeouts: it may have written the frame up to \<open>k\<close> times more.
\<close>

lemma session_order:
  assumes "session env genv bc bg fd (Suc k + n) c ring g" and "\<forall>i. \<not> ce_signal env i" and "\<forall>i. ce_write env i = Inl 60"
    and "0 \<le> fd" "fd < 65536" and "\<forall>i. \<not> ge_drop genv i"
  obtains es answer c' ring' g' where "session env genv bc bg fd n c' ring' g'"
    "gw_receive genv fd (written (oc_fd c) es) (ring, g) = Some (ring', g')" "gw_out g' = gw_out g @ [Wrote fd answer]"
    "oa_client_order_id (OrderAck_of_bytes (drop 20 answer)) = oc_order_id c" "oa_accepted (OrderAck_of_bytes (drop 20 answer))"
    "oc_trace c' = oc_trace c @ es" "oc_reads c' = oc_reads c + k + 1" "oc_fd c' = oc_fd c"
    "oc_order_id c' = oc_order_id c + 1" "oc_req_sent_total c' = oc_req_sent_total c + 1" "oc_ack_recv_total c' = oc_ack_recv_total c + 1"
    "\<And>r. \<forall>j < k. r (oc_reads c + j) \<in> {Inr 11, Inr 4} \<Longrightarrow> r (oc_reads c + k) = Inl answer \<Longrightarrow> client_order (env\<lparr>ce_read := r\<rparr>) c = Some (True, c')"
proof -
  have inv: "oc_ready env bc c" "gw_ready genv bg g" "ring_inv (Suc k + n) ring" "ring_contents ring = []"
    "gw_expects fd (send_seq (oc_conn c)) g" "unat (send_seq (oc_conn c)) + 40 * (Suc k + n) < 2 ^ 32" "gw_live g = fst ` set (oc_shadow c)"
    using assms(1) by (simp_all add: session_def)
  obtain req c1 where rq: "client_request env c = (req, c1)" by fastforce
  note q = client_request_sel [OF rq]
  define frame where "frame = data_frame (oc_conn c) (OrderRequest_bytes (ce_pad env) req)"
  have rdy: "oc_ready env bc c1" "ce_write env (oc_writes c1) = Inl 60" "frame = data_frame (oc_conn c1) (OrderRequest_bytes (ce_pad env) req)"
    using inv(1) q(4,5) assms(3) by (simp_all add: frame_def)
  obtain ts c2 d where s: "client_send env req c1 = Some (SendDone ts c2)" "oc_trace c2 = oc_trace c1 @ [SysWrite (oc_fd c1) frame]"
    "oc_conn c2 = (oc_conn c1)\<lparr>send_seq := send_seq (oc_conn c1) + 40\<rparr>" "oc_outstanding c2 = [(send_seq (oc_conn c1), frame)]"
    "oc_retrans_q c2 = [\<lparr>re_seq_start = send_seq (oc_conn c1), re_seq_end = send_seq (oc_conn c1) + 40, re_deadline_ms = d, re_retries = 0\<rparr>]"
    "\<exists>free live. mp_inv (oc_pool c2) (bc # free) live" "oc_shadow c2 = oc_shadow c1" "oc_cc c2 = oc_cc c1" "oc_fd c2 = oc_fd c1"
    "oc_running c2" "oc_reads c2 = oc_reads c1" "oc_order_id c2 = oc_order_id c1" "oc_req_sent_total c2 = oc_req_sent_total c1 + 1"
    "oc_ack_recv_total c2 = oc_ack_recv_total c1"
    by (rule client_sends [OF rdy]) blast
  let ?c2 = "c2\<lparr>oc_mem := mem_write (oc_mem c2) (ce_ackbuf env) (replicate 256 0)\<rparr>" and ?sq = "send_seq (oc_conn c)"
  have cc: "cc_inv (oc_cc c)" "mss_bytes (oc_cc c) = 1200" "0 \<le> oc_fd c" using inv(1) by (auto simp: oc_ready_def)
  have len: "length frame = 60" by (simp add: frame_def)
  have w: "oc_waiting ?sq frame c2" "oc_waiting ?sq frame ?c2" "0 \<le> oc_fd c2" "0 \<le> oc_fd ?c2"
    using s(4,5,8,9) q cc by (simp_all add: oc_waiting_def)
  define c3 where "c3 = oc_took (oc_idle env k ?c2)"
  define c4 where "c4 = c3\<lparr>oc_loads := Suc (oc_loads c3)\<rparr>"
  obtain es0 d where id: "oc_waiting ?sq frame c4" "oc_same c2 c4" "oc_reads c4 = oc_reads c2 + k + 1" "d \<le> k"
    "oc_trace c4 = oc_trace c2 @ es0 @ [SysRead (oc_fd c) 256]" "written (oc_fd c) es0 = replicate d frame"
  proof -
    note sp = oc_idle_spec [OF len assms(3) w(2,4), of k]
    from sp obtain es0 d where "d \<le> k" "oc_trace (oc_idle env k ?c2) = oc_trace c2 @ es0" "written (oc_fd c) es0 = replicate d frame"
      using s(9) q(8) by auto
    moreover have "oc_same c2 c4" using sp by (simp add: c4_def c3_def oc_took_def oc_same_def)
    moreover have "oc_waiting ?sq frame c4" "oc_reads c4 = oc_reads c2 + k + 1"
      using sp by (simp_all add: c4_def c3_def oc_took_def oc_waiting_def)
    moreover have "oc_fd (oc_idle env k ?c2) = oc_fd c" using sp s(9) q(8) by (simp add: oc_same_def)
    ultimately show thesis by (intro that [of d es0]) (simp_all add: c4_def c3_def)
  qed
  let ?live = "fst ` set (oc_shadow (client_book req 0 c))"
  have ao: "apply_order req (gw_live g) = (True, ?live)" unfolding inv(7) by (rule book_keys [OF q(15)])
  have ring: "ring_inv (Suc d + n) ring" using inv(3) id(4) by (elim ring_inv_mono) simp
  have small: "unat ?sq + 40 < 2 ^ 32" using inv(6) by simp
  obtain ring' g' tcp where gw: "gw_receive genv fd (frame # replicate d frame) (ring, g) = Some (ring', g')" "ring_inv n ring'" "ring_contents ring' = []"
    "gw_ready genv bg g'" "gw_expects fd (?sq + 40) g'" "gw_live g' = ?live"
    "gw_out g' = gw_out g @ [Wrote fd (ack_frame genv tcp (order_ack req True))]" "recv_seq tcp = ?sq + 40" "window_size tcp = 65535"
    by (rule gateway_answers_once [OF ring inv(4) assms(4-6) inv(2,5) small ao frame_def])
  let ?payload = "OrderAck_bytes (ge_pad genv) (order_ack req True)"
  obtain c' where c': "client_ack env req ts (data_frame tcp ?payload) c4 = Some (True, c')"
    "oc_pool c' = oc_pool c4" "oc_fd c' = oc_fd c4" "oc_running c' = oc_running c4" "oc_outstanding c' = []" "oc_retrans_q c' = []"
    "cc_inv (oc_cc c')" "mss_bytes (oc_cc c') = 1200" "40 \<le> unat (peer_window (oc_conn c'))" "send_seq (oc_conn c') = send_seq (oc_conn c4)"
    "oc_order_id c' = oc_order_id c4" "oc_reads c' = oc_reads c4" "oc_trace c' = oc_trace c4" "oc_req_sent_total c' = oc_req_sent_total c4"
    "oc_ack_recv_total c' = oc_ack_recv_total c4 + 1" "oc_shadow c' = oc_shadow (client_book req 0 c4)"
    by (rule client_takes_answer [where tcp = tcp and payload = ?payload and env = env and req = req and ts = ts, OF id(1) gw(8,9)]) simp_all
  have same: "oc_pool c4 = oc_pool c2" "oc_fd c4 = oc_fd c2" "oc_running c4 = oc_running c2" "oc_conn c4 = oc_conn c2" "oc_shadow c4 = oc_shadow c2"
    "oc_order_id c4 = oc_order_id c2" "oc_req_sent_total c4 = oc_req_sent_total c2" "oc_ack_recv_total c4 = oc_ack_recv_total c2"
    using id(2) by (simp_all add: oc_same_def)
  have shadow: "oc_shadow c' = oc_shadow (client_book req 0 c)" unfolding c'(16) by (rule book_shadow) (simp add: same s(7) q(3))
  have "oc_ready env bc c'" unfolding oc_ready_def using c'(2-9) s(6,9,10) same inv(1) q(8) by (auto simp: oc_ready_def)
  moreover have "send_seq (oc_conn c') = ?sq + 40" "unat (?sq + 40) = unat ?sq + 40"
    using c'(10) s(3) q(5) same(4) small unat_add_no_wrap [of ?sq 40] by simp_all
  ultimately have ses: "session env genv bc bg fd n c' ring' g'"
    using gw(2-6) inv(6) by (simp add: session_def shadow)
  have run: "client_order (env\<lparr>ce_read := r\<rparr>) c = Some (True, c')"
    if r: "\<forall>j < k. r (oc_reads c + j) \<in> {Inr 11, Inr 4}" "r (oc_reads c + k) = Inl (ack_frame genv tcp (order_ack req True))" for r
  proof -
    have ne: "ack_frame genv tcp (order_ack req True) \<noteq> []" using ack_frame_payload(1) [of genv tcp "order_ack req True"] by auto
    have rd: "oc_reads c2 = oc_reads c" using s(11) q(7) by simp
    have "client_order (env\<lparr>ce_read := r\<rparr>) c = client_ack env req ts (ack_frame genv tcp (order_ack req True)) c4"
      unfolding c4_def by (rule client_order_answered [OF rq s(1,10) w(3) assms(2) len assms(3) w(1) _ _ ne c3_def]) (use r rd in simp_all)
    then show ?thesis using c'(1) by (simp add: ack_frame_data)
  qed
  let ?es = "SysWrite (oc_fd c) frame # es0 @ [SysRead (oc_fd c) 256]"
  have "written (oc_fd c) ?es = frame # replicate d frame" using id(6) by simp
  with gw(1) have recv: "gw_receive genv fd (written (oc_fd c) ?es) (ring, g) = Some (ring', g')" by simp
  show ?thesis
    by (rule that [OF ses recv gw(7) _ _ _ _ _ _ _ _ run]) (use c'(3,11-15) s q id(3,5) same in \<open>simp_all add: ack_frame_payload order_ack_def\<close>)
qed

section \<open>A burst\<close>

text \<open>
  What the client reads from its \<open>i\<close>-th read on: before each answer as many timeouts (\<^verbatim>\<open>EAGAIN\<close>) or interruptions (\<^verbatim>\<open>EINTR\<close>) as \<open>ks\<close> says.
\<close>

fun delayed :: "nat list \<Rightarrow> u8 list list \<Rightarrow> (nat \<Rightarrow> u8 list + int) \<Rightarrow> nat \<Rightarrow> bool" where
  "delayed [] [] r i \<longleftrightarrow> True"
| "delayed (k # ks) (a # as) r i \<longleftrightarrow> (\<forall>j < k. r (i + j) \<in> {Inr 11, Inr 4}) \<and> r (i + k) = Inl a \<and> delayed ks as r (i + k + 1)"
| "delayed _ _ r i \<longleftrightarrow> False"

text \<open>What a burst of \<open>n\<close> orders promises of the client before and after it and of what was exchanged.\<close>

definition exchanged :: "nat \<Rightarrow> order_client \<Rightarrow> order_client \<Rightarrow> u8 list list \<Rightarrow> bool" where
  "exchanged n c c' answers \<longleftrightarrow> length answers = n \<and> oc_fd c' = oc_fd c \<and>
     map oa_client_order_id (acks_in answers) = map (\<lambda>i. oc_order_id c + of_nat i) [0..<n] \<and>
     (\<forall>a \<in> set (acks_in answers). oa_accepted a) \<and>
     oc_req_sent_total c' = oc_req_sent_total c + of_nat n \<and> oc_ack_recv_total c' = oc_ack_recv_total c + of_nat n"

lemma exchanged_Suc:
  assumes "exchanged n c1 c' answers"
    and "oa_client_order_id (OrderAck_of_bytes (drop 20 answer)) = oc_order_id c" "oa_accepted (OrderAck_of_bytes (drop 20 answer))"
    and "oc_fd c1 = oc_fd c" "oc_order_id c1 = oc_order_id c + 1" "oc_req_sent_total c1 = oc_req_sent_total c + 1"
    "oc_ack_recv_total c1 = oc_ack_recv_total c + 1"
  shows "exchanged (Suc n) c c' (answer # answers)"
proof -
  have "map (\<lambda>i. oc_order_id c + of_nat i) [0..<Suc n] = oc_order_id c # map (\<lambda>i. oc_order_id c1 + of_nat i) [0..<n]"
    by (simp add: upt_conv_Cons map_Suc_upt [symmetric] assms(5) add.assoc comp_def del: upt_Suc)
  then show ?thesis using assms by (auto simp: exchanged_def acks_in_def simp del: upt_Suc)
qed

lemma session_burst:
  assumes "\<forall>i. \<not> ce_signal env i" and "\<forall>i. ce_write env i = Inl 60" and "0 \<le> fd" "fd < 65536" and "\<forall>i. \<not> ge_drop genv i"
    and "session env genv bc bg fd (sum_list (map Suc ks)) c ring g"
  shows "\<exists>es answers c' ring' g'. session env genv bc bg fd 0 c' ring' g' \<and> oc_trace c' = oc_trace c @ es \<and>
    gw_receive genv fd (written (oc_fd c) es) (ring, g) = Some (ring', g') \<and> gw_out g' = gw_out g @ map (Wrote fd) answers \<and>
    exchanged (length ks) c c' answers \<and>
    (\<forall>r. delayed ks answers r (oc_reads c) \<longrightarrow> client_burst (env\<lparr>ce_read := r\<rparr>) (length ks) c = Some c')"
  using assms(6)
proof (induction ks arbitrary: c ring g)
  case Nil
  then have "session env genv bc bg fd 0 c ring g \<and> oc_trace c = oc_trace c @ [] \<and> gw_receive genv fd (written (oc_fd c) []) (ring, g) = Some (ring, g) \<and>
      gw_out g = gw_out g @ map (Wrote fd) [] \<and> exchanged (length ([] :: nat list)) c c [] \<and>
      (\<forall>r. delayed [] [] r (oc_reads c) \<longrightarrow> client_burst (env\<lparr>ce_read := r\<rparr>) (length ([] :: nat list)) c = Some c)"
    by (simp add: exchanged_def acks_in_def)
  then show ?case by blast
next
  case (Cons k ks)
  let ?c = "c\<lparr>oc_loads := Suc (oc_loads c)\<rparr>"
  have "session env genv bc bg fd (Suc k + sum_list (map Suc ks)) ?c ring g" using Cons.prems by (simp add: session_def oc_ready_def)
  then obtain es1 answer c1 ring1 g1 where one: "session env genv bc bg fd (sum_list (map Suc ks)) c1 ring1 g1"
    "gw_receive genv fd (written (oc_fd ?c) es1) (ring, g) = Some (ring1, g1)" "gw_out g1 = gw_out g @ [Wrote fd answer]"
    "oa_client_order_id (OrderAck_of_bytes (drop 20 answer)) = oc_order_id ?c" "oa_accepted (OrderAck_of_bytes (drop 20 answer))"
    "oc_trace c1 = oc_trace ?c @ es1" "oc_reads c1 = oc_reads ?c + k + 1" "oc_fd c1 = oc_fd ?c"
    "oc_order_id c1 = oc_order_id ?c + 1" "oc_req_sent_total c1 = oc_req_sent_total ?c + 1" "oc_ack_recv_total c1 = oc_ack_recv_total ?c + 1"
    "\<And>r. \<forall>j < k. r (oc_reads ?c + j) \<in> {Inr 11, Inr 4} \<Longrightarrow> r (oc_reads ?c + k) = Inl answer \<Longrightarrow> client_order (env\<lparr>ce_read := r\<rparr>) ?c = Some (True, c1)"
    by (rule session_order [OF _ assms(1-5)]) blast
  obtain es answers c' ring' g' where IH: "session env genv bc bg fd 0 c' ring' g'" "oc_trace c' = oc_trace c1 @ es"
    "gw_receive genv fd (written (oc_fd c1) es) (ring1, g1) = Some (ring', g')" "gw_out g' = gw_out g1 @ map (Wrote fd) answers"
    "exchanged (length ks) c1 c' answers"
    "\<forall>r. delayed ks answers r (oc_reads c1) \<longrightarrow> client_burst (env\<lparr>ce_read := r\<rparr>) (length ks) c1 = Some c'"
    using Cons.IH [OF one(1)] by blast
  have "oc_load env c = (True, ?c)" using Cons.prems by (intro oc_load_running assms(1)) (simp add: session_def oc_ready_def)
  then have run: "client_burst (env\<lparr>ce_read := r\<rparr>) (length (k # ks)) c = Some c'" if "delayed (k # ks) (answer # answers) r (oc_reads c)" for r
    using that one(7,12) IH(6) by simp
  have "gw_receive genv fd (written (oc_fd c) (es1 @ es)) (ring, g) = Some (ring', g')"
    using gw_receive_append [of genv fd "written (oc_fd c) es1" "written (oc_fd c) es" "(ring, g)"] one(2,8) IH(3) by simp
  moreover have "gw_out g' = gw_out g @ map (Wrote fd) (answer # answers)" "oc_trace c' = oc_trace c @ es1 @ es" using one(3,6) IH(2,4) by simp_all
  moreover have "exchanged (length (k # ks)) c c' (answer # answers)"
    using exchanged_Suc [OF IH(5), of answer c] one(4,5,8-11) by simp
  ultimately show ?case using IH(1) run by blast
qed

section \<open>From the start of both programs\<close>

lemma client_init_ready:
  assumes "client_init env cbase ct cm = Some c" and "oc_state c = ACTIVE" and "0 < cbase" and "ce_req env + 40 \<le> cbase \<or> cbase + 20 \<le> ce_req env"
  shows "oc_ready env cbase c" and "send_seq (oc_conn c) = 1" and "oc_shadow c = []" and "oc_reads c = 0" and "oc_order_id c = 1"
    and "oc_req_sent_total c = 0" "oc_ack_recv_total c = 0"
proof -
  from assms(1) obtain pool where p: "MemoryPool cbase 76 64 = Some pool" by (auto simp: client_init_def split: option.splits)
  let ?c = "connect_to_gateway env (client_blank pool ct cm)"
  have sel: "oc_pool c = pool" "oc_outstanding c = []" "oc_retrans_q c = []" "oc_cc c = mk_congestion 1200" "oc_running c" "oc_conn c = client_conn"
    "oc_shadow c = []" "oc_reads c = 0" "oc_order_id c = 1" "oc_req_sent_total c = 0" "oc_ack_recv_total c = 0" "0 \<le> oc_fd c"
    using assms(1,2) p
    by (auto simp: client_init_def connect_to_gateway_def client_blank_def oc_now_def Let_def split_beta split: if_splits)
  show "send_seq (oc_conn c) = 1" "oc_shadow c = []" "oc_reads c = 0" "oc_order_id c = 1" "oc_req_sent_total c = 0" "oc_ack_recv_total c = 0"
    using sel by (simp_all add: client_conn_def)
  have "unat (64 :: size_type) \<noteq> 0" by simp
  then have "map (mp_block pool) [0..<unat (64 :: size_type)] = mp_block pool 0 # map (mp_block pool) [1..<unat (64 :: size_type)]"
    by (simp only: upt_conv_Cons list.map) (simp add: upt_conv_Cons)
  moreover have "mp_block pool 0 = cbase" using MemoryPool_inv(2) [OF p assms(3)] by (simp add: mp_block_def)
  ultimately have "\<exists>free live. mp_inv pool (cbase # free) live" using MemoryPool_inv(1) [OF p assms(3)] by auto
  then show "oc_ready env cbase c"
    using sel assms(4) mk_congestion_inv [of 1200]
    by (simp add: oc_ready_def client_conn_def TcpConnection_default_def) (simp add: mk_congestion_def Let_def)
qed

lemma session_start:
  assumes "mmap 4608 False = Some base" and "0 < base" and "ge_ack genv + 24 \<le> base + 36 \<or> base + 80 \<le> ge_ack genv"
    and "gateway_init mmap gt gm = Some (ring, g)"
    and "client_init env cbase ct cm = Some c" and "oc_state c = ACTIVE" and "0 < cbase" and "ce_req env + 40 \<le> cbase \<or> cbase + 20 \<le> ce_req env"
    and "n < 2 ^ 20"
  shows "session env genv cbase (base + 36) fd n c ring (gw_on_accept (Accepted fd port True) g)"
    and "gw_out (gw_on_accept (Accepted fd port True) g) = []"
proof -
  obtain g0 where g0: "gateway_init mmap gt gm = Some (PacketRing 64, g0)" "gw_ready genv (base + 36) g0" "gw_conns g0 = []"
    "gw_live g0 = {}" "gw_out g0 = []" by (rule gateway_init_ready [where mmap = mmap, OF assms(1-3)])
  have eq: "ring = PacketRing 64" "g = g0" using assms(4) g0(1) by auto
  note c = client_init_ready [OF assms(5-8)]
  let ?g = "gw_on_accept (Accepted fd port True) g"
  have g: "gw_pool ?g = gw_pool g0" "gw_live ?g = {}" "gw_out ?g = []" "gw_conns ?g = [(fd, gw_new_connection port)]"
    using g0(3-5) eq by (simp_all add: gw_on_accept_def Let_def)
  show "gw_out ?g = []" by (fact g(3))
  have "gw_expects fd 1 ?g" by (simp add: gw_expects_def gw_holds_def g(4) gw_new_connection_def reassembly_empty_def TcpConnection_default_def)
  moreover have "ring_inv n ring" "ring_contents ring = []" using PacketRing_inv [of 64 n] assms(9) eq by simp_all
  ultimately show "session env genv cbase (base + 36) fd n c ring ?g"
    using c(1-3) g(2) gw_ready_cong [OF g(1)] g0(2) assms(9) by (simp add: session_def)
qed

text \<open>The burst, from the start of both programs.\<close>

lemma session_from_start:
  assumes "mmap 4608 False = Some base" and "0 < base" and "ge_ack genv + 24 \<le> base + 36 \<or> base + 80 \<le> ge_ack genv"
    and "gateway_init mmap gt gm = Some (ring, g)" and "0 \<le> fd" "fd < 65536" and "\<forall>i. \<not> ge_drop genv i"
    and "client_init env cbase ct cm = Some c" and "oc_state c = ACTIVE" and "0 < cbase" and "ce_req env + 40 \<le> cbase \<or> cbase + 20 \<le> ce_req env"
    and "\<forall>i. \<not> ce_signal env i" and "\<forall>i. ce_write env i = Inl 60" and "sum_list (map Suc ks) < 2 ^ 20"
  shows "\<exists>es answers c' ring' g'. oc_trace c' = oc_trace c @ es \<and>
    gw_receive genv fd (written (oc_fd c) es) (ring, gw_on_accept (Accepted fd port True) g) = Some (ring', g') \<and> gw_out g' = map (Wrote fd) answers \<and>
    length answers = length ks \<and> (\<forall>r. delayed ks answers r 0 \<longrightarrow> client_burst (env\<lparr>ce_read := r\<rparr>) (length ks) c = Some c') \<and>
    map oa_client_order_id (acks_in answers) = map (\<lambda>i. 1 + of_nat i) [0..<length ks] \<and> (\<forall>a \<in> set (acks_in answers). oa_accepted a) \<and>
    oc_req_sent_total c' = of_nat (length ks) \<and> oc_ack_recv_total c' = of_nat (length ks) \<and> oc_retrans_q c' = [] \<and> oc_outstanding c' = [] \<and>
    gw_live g' = fst ` set (oc_shadow c')"
proof -
  note st = session_start [OF assms(1-4) assms(8-11,14)] and ini = client_init_ready [OF assms(8-11)]
  note burst = session_burst [OF assms(12,13,5-7) st(1), unfolded st(2) ini(4) append_Nil]
  from burst obtain es answers c' ring' g' where
    r: "session env genv cbase (base + 36) fd 0 c' ring' g'" "oc_trace c' = oc_trace c @ es"
      "gw_receive genv fd (written (oc_fd c) es) (ring, gw_on_accept (Accepted fd port True) g) = Some (ring', g')"
      "gw_out g' = map (Wrote fd) answers" "exchanged (length ks) c c' answers"
      "\<forall>r. delayed ks answers r 0 \<longrightarrow> client_burst (env\<lparr>ce_read := r\<rparr>) (length ks) c = Some c'"
    by blast
  then have f: "length answers = length ks"
    "map oa_client_order_id (acks_in answers) = map (\<lambda>i. 1 + of_nat i) [0..<length ks]" "\<forall>a \<in> set (acks_in answers). oa_accepted a"
    "oc_req_sent_total c' = of_nat (length ks)" "oc_ack_recv_total c' = of_nat (length ks)" using ini(5-7) by (simp_all add: exchanged_def)
  have "oc_retrans_q c' = []" "oc_outstanding c' = []" "gw_live g' = fst ` set (oc_shadow c')" using r(1) by (simp_all add: session_def oc_ready_def)
  with r(2-4,6) f show ?thesis by (intro exI conjI)
qed

text \<open>A client whose calls all succeed.\<close>

definition ex_session_env :: client_env where
  "ex_session_env = ex_client_env\<lparr>ce_signal := \<lambda>_. False, ce_clock := \<lambda>i. int i * 2000000000, ce_disconnect_interval_s := 1\<rparr>"

lemma ex_session_init: "\<exists>c. client_init ex_session_env 65536 0 (\<lambda>_. 0) = Some c \<and> oc_state c = ACTIVE"
  using ex_connect [of 0]
  by (auto simp: client_init_def MemoryPool_def connect_to_gateway_def client_blank_def oc_now_def Let_def ex_session_env_def)

section \<open>Options\<close>

text \<open>What the options of the client mean for its run.\<close>

definition client_configure :: "client_options \<Rightarrow> client_env \<Rightarrow> client_env" where
  "client_configure o1 env = env\<lparr>ce_gateway_ip := co_gateway_ip o1, ce_timeout_ms := co_timeout_ms o1,
     ce_disconnect_interval_s := co_disconnect_interval_s o1, ce_cancel_ratio := co_cancel_ratio o1,
     ce_replace_ratio := co_replace_ratio o1, ce_burst := nat (co_burst o1)\<rparr>"

section \<open>After a reconnect\<close>

text \<open>A reconnect leaves the client ready and its sequence number as it was.\<close>

lemma reconnect_ready:
  assumes "oc_ready env b c" and "client_disconnect env c = (True, c')" and "oc_reconnect_total c' \<noteq> oc_reconnect_total c"
  shows "oc_ready env b c'" and "oc_conn c' = oc_conn c"
proof -
  have "mss_bytes (mk_congestion 1200) = 1200" "cc_inv (mk_congestion 1200)"
    using mk_congestion_inv [of 1200] by (simp_all add: mk_congestion_def Let_def)
  moreover have "oc_pool c' = oc_pool c \<and> oc_outstanding c' = oc_outstanding c \<and> oc_retrans_q c' = oc_retrans_q c \<and> oc_running c' = oc_running c \<and>
      oc_conn c' = oc_conn c \<and> 0 \<le> oc_fd c' \<and> oc_cc c' = mk_congestion 1200"
    using assms(2,3) by (auto simp: client_disconnect_def connect_to_gateway_def oc_now_def Let_def split_beta split: if_splits)
  ultimately show "oc_ready env b c'" "oc_conn c' = oc_conn c" using assms(1) by (simp_all add: oc_ready_def)
qed

text \<open>
  \<^bold>\<open>C33\<close>. A reconnect ends the service: the client keeps counting from the sequence number of its old connection, while the
  gateway starts a new connection at 1. Once a byte has been sent, the next request after a reconnect is written, but however
  often the frame is retransmitted the gateway only buffers it: it handles no order and writes no answer.\<close>

theorem reconnect_stalls:
  assumes "oc_ready env b c" and "send_seq (oc_conn c) \<noteq> 1" and "client_disconnect env c = (True, c1)"
    and "oc_reconnect_total c1 \<noteq> oc_reconnect_total c" and "client_request env c1 = (req, c2)" and "ce_write env (oc_writes c2) = Inl 60"
    and "map_of (gw_conns g) fd = Some (gw_new_connection port)" and "0 \<le> fd" "fd < 65536" and "\<forall>i. \<not> ge_drop genv i"
    and "ring_inv k ring" and "ring_contents ring = []"
  shows "\<exists>ts c3 frame ring' g'. client_send env req c2 = Some (SendDone ts c3) \<and> oc_trace c3 = oc_trace c2 @ [SysWrite (oc_fd c2) frame] \<and>
    map_of (oc_outstanding c3) (send_seq (oc_conn c2)) = Some frame \<and>
    gw_receive genv fd (replicate k frame) (ring, g) = Some (ring', g') \<and> gw_out g' = gw_out g \<and> gw_handled g' = gw_handled g \<and> gw_live g' = gw_live g"
proof -
  note r = reconnect_ready [OF assms(1,3,4)] and q = client_request_sel [OF assms(5)]
  let ?frame = "data_frame (oc_conn c2) (OrderRequest_bytes (ce_pad env) req)"
  have ready: "oc_ready env b c2" using r(1) q(4) by simp
  obtain ts c3 where s: "client_send env req c2 = Some (SendDone ts c3)" "oc_trace c3 = oc_trace c2 @ [SysWrite (oc_fd c2) ?frame]"
    "oc_outstanding c3 = [(send_seq (oc_conn c2), ?frame)]" by (rule client_sends [OF ready assms(6) refl])
  have sq: "send_seq (oc_conn c2) \<noteq> 1" using assms(2) r(2) q(5) by simp
  have stuck: "gw_holds fd 1 UNIV g" using assms(7) by (simp add: gw_holds_def gw_new_connection_def reassembly_empty_def TcpConnection_default_def)
  have pl: "0 < length (OrderRequest_bytes (ce_pad env) req)" "length (OrderRequest_bytes (ce_pad env) req) \<le> 2028" by simp_all
  have ring: "ring_inv (k + 0) ring" using assms(11) by simp
  from gw_buffers_copies [OF assms(8-10) pl sq UNIV_I ring assms(12) stuck] s show ?thesis by fastforce
qed

theorem reconnect_stalls_witness:
  "\<exists>c c1 c2 req ts c3 frame g ring' g'. client_disconnect ex_session_env c = (True, c1) \<and> client_request ex_session_env c1 = (req, c2) \<and>
    client_send ex_session_env req c2 = Some (SendDone ts c3) \<and> gw_receive ex_env 5 (replicate 7 frame) (PacketRing 64, g) = Some (ring', g') \<and>
    oc_trace c3 = oc_trace c2 @ [SysWrite (oc_fd c2) frame] \<and> gw_out g' = gw_out g"
proof -
  obtain c where c: "client_init ex_session_env 65536 0 (\<lambda>_. 0) = Some c" "oc_state c = ACTIVE" using ex_session_init by blast
  have "ce_req ex_session_env + 40 \<le> 65536" by (simp add: ex_session_env_def ex_client_env_def)
  then have rdy: "oc_ready ex_session_env 65536 c" using client_init_ready(1) [OF c] by simp
  let ?c = "c\<lparr>oc_conn := (oc_conn c)\<lparr>send_seq := 41\<rparr>, oc_last_disconnect := -1000000000, oc_clocks := 0\<rparr>"
  have rdy': "oc_ready ex_session_env 65536 ?c" using rdy by (simp add: oc_ready_def)
  have env: "ce_disconnect_interval_s ex_session_env = 1" "ce_clock ex_session_env 0 = 0" "\<And>i. ce_write ex_session_env i = Inl 60"
    by (simp_all add: ex_session_env_def ex_client_env_def)
  have cn: "\<exists>es. tcp_connect_to (ce_pton ex_session_env) (ce_gateway_ip ex_session_env) 9000 (ce_timeout_ms ex_session_env) (ce_connect ex_session_env n) = (5, es)" for n
    using ex_connect [of n] by (simp add: ex_session_env_def)
  obtain c1 where c1: "client_disconnect ex_session_env ?c = (True, c1)" "oc_reconnect_total c1 \<noteq> oc_reconnect_total ?c"
    using cn [of "oc_connects c"] env by (auto simp: client_disconnect_def connect_to_gateway_def oc_now_def Let_def split_beta)
  obtain req c2 where rq: "client_request ex_session_env c1 = (req, c2)" by fastforce
  obtain g where g: "gateway_init ex_mmap 0 (\<lambda>_. 0) = Some (PacketRing 64, g)" "gw_conns g = []" by (rule ex_start)
  have gc: "map_of (gw_conns (gw_on_accept (Accepted 5 0 True) g)) 5 = Some (gw_new_connection 0)" using accept_fresh(1) [OF g(2)] by simp
  have ring: "ring_inv 7 (PacketRing 64)" "ring_contents (PacketRing 64) = []" using PacketRing_inv [of 64 7] by simp_all
  have "\<forall>i. \<not> ge_drop ex_env i" by (simp add: ex_env_def)
  from reconnect_stalls [OF rdy' _ c1 rq env(3) gc _ _ this ring] c1 rq show ?thesis by fastforce
qed

end
