(* ===== verification/Launchers.thy ===== *)
theory Launchers
  imports Feed_Subscriber
begin

text \<open>
  The simulation launchers \<^verbatim>\<open>apps/run_sim_order.cpp\<close> and \<^verbatim>\<open>apps/run_sim_market.cpp\<close>: they read a command line, start the
  applications as child processes with options of their own, stop them after a while, and the second one adds up the summaries
  that the subscribers wrote.

  The results of \<^verbatim>\<open>fork\<close> are an argument: negative for an error, otherwise the child's identifier in the parent. The child of a
  fork goes straight to \<^verbatim>\<open>execv\<close> with the given argument vector, or exits when that fails, and never returns into the launcher.
  The rates of the publisher are values of a type for \<^verbatim>\<open>double\<close>; reading and printing them are arguments.
\<close>

section \<open>Processes\<close>

datatype proc_event = Forked int "string list" | ForkFailed | Killed int | Waited int | Slept int

definition spawn_process :: "string \<Rightarrow> string list \<Rightarrow> int \<Rightarrow> int \<times> proc_event list" where
  "spawn_process bin_path args pid = (if pid < 0 then (-1, [ForkFailed]) else (pid, [Forked pid (bin_path # args)]))"

definition stop_process :: "int \<Rightarrow> proc_event list" where
  "stop_process pid = (if pid \<le> 0 then [] else [Killed pid, Waited pid])"

section \<open>The order launcher\<close>

abbreviation (input) kGatewayPath :: string where "kGatewayPath \<equiv> ''./build/apps/order_gateway''"
abbreviation (input) kClientPath :: string where "kClientPath \<equiv> ''./build/apps/order_client''"

record order_sim_options =
  os_run_seconds :: int
  os_qps :: int
  os_burst :: int
  os_disconnect_interval_s :: int
  os_server_drop_at_s :: int
  os_timeout_ms :: int
  os_cancel_ratio :: int
  os_replace_ratio :: int
  os_gateway_backpressure_threshold :: int

definition order_sim_defaults :: order_sim_options where
  "order_sim_defaults = \<lparr>os_run_seconds = 10, os_qps = 2, os_burst = 1, os_disconnect_interval_s = 0, os_server_drop_at_s = 0,
     os_timeout_ms = 1000, os_cancel_ratio = 0, os_replace_ratio = 0, os_gateway_backpressure_threshold = 0\<rparr>"

definition order_sim_option :: "string \<times> string \<Rightarrow> order_sim_options \<Rightarrow> order_sim_options option" where
  "order_sim_option = (\<lambda>(key, value) o1.
     let val = atoi value
     in if key = ''--duration'' then Some (o1\<lparr>os_run_seconds := max 1 val\<rparr>)
        else if key = ''--qps'' then Some (o1\<lparr>os_qps := max 1 val\<rparr>)
        else if key = ''--burst'' then Some (o1\<lparr>os_burst := max 1 val\<rparr>)
        else if key = ''--disconnect-interval-s'' then Some (o1\<lparr>os_disconnect_interval_s := max 0 val\<rparr>)
        else if key = ''--server-drop-at-s'' then Some (o1\<lparr>os_server_drop_at_s := max 0 val\<rparr>)
        else if key = ''--timeout-ms'' then Some (o1\<lparr>os_timeout_ms := max 1 val\<rparr>)
        else if key = ''--cancel-ratio'' then Some (o1\<lparr>os_cancel_ratio := clamp val 0 100\<rparr>)
        else if key = ''--replace-ratio'' then Some (o1\<lparr>os_replace_ratio := clamp val 0 100\<rparr>)
        else if key = ''--gateway-backpressure-threshold'' then Some (o1\<lparr>os_gateway_backpressure_threshold := max 0 val\<rparr>)
        else None)"

text \<open>Reading stops with \<open>None\<close> at an unknown key.\<close>

fun read_options :: "(string \<times> string \<Rightarrow> 'o \<Rightarrow> 'o option) \<Rightarrow> (string \<times> string) list \<Rightarrow> 'o \<Rightarrow> 'o option" where
  "read_options opt [] o1 = Some o1"
| "read_options opt (kv # kvs) o1 = (case opt kv o1 of None \<Rightarrow> None | Some o1 \<Rightarrow> read_options opt kvs o1)"

definition gateway_args :: "order_sim_options \<Rightarrow> string list" where
  "gateway_args o1 = [''--server-drop-at-s'', print_int (os_server_drop_at_s o1),
     ''--backpressure-threshold'', print_int (os_gateway_backpressure_threshold o1)]"

definition client_args :: "order_sim_options \<Rightarrow> string list" where
  "client_args o1 = [''--qps'', print_int (os_qps o1), ''--burst'', print_int (os_burst o1),
     ''--disconnect-interval-s'', print_int (os_disconnect_interval_s o1), ''--timeout-ms'', print_int (os_timeout_ms o1),
     ''--cancel-ratio'', print_int (os_cancel_ratio o1), ''--replace-ratio'', print_int (os_replace_ratio o1)]"

text \<open>The exit status and the calls made; sleeping is in milliseconds.\<close>

definition run_sim_order :: "(nat \<Rightarrow> int) \<Rightarrow> string list \<Rightarrow> int \<times> proc_event list" where
  "run_sim_order forks args =
     (if ''--help'' \<in> set args then (0, [])
      else
        case read_options order_sim_option (arg_pairs args) order_sim_defaults of
          None \<Rightarrow> (1, [])
        | Some o1 \<Rightarrow>
            let (gw, es) = spawn_process kGatewayPath (gateway_args o1) (forks 0)
            in if gw \<le> 0 then (1, es)
               else
                 let es = es @ [Slept 300];
                     (client, es') = spawn_process kClientPath (client_args o1) (forks 1);
                     es = es @ es'
                 in if client \<le> 0 then (1, es @ stop_process gw)
                    else (0, es @ [Slept (os_run_seconds o1 * 1000)] @ stop_process client @ stop_process gw))"

section \<open>The market launcher\<close>

abbreviation (input) kSubscriberPath :: string where "kSubscriberPath \<equiv> ''./build/apps/feed_subscriber''"
abbreviation (input) kPublisherPath :: string where "kPublisherPath \<equiv> ''./build/apps/feed_publisher''"

record 'd market_sim_options =
  ms_run_seconds :: int
  ms_rate :: int
  ms_payload_size :: int
  ms_subscribers :: int
  ms_streams :: int
  ms_jitter_ms :: int
  ms_slow_subscriber_ratio :: int
  ms_drop_rate :: 'd
  ms_reorder_rate :: 'd

definition market_sim_defaults :: "'d \<Rightarrow> 'd market_sim_options" where
  "market_sim_defaults zero = \<lparr>ms_run_seconds = 10, ms_rate = 2, ms_payload_size = 8 * 2 + 4 * 5, ms_subscribers = 1, ms_streams = 1,
     ms_jitter_ms = 0, ms_slow_subscriber_ratio = 0, ms_drop_rate = zero, ms_reorder_rate = zero\<rparr>"

definition market_sim_option :: "(string \<Rightarrow> 'd) \<Rightarrow> string \<times> string \<Rightarrow> 'd market_sim_options \<Rightarrow> 'd market_sim_options option" where
  "market_sim_option rate_of = (\<lambda>(key, value) o1.
     let val = atoi value
     in if key = ''--duration'' then Some (o1\<lparr>ms_run_seconds := max 1 val\<rparr>)
        else if key = ''--rate'' then Some (o1\<lparr>ms_rate := max 1 val\<rparr>)
        else if key = ''--payload-size'' then Some (o1\<lparr>ms_payload_size := max 64 val\<rparr>)
        else if key = ''--subscribers'' then Some (o1\<lparr>ms_subscribers := max 1 val\<rparr>)
        else if key = ''--streams'' then Some (o1\<lparr>ms_streams := max 1 val\<rparr>)
        else if key = ''--jitter-ms'' then Some (o1\<lparr>ms_jitter_ms := max 0 val\<rparr>)
        else if key = ''--slow-subscriber-ratio'' then Some (o1\<lparr>ms_slow_subscriber_ratio := clamp val 0 100\<rparr>)
        else if key = ''--drop-rate'' then Some (o1\<lparr>ms_drop_rate := rate_of value\<rparr>)
        else if key = ''--reorder-rate'' then Some (o1\<lparr>ms_reorder_rate := rate_of value\<rparr>)
        else None)"

text \<open>The product \<^verbatim>\<open>i * 100\<close> is an \<^verbatim>\<open>int\<close> in the source and in range for fewer than 21 million subscribers.\<close>

definition is_slow :: "'d market_sim_options \<Rightarrow> nat \<Rightarrow> bool" where
  "is_slow o1 i \<longleftrightarrow> int i * 100 div ms_subscribers o1 < ms_slow_subscriber_ratio o1"

definition summary_path :: "int \<Rightarrow> nat \<Rightarrow> string" where
  "summary_path self i = ''/tmp/usn_run_market_sub_'' @ print_int self @ ''_'' @ print_int (int i) @ ''.txt''"

definition subscriber_args :: "'d market_sim_options \<Rightarrow> int \<Rightarrow> nat \<Rightarrow> string list" where
  "subscriber_args o1 self i = [''--subscriber-id'', print_int (int i), ''--artificial-delay-ms'', if is_slow o1 i then ''2'' else ''0'',
     ''--summary-file'', summary_path self i]"

definition publisher_args :: "('d \<Rightarrow> string) \<Rightarrow> 'd market_sim_options \<Rightarrow> string list" where
  "publisher_args print_rate o1 = [''--rate'', print_int (ms_rate o1), ''--payload-size'', print_int (ms_payload_size o1),
     ''--streams'', print_int (ms_streams o1), ''--jitter-ms'', print_int (ms_jitter_ms o1),
     ''--drop-rate'', print_rate (ms_drop_rate o1), ''--reorder-rate'', print_rate (ms_reorder_rate o1)]"

text \<open>The loop that starts subscribers \<open>i\<close>, \<open>i + 1\<close> and so on; a failure stops those already started.\<close>

fun start_subscribers :: "'d market_sim_options \<Rightarrow> int \<Rightarrow> (nat \<Rightarrow> int) \<Rightarrow> nat \<Rightarrow> nat \<Rightarrow> int list \<Rightarrow> bool \<times> int list \<times> proc_event list" where
  "start_subscribers o1 self forks i 0 pids = (True, pids, [])"
| "start_subscribers o1 self forks i (Suc n) pids =
     (let (pid, es) = spawn_process kSubscriberPath (subscriber_args o1 self i) (forks i)
      in if pid \<le> 0 then (False, pids, es @ concat (map stop_process pids))
         else let (ok, pids, es') = start_subscribers o1 self forks (Suc i) n (pids @ [pid]) in (ok, pids, es @ es'))"

section \<open>Adding up the summaries\<close>

record sub_summary =
  su_id :: int
  su_recv_total :: u64
  su_gaps :: u64
  su_reorder_events :: u64
  su_latency_max :: u64

definition summary_field :: "string \<Rightarrow> sub_summary \<Rightarrow> sub_summary" where
  "summary_field token u =
     (case split_pair token of
        None \<Rightarrow> u
      | Some (k, v) \<Rightarrow>
          if k = ''id'' then u\<lparr>su_id := atoi v\<rparr>
          else if k = ''recv_total'' then u\<lparr>su_recv_total := strtoull v\<rparr>
          else if k = ''gaps'' then u\<lparr>su_gaps := strtoull v\<rparr>
          else if k = ''reorder_events'' then u\<lparr>su_reorder_events := strtoull v\<rparr>
          else if k = ''latency_max_us'' then u\<lparr>su_latency_max := strtoull v\<rparr>
          else u)"

definition read_summary :: "string \<Rightarrow> sub_summary" where
  "read_summary content = fold summary_field (stream_words (first_line content))
     \<lparr>su_id = -1, su_recv_total = 0, su_gaps = 0, su_reorder_events = 0, su_latency_max = 0\<rparr>"

record market_totals =
  mt_sum_recv_total :: u64
  mt_sum_gaps :: u64
  mt_sum_reorder_events :: u64
  mt_worst_latency_max :: u64
  mt_worst_sub_id :: int

definition totals_start :: market_totals where
  "totals_start = \<lparr>mt_sum_recv_total = 0, mt_sum_gaps = 0, mt_sum_reorder_events = 0, mt_worst_latency_max = 0, mt_worst_sub_id = -1\<rparr>"

text \<open>\<open>files\<close> gives the content of the readable files.\<close>

definition add_summary :: "(string \<Rightarrow> string option) \<Rightarrow> string \<Rightarrow> market_totals \<Rightarrow> market_totals" where
  "add_summary files path t =
     (case files path of
        None \<Rightarrow> t
      | Some content \<Rightarrow>
          let u = read_summary content;
              t = t\<lparr>mt_sum_recv_total := mt_sum_recv_total t + su_recv_total u, mt_sum_gaps := mt_sum_gaps t + su_gaps u,
                    mt_sum_reorder_events := mt_sum_reorder_events t + su_reorder_events u\<rparr>
          in if su_latency_max u \<ge> mt_worst_latency_max t
             then t\<lparr>mt_worst_latency_max := su_latency_max u, mt_worst_sub_id := su_id u\<rparr> else t)"

definition run_sim_market ::
    "(string \<Rightarrow> 'd) \<Rightarrow> ('d \<Rightarrow> string) \<Rightarrow> 'd \<Rightarrow> int \<Rightarrow> (nat \<Rightarrow> int) \<Rightarrow> (string \<Rightarrow> string option) \<Rightarrow> string list \<Rightarrow>
     int \<times> proc_event list \<times> market_totals option" where
  "run_sim_market rate_of print_rate zero self forks files args =
     (if ''--help'' \<in> set args then (0, [], None)
      else
        case read_options (market_sim_option rate_of) (arg_pairs args) (market_sim_defaults zero) of
          None \<Rightarrow> (1, [], None)
        | Some o1 \<Rightarrow>
            let n = nat (ms_subscribers o1); (ok, subscriber_pids, es) = start_subscribers o1 self forks 0 n []
            in if \<not> ok then (1, es, None)
               else
                 let (pub, es') = spawn_process kPublisherPath (publisher_args print_rate o1) (forks n);
                     es = es @ [Slept 300] @ es'
                 in if pub \<le> 0 then (1, es @ concat (map stop_process subscriber_pids), None)
                    else
                      (0, es @ [Slept (ms_run_seconds o1 * 1000)] @ stop_process pub @ concat (map stop_process subscriber_pids),
                       Some (fold (add_summary files) (map (summary_path self) [0..<n]) totals_start)))"

section \<open>No child is left behind\<close>

text \<open>
  The children after a series of calls: those that run and those that have been signalled. It is \<open>None\<close> when a process is forked twice, when one
  is signalled that does not run, or when one is waited for that has not been signalled (the applications run until a signal
  ends them, so such a wait would not return).
\<close>

fun children :: "int set \<Rightarrow> int set \<Rightarrow> proc_event list \<Rightarrow> (int set \<times> int set) option" where
  "children ps ks [] = Some (ps, ks)"
| "children ps ks (Forked pid argv # es) = (if pid \<in> ps \<union> ks then None else children (insert pid ps) ks es)"
| "children ps ks (Killed pid # es) = (if pid \<in> ps then children (ps - {pid}) (insert pid ks) es else None)"
| "children ps ks (Waited pid # es) = (if pid \<in> ks then children ps (ks - {pid}) es else None)"
| "children ps ks (ForkFailed # es) = children ps ks es"
| "children ps ks (Slept t # es) = children ps ks es"

lemma children_append: "children ps ks (xs @ ys) = (case children ps ks xs of None \<Rightarrow> None | Some (ps, ks) \<Rightarrow> children ps ks ys)"
  by (induction ps ks xs rule: children.induct) auto

lemma children_stop: "0 < pid \<Longrightarrow> pid \<in> ps \<Longrightarrow> children ps {} (stop_process pid) = Some (ps - {pid}, {})"
  by (simp add: stop_process_def)

lemma children_stop_all:
  "distinct pids \<Longrightarrow> \<forall>pid \<in> set pids. 0 < pid \<Longrightarrow> set pids \<subseteq> ps \<Longrightarrow> children ps {} (concat (map stop_process pids)) = Some (ps - set pids, {})"
proof (induction pids arbitrary: ps)
  case (Cons pid pids)
  have "children (ps - {pid}) {} (concat (map stop_process pids)) = Some (ps - {pid} - set pids, {})"
    by (rule Cons.IH) (use Cons.prems in auto)
  then show ?case using Cons.prems by (simp add: children_append children_stop Diff_insert2 [symmetric])
qed simp

text \<open>What \<^verbatim>\<open>fork\<close> answers in the parent: an error, or a new identifier.\<close>

definition fork_answers :: "(nat \<Rightarrow> int) \<Rightarrow> bool" where
  "fork_answers forks \<longleftrightarrow> (\<forall>i. forks i \<noteq> 0) \<and> (\<forall>i j. 0 < forks i \<and> forks i = forks j \<longrightarrow> i = j)"

lemma fork_new: "fork_answers forks \<Longrightarrow> 0 < forks i \<Longrightarrow> forks i = forks j \<Longrightarrow> i = j"
  unfolding fork_answers_def by blast

lemma fork_fresh: "fork_answers forks \<Longrightarrow> 0 < forks i \<Longrightarrow> forks i \<notin> forks ` {0..<i}"
  by (auto dest: fork_new)

lemma fork_distinct: "fork_answers forks \<Longrightarrow> \<forall>i < n. 0 < forks i \<Longrightarrow> distinct (map forks [0..<n])"
  by (auto simp: distinct_map inj_on_def dest: fork_new)

lemma start_subscribers_children:
  assumes "fork_answers forks" and "\<forall>j < i. 0 < forks j" and "start_subscribers o1 self forks i n (map forks [0..<i]) = (ok, pids, es)"
  shows "if ok then pids = map forks [0..<i + n] \<and> (\<forall>j < i + n. 0 < forks j) \<and> children (forks ` {0..<i}) {} es = Some (forks ` {0..<i + n}, {})
    else children (forks ` {0..<i}) {} es = Some ({}, {})"
  using assms(2,3)
proof (induction n arbitrary: i ok pids es)
  case (Suc n)
  show ?case
  proof (cases "0 < forks i")
    case True
    obtain ok' pids' es' where r: "start_subscribers o1 self forks (Suc i) n (map forks [0..<i] @ [forks i]) = (ok', pids', es')"
      by (metis prod_cases3)
    have eqs: "ok = ok'" "pids = pids'" "es = Forked (forks i) (kSubscriberPath # subscriber_args o1 self i) # es'"
      using Suc.prems(2) True r by (auto simp: spawn_process_def)
    have "\<forall>j < Suc i. 0 < forks j" using Suc.prems(1) True by (simp add: less_Suc_eq)
    moreover have "start_subscribers o1 self forks (Suc i) n (map forks [0..<Suc i]) = (ok', pids', es')" using r by simp
    ultimately have IH: "if ok' then pids' = map forks [0..<Suc i + n] \<and> (\<forall>j < Suc i + n. 0 < forks j) \<and>
        children (forks ` {0..<Suc i}) {} es' = Some (forks ` {0..<Suc i + n}, {}) else children (forks ` {0..<Suc i}) {} es' = Some ({}, {})"
      by (rule Suc.IH)
    have "children (forks ` {0..<i}) {} es = children (forks ` {0..<Suc i}) {} es'"
      using fork_fresh [OF assms(1) True] by (simp add: eqs(3) atLeast0_lessThan_Suc)
    with IH show ?thesis by (simp add: eqs(1,2))
  next
    case False
    then have "forks i < 0" using assms(1) by (auto simp: fork_answers_def linorder_neq_iff)
    then have "\<not> ok" "es = ForkFailed # concat (map stop_process (map forks [0..<i]))" using Suc.prems(2) by (auto simp: spawn_process_def)
    moreover have "children (forks ` {0..<i}) {} (concat (map stop_process (map forks [0..<i]))) = Some (forks ` {0..<i} - set (map forks [0..<i]), {})"
      by (rule children_stop_all) (use Suc.prems(1) fork_distinct [OF assms(1) Suc.prems(1)] in auto)
    ultimately show ?thesis by simp
  qed
qed simp

lemma order_launcher_children:
  assumes "fork_answers forks"
  shows "children {} {} (snd (run_sim_order forks args)) = Some ({}, {})"
proof -
  have pos: "forks i \<noteq> 0" "0 < forks 0 \<Longrightarrow> forks 1 \<noteq> forks 0" for i
    using assms fork_new [OF assms, of 0 1] by (auto simp: fork_answers_def)
  show ?thesis
  proof (cases "read_options order_sim_option (arg_pairs args) order_sim_defaults")
    case (Some o1)
    consider "forks 0 < 0" | "0 < forks 0" "forks 1 < 0" | "0 < forks 0" "0 < forks 1" using pos(1) linorder_neqE_linordered_idom by metis
    then show ?thesis using Some pos(2)
      by cases (auto simp: run_sim_order_def spawn_process_def stop_process_def Let_def)
  qed (simp add: run_sim_order_def)
qed

lemma market_launcher_children:
  assumes "fork_answers forks"
  shows "children {} {} (fst (snd (run_sim_market rate_of print_rate zero self forks files args))) = Some ({}, {})"
proof (cases "read_options (market_sim_option rate_of) (arg_pairs args) (market_sim_defaults zero)")
  case (Some o1)
  let ?n = "nat (ms_subscribers o1)"
  obtain ok pids es where st: "start_subscribers o1 self forks 0 ?n [] = (ok, pids, es)" by (metis prod_cases3)
  have sub: "if ok then pids = map forks [0..<?n] \<and> (\<forall>j < ?n. 0 < forks j) \<and> children {} {} es = Some (forks ` {0..<?n}, {}) else children {} {} es = Some ({}, {})"
    using start_subscribers_children [OF assms, of 0 o1 self ?n ok pids es] st by (cases ok) simp_all
  show ?thesis
  proof (cases ok)
    case True
    then have s: "pids = map forks [0..<?n]" "\<forall>j < ?n. 0 < forks j" "children {} {} es = Some (forks ` {0..<?n}, {})" using sub by simp_all
    have stop: "children ps {} (concat (map stop_process pids)) = Some ({}, {})" if "ps = set pids" for ps
      using children_stop_all [of pids ps] fork_distinct [OF assms s(2)] s(1,2) that by auto
    show ?thesis
    proof (cases "0 < forks ?n")
      case True
      have "forks ?n \<notin> set pids" using fork_fresh [OF assms True] s(1) by auto
      then show ?thesis using \<open>ok\<close> True Some st s stop [OF refl]
        by (auto simp: run_sim_market_def spawn_process_def children_append children_stop Let_def)
    next
      case False
      then have "forks ?n < 0" using assms by (auto simp: fork_answers_def linorder_neq_iff)
      then show ?thesis using \<open>ok\<close> Some st s stop [OF refl] by (auto simp: run_sim_market_def spawn_process_def children_append Let_def)
    qed
  qed (use Some st sub in \<open>auto simp: run_sim_market_def Let_def\<close>)
qed (simp add: run_sim_market_def)

text \<open>
  \<^bold>\<open>C34\<close>. The launchers leave no process behind: whatever the command line and whichever forks fail, every child that was started
  has been signalled once and after that waited for when the launcher ends, and only children are.\<close>

theorem launchers_reap_children:
  assumes "fork_answers forks"
  shows "children {} {} (snd (run_sim_order forks args)) = Some ({}, {}) \<and>
    children {} {} (fst (snd (run_sim_market rate_of print_rate zero self forks files args))) = Some ({}, {})"
  by (intro conjI order_launcher_children [OF assms] market_launcher_children [OF assms])

definition ex_forks :: "nat \<Rightarrow> int" where
  "ex_forks i = (if i < 2 then 100 + int i else -1 - int i)"

theorem launchers_reap_children_witness:
  "fork_answers ex_forks \<and> children {} {} (snd (run_sim_order ex_forks [])) = Some ({}, {}) \<and> snd (run_sim_order ex_forks []) \<noteq> [] \<and>
    children {} {} (fst (snd (run_sim_market (\<lambda>_. 0 :: nat) (\<lambda>_. ''0'') 0 7 ex_forks (\<lambda>_. None) [''--subscribers'', ''3'']))) = Some ({}, {})"
proof (intro conjI)
  show f: "fork_answers ex_forks" by (auto simp: fork_answers_def ex_forks_def split: if_splits)
  show "children {} {} (snd (run_sim_order ex_forks [])) = Some ({}, {})"
    by (rule launchers_reap_children [OF f, where rate_of = "\<lambda>_. 0 :: nat", THEN conjunct1])
  show "children {} {} (fst (snd (run_sim_market (\<lambda>_. 0 :: nat) (\<lambda>_. ''0'') 0 7 ex_forks (\<lambda>_. None) [''--subscribers'', ''3'']))) = Some ({}, {})"
    by (rule launchers_reap_children [OF f, THEN conjunct2])
qed (simp add: run_sim_order_def spawn_process_def ex_forks_def Let_def)

section \<open>Options reach the applications\<close>

definition order_sim_options_ok :: "order_sim_options \<Rightarrow> bool" where
  "order_sim_options_ok o1 \<longleftrightarrow> os_run_seconds o1 \<in> {1..<2 ^ 31} \<and> os_qps o1 \<in> {1..<2 ^ 31} \<and> os_burst o1 \<in> {1..<2 ^ 31} \<and>
     os_disconnect_interval_s o1 \<in> {0..<2 ^ 31} \<and> os_server_drop_at_s o1 \<in> {0..<2 ^ 31} \<and> os_timeout_ms o1 \<in> {1..<2 ^ 31} \<and>
     os_cancel_ratio o1 \<in> {0..100} \<and> os_replace_ratio o1 \<in> {0..100} \<and> os_gateway_backpressure_threshold o1 \<in> {0..<2 ^ 31}"

definition market_sim_options_ok :: "'d market_sim_options \<Rightarrow> bool" where
  "market_sim_options_ok o1 \<longleftrightarrow> ms_run_seconds o1 \<in> {1..<2 ^ 31} \<and> ms_rate o1 \<in> {1..<2 ^ 31} \<and> ms_payload_size o1 \<in> {36..<2 ^ 31} \<and>
     ms_subscribers o1 \<in> {1..<2 ^ 31} \<and> ms_streams o1 \<in> {1..<2 ^ 31} \<and> ms_jitter_ms o1 \<in> {0..<2 ^ 31} \<and> ms_slow_subscriber_ratio o1 \<in> {0..100}"

lemma read_options_invariant:
  "read_options opt kvs o1 = Some o2 \<Longrightarrow> P o1 \<Longrightarrow> (\<And>kv s s'. P s \<Longrightarrow> opt kv s = Some s' \<Longrightarrow> P s') \<Longrightarrow> P o2"
  by (induction kvs arbitrary: o1) (auto split: option.splits)

lemma order_sim_option_ok: "order_sim_options_ok o1 \<Longrightarrow> order_sim_option kv o1 = Some o2 \<Longrightarrow> order_sim_options_ok o2"
  using limited [of 0 "snd kv"] limited [of 1 "snd kv"] clamped [of "atoi (snd kv)"]
  by (simp add: order_sim_options_ok_def order_sim_option_def split_beta Let_def split: if_splits del: limited clamped) (hypsubst, simp)+

lemma market_sim_option_ok: "market_sim_options_ok o1 \<Longrightarrow> market_sim_option rate_of kv o1 = Some o2 \<Longrightarrow> market_sim_options_ok o2"
  using limited [of 0 "snd kv"] limited [of 1 "snd kv"] limited [of 64 "snd kv"] clamped [of "atoi (snd kv)"]
  by (simp add: market_sim_options_ok_def market_sim_option_def split_beta Let_def split: if_splits del: limited clamped) (hypsubst, simp)+

lemma sim_options_in_range:
  "read_options order_sim_option kvs order_sim_defaults = Some o1 \<Longrightarrow> order_sim_options_ok o1"
  "read_options (market_sim_option rate_of) kvs (market_sim_defaults zero) = Some o2 \<Longrightarrow> market_sim_options_ok o2"
  by (erule read_options_invariant, simp add: order_sim_options_ok_def order_sim_defaults_def, erule (1) order_sim_option_ok,
      erule read_options_invariant, simp add: market_sim_options_ok_def market_sim_defaults_def, erule (1) market_sim_option_ok)

lemma gateway_options_arrive:
  assumes "order_sim_options_ok o1"
  shows "gateway_options_of (gateway_args o1) = \<lparr>go_server_drop_at_s = os_server_drop_at_s o1,
    go_backpressure_threshold = os_gateway_backpressure_threshold o1, go_trace_every = 0\<rparr>"
  using assms
  by (simp add: order_sim_options_ok_def gateway_options_of_def gateway_args_def gateway_option_def gateway_defaults_def)

lemma client_options_arrive:
  assumes "order_sim_options_ok o1"
  shows "client_options_of (client_args o1) = \<lparr>co_qps = os_qps o1, co_burst = os_burst o1,
    co_disconnect_interval_s = os_disconnect_interval_s o1, co_timeout_ms = os_timeout_ms o1, co_cancel_ratio = os_cancel_ratio o1,
    co_replace_ratio = os_replace_ratio o1, co_trace_every = 0, co_gateway_ip = ''127.0.0.1''\<rparr>"
  using assms
  by (simp add: order_sim_options_ok_def client_options_of_def client_args_def client_option_def client_defaults_def clamp_def)

lemma publisher_options_arrive:
  assumes "market_sim_options_ok o1"
  shows "publisher_options_of rate_of zero (publisher_args print_rate o1) = \<lparr>po_rate = ms_rate o1, po_payload_size = max 40 (ms_payload_size o1),
    po_streams = ms_streams o1, po_jitter_ms = ms_jitter_ms o1, po_drop_rate = rate_of (print_rate (ms_drop_rate o1)),
    po_reorder_rate = rate_of (print_rate (ms_reorder_rate o1)), po_seed = 42\<rparr>"
  using assms
  by (simp add: market_sim_options_ok_def publisher_options_of_def publisher_args_def publisher_option_def publisher_defaults_def)

lemma atoi_digit: "atoi ''0'' = 0" "atoi ''2'' = 2"
  by code_simp+

lemma subscriber_options_arrive:
  assumes "i < 2 ^ 31"
  shows "subscriber_options_of (subscriber_args o1 self i) = \<lparr>so_subscriber_id = int i,
    so_artificial_delay_ms = (if is_slow o1 i then 2 else 0), so_trace_every = 0, so_summary_file = summary_path self i\<rparr>"
  using assms by (simp add: subscriber_options_of_def subscriber_args_def subscriber_option_def subscriber_defaults_def atoi_digit)

lemma started_subscribers:
  "start_subscribers o1 self forks i n pids = (ok, pids', es) \<Longrightarrow> Forked pid argv \<in> set es \<Longrightarrow>
    \<exists>j. i \<le> j \<and> j < i + n \<and> argv = kSubscriberPath # subscriber_args o1 self j"
proof (induction n arbitrary: i pids ok pids' es)
  case (Suc n)
  show ?case
  proof (cases "0 < forks i")
    case True
    obtain ok1 pids1 es' where r: "start_subscribers o1 self forks (Suc i) n (pids @ [forks i]) = (ok1, pids1, es')" by (metis prod_cases3)
    then have "es = Forked (forks i) (kSubscriberPath # subscriber_args o1 self i) # es'"
      using Suc.prems(1) True by (auto simp: spawn_process_def)
    then show ?thesis using Suc.prems(2) Suc.IH [OF r] by (auto simp: Suc_le_eq intro: less_imp_le)
  qed (use Suc.prems in \<open>auto simp: spawn_process_def stop_process_def split: if_splits\<close>)
qed simp

text \<open>
  The options of the order launcher arrive: every process it starts is the gateway or the client, and what that program
  reads from its command line, printed by the launcher as text, is exactly what was asked for (the rest at its defaults), whatever the
  launcher's own command line was.\<close>

theorem order_launcher_options:
  assumes "Forked pid argv \<in> set (snd (run_sim_order forks args))"
  shows "\<exists>o1. read_options order_sim_option (arg_pairs args) order_sim_defaults = Some o1 \<and>
    (hd argv = kGatewayPath \<and>
       gateway_options_of (tl argv) = \<lparr>go_server_drop_at_s = os_server_drop_at_s o1,
         go_backpressure_threshold = os_gateway_backpressure_threshold o1, go_trace_every = 0\<rparr> \<or>
     hd argv = kClientPath \<and>
       client_options_of (tl argv) = \<lparr>co_qps = os_qps o1, co_burst = os_burst o1, co_disconnect_interval_s = os_disconnect_interval_s o1,
         co_timeout_ms = os_timeout_ms o1, co_cancel_ratio = os_cancel_ratio o1, co_replace_ratio = os_replace_ratio o1,
         co_trace_every = 0, co_gateway_ip = ''127.0.0.1''\<rparr>)"
proof -
  from assms obtain o1 where o1: "read_options order_sim_option (arg_pairs args) order_sim_defaults = Some o1"
    by (auto simp: run_sim_order_def split: if_splits option.splits)
  have "argv = kGatewayPath # gateway_args o1 \<or> argv = kClientPath # client_args o1"
    using assms o1 by (simp add: run_sim_order_def spawn_process_def stop_process_def Let_def split: if_splits) auto
  with o1 gateway_options_arrive [OF sim_options_in_range(1) [OF o1]] client_options_arrive [OF sim_options_in_range(1) [OF o1]]
  show ?thesis by (elim disjE) simp_all
qed

theorem order_launcher_options_witness:
  "\<exists>argv. Forked 101 argv \<in> set (snd (run_sim_order ex_forks [''--qps'', ''50''])) \<and> hd argv = kClientPath \<and> co_qps (client_options_of (tl argv)) = 50"
proof -
  have qps: "read_options order_sim_option (arg_pairs [''--qps'', ''50'']) order_sim_defaults = Some (order_sim_defaults\<lparr>os_qps := 50\<rparr>)"
    by code_simp
  let ?argv = "kClientPath # client_args (order_sim_defaults\<lparr>os_qps := 50\<rparr>)"
  have f: "Forked 101 ?argv \<in> set (snd (run_sim_order ex_forks [''--qps'', ''50'']))"
    using qps by (simp add: run_sim_order_def spawn_process_def ex_forks_def Let_def)
  from order_launcher_options [OF f] qps have "co_qps (client_options_of (tl ?argv)) = 50" by auto
  with f show ?thesis by (intro exI [of _ ?argv]) simp
qed

text \<open>The slow subscribers are the first ones.\<close>

lemma zdiv_less_iff: "0 < n \<Longrightarrow> x div n < r \<longleftrightarrow> x < r * n" for x n r :: int
  using pos_imp_zdiv_neg_iff [of n "x + - r * n"] div_mult_self1 [of n x "- r"] by simp

lemma hundredths: "i * 100 < y \<longleftrightarrow> i < (y + 99) div 100" for i y :: int
  by linarith

lemma slow_subscribers:
  assumes "market_sim_options_ok o1"
  shows "is_slow o1 i \<longleftrightarrow> int i < (ms_subscribers o1 * ms_slow_subscriber_ratio o1 + 99) div 100"
proof -
  have n: "0 < ms_subscribers o1" using assms by (simp add: market_sim_options_ok_def)
  have "is_slow o1 i \<longleftrightarrow> int i * 100 < ms_slow_subscriber_ratio o1 * ms_subscribers o1"
    unfolding is_slow_def by (rule zdiv_less_iff [OF n])
  also have "\<dots> \<longleftrightarrow> int i < (ms_subscribers o1 * ms_slow_subscriber_ratio o1 + 99) div 100"
    unfolding hundredths by (simp add: mult.commute)
  finally show ?thesis .
qed

text \<open>
  The options of the market launcher arrive: it starts the publisher with the options asked for (a payload of at least one
  message, the rates as they print) and subscribers numbered from 0 with their own summary files, of which the slow ones get
  the delay. The slow ones are the first \<open>\<lceil>n * ratio / 100\<rceil>\<close> of \<open>n\<close>.\<close>

theorem market_launcher_options:
  assumes "Forked pid argv \<in> set (fst (snd (run_sim_market rate_of print_rate zero self forks files args)))"
  shows "\<exists>o1. read_options (market_sim_option rate_of) (arg_pairs args) (market_sim_defaults zero) = Some o1 \<and>
    (hd argv = kPublisherPath \<and>
       publisher_options_of rate_of zero (tl argv) = \<lparr>po_rate = ms_rate o1, po_payload_size = max 40 (ms_payload_size o1),
         po_streams = ms_streams o1, po_jitter_ms = ms_jitter_ms o1, po_drop_rate = rate_of (print_rate (ms_drop_rate o1)),
         po_reorder_rate = rate_of (print_rate (ms_reorder_rate o1)), po_seed = 42\<rparr> \<or>
     (\<exists>i. int i < ms_subscribers o1 \<and> hd argv = kSubscriberPath \<and>
       subscriber_options_of (tl argv) = \<lparr>so_subscriber_id = int i,
         so_artificial_delay_ms = (if int i < (ms_subscribers o1 * ms_slow_subscriber_ratio o1 + 99) div 100 then 2 else 0),
         so_trace_every = 0, so_summary_file = summary_path self i\<rparr>))"
proof -
  from assms obtain o1 where o1: "read_options (market_sim_option rate_of) (arg_pairs args) (market_sim_defaults zero) = Some o1"
    by (auto simp: run_sim_market_def split: if_splits option.splits)
  note ok = sim_options_in_range(2) [OF o1]
  let ?n = "nat (ms_subscribers o1)"
  obtain r pids es where st: "start_subscribers o1 self forks 0 ?n [] = (r, pids, es)" by (metis prod_cases3)
  have stop: "Forked pid argv \<notin> set (stop_process p)" for p by (simp add: stop_process_def)
  have "argv = kPublisherPath # publisher_args print_rate o1 \<or> Forked pid argv \<in> set es"
    using assms o1 st stop by (auto simp: run_sim_market_def spawn_process_def Let_def split: if_splits)
  then show ?thesis
  proof
    assume "argv = kPublisherPath # publisher_args print_rate o1"
    then show ?thesis using o1 publisher_options_arrive [OF ok, of rate_of zero print_rate] by auto
  next
    assume "Forked pid argv \<in> set es"
    from started_subscribers [OF st this] obtain i where i: "i < ?n" "argv = kSubscriberPath # subscriber_args o1 self i" by auto
    moreover have "i < 2 ^ 31" "int i < ms_subscribers o1" using i(1) ok by (auto simp: market_sim_options_ok_def)
    ultimately show ?thesis using o1 subscriber_options_arrive [of i o1 self] slow_subscribers [OF ok, of i] by auto
  qed
qed

theorem market_launcher_options_witness:
  "\<exists>argv. Forked 100 argv \<in> set (fst (snd (run_sim_market (\<lambda>_. 0 :: nat) (\<lambda>_. ''0'') 0 7 ex_forks (\<lambda>_. None) []))) \<and>
    hd argv = kSubscriberPath \<and> so_artificial_delay_ms (subscriber_options_of (tl argv)) = 0"
proof -
  let ?o = "market_sim_defaults (0 :: nat)"
  let ?argv = "kSubscriberPath # subscriber_args ?o 7 0"
  have one: "nat (ms_subscribers ?o) = Suc 0" by (simp add: market_sim_defaults_def)
  have f: "Forked 100 ?argv \<in> set (fst (snd (run_sim_market (\<lambda>_. 0 :: nat) (\<lambda>_. ''0'') 0 7 ex_forks (\<lambda>_. None) [])))"
    by (simp add: run_sim_market_def one spawn_process_def ex_forks_def Let_def)
  from market_launcher_options [OF f] have "so_artificial_delay_ms (subscriber_options_of (tl ?argv)) = 0"
    by (auto simp: market_sim_defaults_def)
  with f show ?thesis by (intro exI [of _ ?argv]) simp
qed

section \<open>The summaries add up\<close>

lemma no_newline: "\<forall>w \<in> set ws. solid w \<Longrightarrow> CHR 0x0A \<notin> set (join_words ws)"
proof (induction ws rule: join_words.induct)
  case (2 w)
  then show ?case by (auto simp: solid_def is_space_def)
next
  case (3 w v ws)
  then show ?case by (auto simp: solid_def is_space_def)
qed simp

lemma first_line_text: "CHR 0x0A \<notin> set s \<Longrightarrow> first_line (s @ [CHR 0x0A]) = s"
  by (simp add: first_line_def takeWhile_append)

lemma field_word:
  "CHR ''='' \<notin> set k \<Longrightarrow> summary_field (k @ CHR ''='' # v) u =
     (if k = ''id'' then u\<lparr>su_id := atoi v\<rparr> else if k = ''recv_total'' then u\<lparr>su_recv_total := strtoull v\<rparr>
      else if k = ''gaps'' then u\<lparr>su_gaps := strtoull v\<rparr> else if k = ''reorder_events'' then u\<lparr>su_reorder_events := strtoull v\<rparr>
      else if k = ''latency_max_us'' then u\<lparr>su_latency_max := strtoull v\<rparr> else u)"
  by (simp add: summary_field_def split_pair_join)

definition field_keys :: "string list" where
  "field_keys = [''id'', ''recv_total'', ''gaps'', ''reorder_events'', ''max_reorder_depth'', ''latency_p50_us'', ''latency_p99_us'',
     ''latency_p999_us'', ''latency_max_us'']"

lemma summary_words_fields:
  assumes "0 \<le> i"
  shows "summary_words p50 p99 p999 i s = map2 (\<lambda>k v. k @ CHR ''='' # print_nat v) field_keys [nat i, unat (fb_total (sb_feedback s)),
      unat (gaps (sb_feedback s)), unat (reorder_events (sb_feedback s)), unat (max_reorder_depth (sb_feedback s)),
      unat (percentile_us p50 (sb_latency s)), unat (percentile_us p99 (sb_latency s)), unat (percentile_us p999 (sb_latency s)),
      unat (percentile_us (\<lambda>n. n) (sb_latency s))]"
  using assms by (simp add: summary_words_def field_keys_def print_u64_def print_int_def)

lemma field_solid: "k \<in> set field_keys \<Longrightarrow> solid (k @ CHR ''='' # print_nat v)"
proof -
  assume "k \<in> set field_keys"
  then have "\<forall>c \<in> set k. \<not> is_space c" by (auto simp: field_keys_def is_space_def)
  moreover have "\<not> is_space (CHR ''='')" by (simp add: is_space_def)
  ultimately show ?thesis using print_nat_solid [of v] by (auto simp: solid_def)
qed

text \<open>The launcher reads the summary line of a subscriber back.\<close>

lemma read_summary_text:
  assumes "0 \<le> i" and "i < 2 ^ 31"
  shows "read_summary (summary_file_text p50 p99 p999 i s) = \<lparr>su_id = i, su_recv_total = fb_total (sb_feedback s), su_gaps = gaps (sb_feedback s),
    su_reorder_events = reorder_events (sb_feedback s), su_latency_max = percentile_us (\<lambda>n. n) (sb_latency s)\<rparr>"
proof -
  let ?ws = "summary_words p50 p99 p999 i s"
  have solid: "\<forall>w \<in> set ?ws. solid w"
    unfolding summary_words_fields [OF assms(1)] by (auto dest!: set_zip_leftD intro: field_solid)
  have line: "stream_words (first_line (summary_file_text p50 p99 p999 i s)) = ?ws"
    using solid by (simp add: summary_file_text_def first_line_text no_newline stream_words_join)
  have num: "atoi (print_nat (nat i)) = i" "strtoull (print_nat (unat w)) = w" for w
    using atoi_print [of i] strtoull_print [of w] assms by (simp_all add: print_int_def print_u64_def)
  show ?thesis
    unfolding read_summary_def line summary_words_fields [OF assms(1)] field_keys_def
    by (simp add: field_word num del: append_Cons)
qed

lemma totals_of_summaries:
  assumes "\<forall>i < n. files (summary_path self i) = Some (summary_file_text p50 p99 p999 (int i) (subs i))" and "int n \<le> 2 ^ 31"
  defines "t \<equiv> fold (add_summary files) (map (summary_path self) [0..<n]) totals_start"
  shows "mt_sum_recv_total t = (\<Sum>i<n. fb_total (sb_feedback (subs i))) \<and> mt_sum_gaps t = (\<Sum>i<n. gaps (sb_feedback (subs i))) \<and>
    mt_sum_reorder_events t = (\<Sum>i<n. reorder_events (sb_feedback (subs i))) \<and>
    (\<forall>i < n. percentile_us (\<lambda>n. n) (sb_latency (subs i)) \<le> mt_worst_latency_max t) \<and>
    (if n = 0 then mt_worst_latency_max t = 0 else \<exists>i < n. mt_worst_sub_id t = int i \<and> mt_worst_latency_max t = percentile_us (\<lambda>n. n) (sb_latency (subs i)))"
  using assms(1,2) unfolding t_def
proof (induction n)
  case (Suc n)
  let ?t = "fold (add_summary files) (map (summary_path self) [0..<n]) totals_start" and ?l = "percentile_us (\<lambda>n. n) (sb_latency (subs n))"
  have IH: "mt_sum_recv_total ?t = (\<Sum>i<n. fb_total (sb_feedback (subs i)))" "mt_sum_gaps ?t = (\<Sum>i<n. gaps (sb_feedback (subs i)))"
    "mt_sum_reorder_events ?t = (\<Sum>i<n. reorder_events (sb_feedback (subs i)))"
    "\<forall>i < n. percentile_us (\<lambda>n. n) (sb_latency (subs i)) \<le> mt_worst_latency_max ?t"
    "if n = 0 then mt_worst_latency_max ?t = 0 else \<exists>i < n. mt_worst_sub_id ?t = int i \<and> mt_worst_latency_max ?t = percentile_us (\<lambda>n. n) (sb_latency (subs i))"
    using Suc.IH Suc.prems by auto
  have fl: "files (summary_path self n) = Some (summary_file_text p50 p99 p999 (int n) (subs n))" using Suc.prems(1) by simp
  have rd: "read_summary (summary_file_text p50 p99 p999 (int n) (subs n)) = \<lparr>su_id = int n, su_recv_total = fb_total (sb_feedback (subs n)),
      su_gaps = gaps (sb_feedback (subs n)), su_reorder_events = reorder_events (sb_feedback (subs n)), su_latency_max = ?l\<rparr>"
    by (rule read_summary_text) (use Suc.prems(2) in simp_all)
  have step: "fold (add_summary files) (map (summary_path self) [0..<Suc n]) totals_start = add_summary files (summary_path self n) ?t" by simp
  have adds: "mt_sum_recv_total (add_summary files (summary_path self n) ?t) = mt_sum_recv_total ?t + fb_total (sb_feedback (subs n))"
    "mt_sum_gaps (add_summary files (summary_path self n) ?t) = mt_sum_gaps ?t + gaps (sb_feedback (subs n))"
    "mt_sum_reorder_events (add_summary files (summary_path self n) ?t) = mt_sum_reorder_events ?t + reorder_events (sb_feedback (subs n))"
    "mt_worst_latency_max (add_summary files (summary_path self n) ?t) = (if ?l \<ge> mt_worst_latency_max ?t then ?l else mt_worst_latency_max ?t)"
    "mt_worst_sub_id (add_summary files (summary_path self n) ?t) = (if ?l \<ge> mt_worst_latency_max ?t then int n else mt_worst_sub_id ?t)"
    by (simp_all add: add_summary_def fl rd Let_def)
  show ?case
  proof (cases "?l \<ge> mt_worst_latency_max ?t")
    case True
    then have "\<forall>i < Suc n. percentile_us (\<lambda>n. n) (sb_latency (subs i)) \<le> ?l" using IH(4) by (auto simp: less_Suc_eq intro: order_trans)
    then show ?thesis unfolding step adds using IH(1-3) True by (auto intro: exI [of _ n])
  next
    case False
    moreover have "n \<noteq> 0" using False IH(5) by (cases n) simp_all
    moreover have "\<forall>i < Suc n. percentile_us (\<lambda>n. n) (sb_latency (subs i)) \<le> mt_worst_latency_max ?t"
      using IH(4) False by (simp add: less_Suc_eq)
    ultimately show ?thesis unfolding step adds using IH(1-3,5) by (auto intro: less_SucI)
  qed
qed (simp add: totals_start_def)

lemma market_report_totals:
  assumes "read_options (market_sim_option rate_of) (arg_pairs args) (market_sim_defaults zero) = Some o1"
    and "run_sim_market rate_of print_rate zero self forks files args = (0, es, Some t)" and "n = nat (ms_subscribers o1)"
    and "\<forall>i < n. files (summary_path self i) = Some (summary_file_text p50 p99 p999 (int i) (subs i))"
  shows "mt_sum_recv_total t = (\<Sum>i<n. fb_total (sb_feedback (subs i))) \<and> mt_sum_gaps t = (\<Sum>i<n. gaps (sb_feedback (subs i))) \<and>
    mt_sum_reorder_events t = (\<Sum>i<n. reorder_events (sb_feedback (subs i))) \<and>
    (\<forall>i < n. \<forall>l \<in> set (sb_latency (subs i)). l \<le> mt_worst_latency_max t) \<and>
    (\<exists>i < n. mt_worst_sub_id t = int i \<and> mt_worst_latency_max t = (if sb_latency (subs i) = [] then 0 else Max (set (sb_latency (subs i)))))"
proof -
  have ok: "market_sim_options_ok o1" by (rule sim_options_in_range(2) [OF assms(1)])
  then have n: "int n \<le> 2 ^ 31" "n \<noteq> 0" using assms(3) by (auto simp: market_sim_options_ok_def)
  have t: "t = fold (add_summary files) (map (summary_path self) [0..<n]) totals_start"
    using assms(1-3) by (auto simp: run_sim_market_def Let_def split: if_splits prod.splits)
  note r = totals_of_summaries [OF assms(4) n(1), folded t]
  have pm: "percentile_us (\<lambda>n. n) xs = (if xs = [] then 0 else Max (set xs))" for xs
    using percentile_max [of xs] by (auto simp: percentile_us_def)
  have "l \<le> mt_worst_latency_max t" if "i < n" "l \<in> set (sb_latency (subs i))" for i l
  proof -
    have "l \<le> percentile_us (\<lambda>n. n) (sb_latency (subs i))" using that(2) by (auto simp: pm)
    also have "\<dots> \<le> mt_worst_latency_max t" using r that(1) by blast
    finally show ?thesis .
  qed
  then show ?thesis using r n(2) by (simp add: pm)
qed

text \<open>
  \<^bold>\<open>C35\<close>. The final report of the market launcher is true: when every subscriber has written its summary file, the sums are those of
  the subscribers' own counters (modulo \<open>2 ^ 64\<close>), and the worst latency is the largest any of them saw, reported with a
  subscriber that saw it.\<close>

theorem market_report_true:
  assumes "read_options (market_sim_option rate_of) (arg_pairs args) (market_sim_defaults zero) = Some o1"
    and "run_sim_market rate_of print_rate zero self forks files args = (0, es, Some t)" and "n = nat (ms_subscribers o1)"
    and "\<forall>i < n. files (summary_path self i) = Some (summary_file_text p50 p99 p999 (int i) (subs i))"
  shows "mt_sum_recv_total t = (\<Sum>i<n. fb_total (sb_feedback (subs i))) \<and> mt_sum_gaps t = (\<Sum>i<n. gaps (sb_feedback (subs i))) \<and>
    mt_sum_reorder_events t = (\<Sum>i<n. reorder_events (sb_feedback (subs i))) \<and>
    (\<forall>i < n. \<forall>l \<in> set (sb_latency (subs i)). l \<le> mt_worst_latency_max t) \<and>
    (\<exists>i < n. mt_worst_sub_id t = int i \<and> mt_worst_latency_max t = (if sb_latency (subs i) = [] then 0 else Max (set (sb_latency (subs i)))))"
  by (rule market_report_totals [OF assms])

text \<open>A single subscriber that saw two messages.\<close>

definition ex_subscriber :: subscriber where
  "ex_subscriber = ss_sub (sub_start 0 (\<lambda>_. 0))\<lparr>sb_feedback := feedback_default\<lparr>fb_total := 2\<rparr>, sb_latency := [7, 30]\<rparr>"

theorem market_report_true_witness:
  "\<exists>es t. run_sim_market (\<lambda>_. 0 :: nat) (\<lambda>_. ''0'') 0 7 ex_forks (\<lambda>_. Some (summary_file_text id id id 0 ex_subscriber)) [] = (0, es, Some t) \<and>
    mt_sum_recv_total t = 2 \<and> mt_worst_latency_max t = 30 \<and> mt_worst_sub_id t = 0"
proof -
  let ?files = "\<lambda>_ :: string. Some (summary_file_text id id id 0 ex_subscriber)"
  let ?o = "market_sim_defaults (0 :: nat)"
  have rd: "read_options (market_sim_option (\<lambda>_. 0 :: nat)) (arg_pairs []) ?o = Some ?o" by simp
  have one: "nat (ms_subscribers ?o) = Suc 0" by (simp add: market_sim_defaults_def)
  have "\<exists>es t. run_sim_market (\<lambda>_. 0 :: nat) (\<lambda>_. ''0'') 0 7 ex_forks ?files [] = (0, es, Some t)"
    by (simp add: run_sim_market_def one spawn_process_def ex_forks_def Let_def)
  then obtain es t where run: "run_sim_market (\<lambda>_. 0 :: nat) (\<lambda>_. ''0'') 0 7 ex_forks ?files [] = (0, es, Some t)" by blast
  have files: "\<forall>i < Suc 0. ?files (summary_path 7 i) = Some (summary_file_text id id id (int i) ((\<lambda>_. ex_subscriber) i))" by simp
  from market_report_true [OF rd run one [symmetric] files] have
    "mt_sum_recv_total t = 2" "mt_worst_latency_max t = 30" "mt_worst_sub_id t = 0" by (simp_all add: ex_subscriber_def max_def)
  with run show ?thesis by blast
qed

end
