(* ===== verification/Numa_Utils.thy ===== *)
theory Numa_Utils
  imports Usn_Prelude
begin

text \<open>
  NUMA topology and CPU affinity, \<^verbatim>\<open>optimization/numa_utils.hpp\<close>. What libnuma and the kernel answer is an argument; a CPU mask of
  libnuma is the list of its bits, and a \<^verbatim>\<open>cpu_set_t\<close> a set of processors below 1024, to which \<^verbatim>\<open>CPU_SET\<close> adds
  nothing that is out of range.
\<close>

section \<open>Topology\<close>

record numa_lib =
  nl_available :: int
  nl_max_node :: int
  nl_node_to_cpus :: "int \<Rightarrow> int \<times> bool list"
  nl_num_possible_cpus :: int
  nl_node_size :: "int \<Rightarrow> int"
  nl_node_of_cpu :: "int \<Rightarrow> int"

definition bitmask_isbitset :: "bool list \<Rightarrow> int \<Rightarrow> bool" where
  "bitmask_isbitset bs cpu \<longleftrightarrow> 0 \<le> cpu \<and> nat cpu < length bs \<and> bs ! nat cpu"

definition bitmask_weight :: "bool list \<Rightarrow> nat" where
  "bitmask_weight bs = length (filter (\<lambda>x. x) bs)"

text \<open>\<open>num_cpus\<close> is not initialised when the processors of a node cannot be read: then it is \<open>None\<close>.\<close>

record NumaNode =
  nn_id :: int
  nn_num_cpus :: "size_type option"
  nn_cpu_ids :: "int list"
  nn_free_memory :: size_type

record NumaTopology =
  nt_numa_available :: bool
  nt_num_nodes :: int
  nt_max_node :: int
  nt_nodes :: "NumaNode list"

definition NumaTopology_default :: NumaTopology where
  "NumaTopology_default = \<lparr>nt_numa_available = False, nt_num_nodes = 1, nt_max_node = 0, nt_nodes = []\<rparr>"

definition numa_node_info :: "numa_lib \<Rightarrow> int \<Rightarrow> NumaNode" where
  "numa_node_info lib node =
     (let (r, cpus) = nl_node_to_cpus lib node; free = nl_node_size lib node;
          info = \<lparr>nn_id = node, nn_num_cpus = None, nn_cpu_ids = [], nn_free_memory = (if free > 0 then of_int (free div 1024) else 0)\<rparr>
      in if r = 0 then info\<lparr>nn_num_cpus := Some (of_nat (bitmask_weight cpus)),
                            nn_cpu_ids := filter (bitmask_isbitset cpus) [0..nl_num_possible_cpus lib - 1]\<rparr>
         else info)"

definition numa_detect :: "numa_lib \<Rightarrow> NumaTopology \<Rightarrow> bool \<times> NumaTopology" where
  "numa_detect lib t =
     (if nl_available lib < 0 then (False, t\<lparr>nt_numa_available := False\<rparr>)
      else (True, t\<lparr>nt_numa_available := True, nt_max_node := nl_max_node lib, nt_num_nodes := nl_max_node lib + 1,
                    nt_nodes := map (numa_node_info lib) [0..nl_max_node lib]\<rparr>))"

text \<open>The constructor of the only instance detects the topology.\<close>

definition numa_instance :: "numa_lib \<Rightarrow> NumaTopology" where
  "numa_instance lib = snd (numa_detect lib NumaTopology_default)"

definition get_current_node :: "numa_lib \<Rightarrow> int \<Rightarrow> NumaTopology \<Rightarrow> int" where
  "get_current_node lib cpu t = (if \<not> nt_numa_available t then 0 else nl_node_of_cpu lib cpu)"

section \<open>Memory\<close>

datatype numa_call = CallMalloc size_type | CallNumaAlloc size_type int | CallFree ptr | CallNumaFree ptr size_type | CallAffinity "int option" "int set"

definition allocate_on_node :: "size_type \<Rightarrow> int \<Rightarrow> NumaTopology \<Rightarrow> numa_call" where
  "allocate_on_node sz node t = (if \<not> nt_numa_available t then CallMalloc sz else CallNumaAlloc sz node)"

definition free_on_node :: "ptr \<Rightarrow> size_type \<Rightarrow> NumaTopology \<Rightarrow> numa_call" where
  "free_on_node q sz t = (if \<not> nt_numa_available t then CallFree q else CallNumaFree q sz)"

section \<open>Affinity\<close>

definition cpu_set_add :: "int \<Rightarrow> int set \<Rightarrow> int set" where
  "cpu_set_add cpu s = (if 0 \<le> cpu \<and> cpu < 1024 then insert cpu s else s)"

text \<open>
  Calls for the current thread carry \<open>None\<close>, others the handle of the thread. \<open>setaffinity\<close> is the result of \<^verbatim>\<open>pthread_setaffinity_np\<close> for a set.
\<close>

definition set_affinity_mask :: "(int set \<Rightarrow> int) \<Rightarrow> int list \<Rightarrow> bool \<times> numa_call list" where
  "set_affinity_mask setaffinity cpu_ids =
     (let cpuset = fold cpu_set_add cpu_ids {} in (setaffinity cpuset = 0, [CallAffinity None cpuset]))"

definition bind_to_cpu :: "(int set \<Rightarrow> int) \<Rightarrow> int \<Rightarrow> bool \<times> numa_call list" where
  "bind_to_cpu setaffinity cpu_id =
     (let cpuset = cpu_set_add cpu_id {} in (setaffinity cpuset = 0, [CallAffinity None cpuset]))"

definition bind_thread_to_cpu :: "(int set \<Rightarrow> int) \<Rightarrow> int \<Rightarrow> int \<Rightarrow> bool \<times> numa_call list" where
  "bind_thread_to_cpu setaffinity handle cpu_id =
     (let cpuset = cpu_set_add cpu_id {} in (setaffinity cpuset = 0, [CallAffinity (Some handle) cpuset]))"

text \<open>\<^verbatim>\<open>bind_to_numa_node\<close>; \<open>None\<close> is an access to \<^verbatim>\<open>nodes\<close> with a negative index.\<close>

definition bind_to_numa_node :: "(int set \<Rightarrow> int) \<Rightarrow> NumaTopology \<Rightarrow> int \<Rightarrow> (bool \<times> numa_call list) option" where
  "bind_to_numa_node setaffinity t node_id =
     (if \<not> nt_numa_available t \<or> node_id \<ge> nt_num_nodes t then Some (False, [])
      else if node_id < int (length (nt_nodes t)) then
        if node_id < 0 then None
        else if nn_cpu_ids (nt_nodes t ! nat node_id) \<noteq> [] then Some (bind_to_cpu setaffinity (nn_cpu_ids (nt_nodes t ! nat node_id) ! 0))
        else Some (False, [])
      else Some (False, []))"

section \<open>Correctness\<close>

lemma instance_nodes:
  assumes "0 \<le> nl_available lib" and "0 \<le> nl_max_node lib"
  shows "nt_numa_available (numa_instance lib)" "nt_num_nodes (numa_instance lib) = nl_max_node lib + 1"
    "int (length (nt_nodes (numa_instance lib))) = nl_max_node lib + 1"
    "0 \<le> k \<Longrightarrow> k \<le> nl_max_node lib \<Longrightarrow> nt_nodes (numa_instance lib) ! nat k = numa_node_info lib k"
  using assms by (simp_all add: numa_instance_def numa_detect_def nth_upto)

lemma weight_card: "bitmask_weight bs = card {i. i < length bs \<and> bs ! i}"
  by (simp add: bitmask_weight_def length_filter_conv_card)

lemma cpu_ids_spec:
  assumes "nl_node_to_cpus lib k = (0, bs)"
  shows "nn_cpu_ids (numa_node_info lib k) = filter (bitmask_isbitset bs) [0..nl_num_possible_cpus lib - 1]"
    and "length (nn_cpu_ids (numa_node_info lib k)) \<le> bitmask_weight bs"
proof -
  show eq: "nn_cpu_ids (numa_node_info lib k) = filter (bitmask_isbitset bs) [0..nl_num_possible_cpus lib - 1]"
    using assms by (simp add: numa_node_info_def Let_def)
  let ?ids = "filter (bitmask_isbitset bs) [0..nl_num_possible_cpus lib - 1]"
  have "nat ` set ?ids \<subseteq> {i. i < length bs \<and> bs ! i}" by (auto simp: bitmask_isbitset_def)
  then have "card (nat ` set ?ids) \<le> bitmask_weight bs" unfolding weight_card by (intro card_mono) auto
  moreover have "inj_on nat (set ?ids)" by (auto simp: inj_on_def)
  ultimately show "length (nn_cpu_ids (numa_node_info lib k)) \<le> bitmask_weight bs"
    using distinct_card [of ?ids] by (simp add: eq card_image)
qed


text \<open>A machine with two nodes of two processors each.\<close>

definition ex_numa :: numa_lib where
  "ex_numa = \<lparr>nl_available = 0, nl_max_node = 1, nl_node_to_cpus = \<lambda>k. (0, if k = 0 then [True, True, False, False] else [False, False, True, True]),
     nl_num_possible_cpus = 4, nl_node_size = \<lambda>_. 2048, nl_node_of_cpu = \<lambda>c. c div 2\<rparr>"


end
