(* ===== verification/Queue_Bench.thy ===== *)
theory Queue_Bench
  imports Mpsc_Queue "HOL-Library.Multiset"
begin

text \<open>
  The benchmark of the queue, \<^verbatim>\<open>benchmarks/core/mpsc_queue_bench.cpp\<close>, as a client of \<^verbatim>\<open>MpscQueue\<close>: rounds of push and pop by
  one thread, and four producers that push against one consumer. The producers and the consumer are interleaved at every atomic action of
  the queue. Elapsed times are arguments, the printed floating-point numbers are left out.
\<close>

section \<open>One thread\<close>

definition bench_capacity :: size_type where
  "bench_capacity = 1024 * 1024"

lemma bench_capacity_small: "unat bench_capacity \<le> 2 ^ 63"
  by (simp add: bench_capacity_def)

text \<open>The rounds of a loop, with what the two calls of each round return (the source ignores it).\<close>

fun bench_rounds :: "int list \<Rightarrow> int mpsc_queue \<Rightarrow> (bool \<times> int option) list \<times> int mpsc_queue" where
  "bench_rounds [] q = ([], q)"
| "bench_rounds (i # is) q =
     (let (ok, q1) = mpsc_try_push i q; (r, q2) = mpsc_try_pop q1; (rs, q') = bench_rounds is q2 in ((ok, r) # rs, q'))"

definition benchmark_single_threaded :: "(bool \<times> int option) list \<times> int mpsc_queue" where
  "benchmark_single_threaded = bench_rounds [0..9999999] (snd (bench_rounds [0..999] (MpscQueue bench_capacity)))"

lemma bench_rounds_all:
  assumes "mpsc_seq_inv (2 * length is + n) q" and "mpsc_contents q = []" and "0 < unat (mq_capacity q)"
  shows "fst (bench_rounds is q) = map (\<lambda>i. (True, Some i)) is" and "mpsc_seq_inv n (snd (bench_rounds is q))"
    and "mpsc_contents (snd (bench_rounds is q)) = []" and "unat (mq_capacity (snd (bench_rounds is q))) = unat (mq_capacity q)"
proof -
  have "fst (bench_rounds is q) = map (\<lambda>i. (True, Some i)) is \<and> mpsc_seq_inv n (snd (bench_rounds is q)) \<and>
    mpsc_contents (snd (bench_rounds is q)) = [] \<and> unat (mq_capacity (snd (bench_rounds is q))) = unat (mq_capacity q)"
    using assms
  proof (induction "is" arbitrary: q)
    case (Cons i "is")
    obtain ok q1 where p: "mpsc_try_push i q = (ok, q1)" by (cases "mpsc_try_push i q")
    obtain r q2 where o: "mpsc_try_pop q1 = (r, q2)" by (cases "mpsc_try_pop q1")
    have inv: "mpsc_seq_inv (Suc (Suc (2 * length is + n))) q" using Cons.prems(1) by simp
    note p1 = mpsc_push_spec [OF inv p] then have inv1: "mpsc_seq_inv (Suc (2 * length is + n)) q1" by simp
    note p2 = mpsc_pop_spec [OF mpsc_seq_inv_mono [OF inv1] o]
    have 1: "ok" "mpsc_contents q1 = [i]" using p1 Cons.prems(2,3) by (simp_all add: spec_push_def)
    then have 2: "r = Some i" "mpsc_contents q2 = []" "unat (mq_capacity q2) = unat (mq_capacity q)" "mpsc_seq_inv (2 * length is + n) q2"
      using p1 p2 by (simp_all add: spec_pop_def)
    from Cons.IH [OF 2(4,2)] Cons.prems(3) 2(1,3) 1(1) p o show ?case by (simp add: split_beta)
  qed simp
  then show "fst (bench_rounds is q) = map (\<lambda>i. (True, Some i)) is" and "mpsc_seq_inv n (snd (bench_rounds is q))"
    and "mpsc_contents (snd (bench_rounds is q)) = []" and "unat (mq_capacity (snd (bench_rounds is q))) = unat (mq_capacity q)" by simp_all
qed

lemma bench_loops_all:
  assumes "2 * length warmup + 2 * length is < 2 ^ 64"
  shows "fst (bench_rounds is (snd (bench_rounds warmup (MpscQueue bench_capacity)))) = map (\<lambda>i. (True, Some i)) is \<and>
    mpsc_contents (snd (bench_rounds is (snd (bench_rounds warmup (MpscQueue bench_capacity))))) = []"
proof -
  let ?q = "MpscQueue bench_capacity :: int mpsc_queue"
  note c = bench_capacity_small
  obtain k where "unat (round_up_power_of_two bench_capacity) = 2 ^ k" by (rule round_up_is_power [OF c])
  then have pos: "0 < unat (mq_capacity ?q)" by (simp add: MpscQueue_def Let_def)
  note w = bench_rounds_all(2-4) [OF MpscQueue_seq_inv(1) [OF c assms] MpscQueue_seq_inv(2) [OF c, of 0] pos]
  have "mpsc_seq_inv (2 * length is + 0) (snd (bench_rounds warmup ?q))" using w(1) by simp
  from bench_rounds_all [OF this w(2)] pos w(3) show ?thesis by simp
qed

text \<open>Every call of the measured loop succeeds: each pop returns the value just pushed, and the queue ends empty.\<close>

theorem bench_single_all:
  "fst benchmark_single_threaded = map (\<lambda>i. (True, Some i)) [0..9999999] \<and> mpsc_contents (snd benchmark_single_threaded) = []"
  unfolding benchmark_single_threaded_def by (rule bench_loops_all) (simp only: length_upto, simp)

section \<open>Four producers and a consumer\<close>

definition num_producers :: nat where
  "num_producers = 4"

definition items_per_producer :: int where
  "items_per_producer = 1000000"

definition total_items :: int where
  "total_items = int num_producers * items_per_producer"

text \<open>
  The queue with everybody's position in \<^verbatim>\<open>try_push\<close> and \<^verbatim>\<open>try_pop\<close>, how many threads the main thread has started, for every thread its
  loop variable \<^verbatim>\<open>i\<close> and whether it stands before \<^verbatim>\<open>total_pushed.fetch_add\<close>, and the two counters.
\<close>

record bench =
  bn_queue :: "int mpsc_state"
  bn_started :: nat
  bn_i :: "nat \<Rightarrow> int"
  bn_counting :: "nat \<Rightarrow> bool"
  bn_total_pushed :: int
  bn_total_received :: int

definition bench_start :: bench where
  "bench_start = \<lparr>bn_queue = mpsc_init bench_capacity, bn_started = 0, bn_i = (\<lambda>_. 0), bn_counting = (\<lambda>_. False),
     bn_total_pushed = 0, bn_total_received = 0\<rparr>"

text \<open>
  A step of the queue that is one of producer \<open>t\<close>, or one of the consumer: every step of a producer changes its own position,
  every step of the consumer changes the consumer's.
\<close>

definition by_producer :: "nat \<Rightarrow> 'a mpsc_state \<Rightarrow> 'a mpsc_state \<Rightarrow> bool" where
  "by_producer t s s' \<longleftrightarrow> mpsc_step s s' \<and> cons s' = cons s \<and> (\<forall>j. j \<noteq> t \<longrightarrow> prods s' j = prods s j)"

definition by_consumer :: "'a mpsc_state \<Rightarrow> 'a mpsc_state \<Rightarrow> bool" where
  "by_consumer s s' \<longleftrightarrow> mpsc_step s s' \<and> prods s' = prods s"

text \<open>
  The steps of the benchmark: the main thread starts the producers and then consumes until it has received all items. A producer
  calls \<^verbatim>\<open>try_push(i)\<close> until it succeeds, counts, and goes on with the next \<^verbatim>\<open>i\<close>.
\<close>

inductive bench_step :: "bench \<Rightarrow> bench \<Rightarrow> bool" where
  bench_spawn: "bn_started b < num_producers \<Longrightarrow> bench_step b (b\<lparr>bn_started := Suc (bn_started b)\<rparr>)"
| bench_call: "t < bn_started b \<Longrightarrow> prods (bn_queue b) t = PIdle \<Longrightarrow> \<not> bn_counting b t \<Longrightarrow> bn_i b t < items_per_producer \<Longrightarrow>
    s' = (bn_queue b)\<lparr>prods := (prods (bn_queue b))(t := PLoadHead (mq_tail (mq (bn_queue b))) (bn_i b t))\<rparr> \<Longrightarrow>
    bench_step b (b\<lparr>bn_queue := s'\<rparr>)"
| bench_push: "t < bn_started b \<Longrightarrow> prods (bn_queue b) t \<noteq> PIdle \<Longrightarrow> by_producer t (bn_queue b) s' \<Longrightarrow>
    bench_step b (b\<lparr>bn_queue := s', bn_counting := (bn_counting b)(t := (\<exists>p v. prods (bn_queue b) t = PWrite p v))\<rparr>)"
| bench_count: "t < bn_started b \<Longrightarrow> bn_counting b t \<Longrightarrow>
    bench_step b (b\<lparr>bn_counting := (bn_counting b)(t := False), bn_i := (bn_i b)(t := bn_i b t + 1),
      bn_total_pushed := bn_total_pushed b + 1\<rparr>)"
| bench_pop: "bn_started b = num_producers \<Longrightarrow> bn_total_received b < total_items \<Longrightarrow> by_consumer (bn_queue b) s' \<Longrightarrow>
    bench_step b (b\<lparr>bn_queue := s', bn_total_received := bn_total_received b + int (length (popped s') - length (popped (bn_queue b)))\<rparr>)"

text \<open>The end: the consumer has left its loop and all threads can be joined.\<close>

definition bench_done :: "bench \<Rightarrow> bool" where
  "bench_done b \<longleftrightarrow> bn_started b = num_producers \<and> bn_total_received b = total_items \<and>
     (\<forall>t < num_producers. bn_i b t = items_per_producer \<and> \<not> bn_counting b t \<and> prods (bn_queue b) t = PIdle)"

section \<open>The invariant\<close>

text \<open>How many slots producer \<open>t\<close> has claimed.\<close>

definition bn_claimed :: "bench \<Rightarrow> nat \<Rightarrow> int" where
  "bn_claimed b t = bn_i b t + (if bn_counting b t \<or> (\<exists>p v. prods (bn_queue b) t = PWrite p v) then 1 else 0)"

text \<open>Where a producer may stand whose loop variable is \<open>i\<close>; when it is about to count, it is outside of \<^verbatim>\<open>try_push\<close>.\<close>

fun push_ok :: "int \<Rightarrow> bool \<Rightarrow> int prod_pc \<Rightarrow> bool" where
  "push_ok i counting PIdle \<longleftrightarrow> True"
| "push_ok i counting (PLoadHead p v) \<longleftrightarrow> v = i \<and> \<not> counting \<and> i < items_per_producer"
| "push_ok i counting (PCas p v) \<longleftrightarrow> v = i \<and> \<not> counting \<and> i < items_per_producer"
| "push_ok i counting (PWrite p v) \<longleftrightarrow> v = i \<and> \<not> counting"

definition thread_inv :: "bench \<Rightarrow> nat \<Rightarrow> bool" where
  "thread_inv b t \<longleftrightarrow> 0 \<le> bn_i b t \<and> bn_claimed b t \<le> items_per_producer \<and>
     push_ok (bn_i b t) (bn_counting b t) (prods (bn_queue b) t) \<and>
     (bn_started b \<le> t \<longrightarrow> prods (bn_queue b) t = PIdle \<and> bn_i b t = 0 \<and> \<not> bn_counting b t)"

definition bench_inv :: "bench \<Rightarrow> bool" where
  "bench_inv b \<longleftrightarrow> mpsc_reachable bench_capacity (bn_queue b) \<and> bn_started b \<le> num_producers \<and> (\<forall>t. thread_inv b t) \<and>
     mset (claims (bn_queue b)) = (\<Sum>t < num_producers. mset [0..bn_claimed b t - 1]) \<and>
     bn_total_pushed b = (\<Sum>t < num_producers. bn_i b t) \<and> bn_total_received b = int (length (popped (bn_queue b)))"

lemma bench_start_inv: "bench_inv bench_start"
  by (simp add: bench_inv_def bench_start_def thread_inv_def bn_claimed_def mpsc_start items_per_producer_def)
    (simp add: mpsc_init_def)

text \<open>A step of producer \<open>t\<close> inside a call.\<close>

lemma by_producer_cases:
  assumes "by_producer t s s'" and "prods s t \<noteq> PIdle"
  obtains (no_room) p v where "prods s t = PLoadHead p v" "s' = s\<lparr>prods := (prods s)(t := PIdle)\<rparr>"
  | (has_room) p v where "prods s t = PLoadHead p v" "s' = s\<lparr>prods := (prods s)(t := PCas p v)\<rparr>"
  | (claims) p v where "prods s t = PCas p v"
      "s' = s\<lparr>mq := (mq s)\<lparr>mq_tail := p + 1\<rparr>, prods := (prods s)(t := PWrite p v), claims := claims s @ [v]\<rparr>"
  | (lost) p p' v where "prods s t = PCas p v" "s' = s\<lparr>prods := (prods s)(t := PLoadHead p' v)\<rparr>"
  | (writes) p v q' where "prods s t = PWrite p v" "s' = s\<lparr>mq := q', prods := (prods s)(t := PIdle)\<rparr>"
proof -
  have step: "mpsc_step s s'" and cons: "cons s' = cons s" and other: "\<And>j. j \<noteq> t \<Longrightarrow> prods s' j = prods s j"
    using assms(1) by (simp_all add: by_producer_def)
  have mine: "i = t" if "prods s' i \<noteq> prods s i" for i using other that by blast
  from step show thesis
  proof (cases rule: mpsc_step.cases)
    case (push_load_tail i v)
    then show thesis using mine [of i] assms(2) by simp
  next
    case (push_full i p v)
    then show thesis using mine [of i] no_room by simp
  next
    case (push_has_room i p v)
    then show thesis using mine [of i] has_room by simp
  next
    case (push_cas_ok i p v)
    then show thesis using mine [of i] claims by simp
  next
    case (push_cas_fail i p v)
    then show thesis using mine [of i] lost by simp
  next
    case (push_write i p v)
    then show thesis using mine [of i] writes by simp
  qed (use cons in simp_all)
qed

lemma by_consumer_claims: "by_consumer s s' \<Longrightarrow> claims s' = claims s \<and> length (popped s) \<le> length (popped s')"
  unfolding by_consumer_def by (elim conjE, erule mpsc_step.cases) (auto simp: fun_upd_idem_iff)

lemma sum_change:
  fixes f f' :: "nat \<Rightarrow> 'a :: comm_monoid_add"
  assumes "t < n" and "\<forall>j. j \<noteq> t \<longrightarrow> f' j = f j" and "f' t = f t + d"
  shows "(\<Sum>j<n. f' j) = (\<Sum>j<n. f j) + d"
proof -
  have "(\<Sum>j<n. g j) = g t + (\<Sum>j \<in> {..<n} - {t}. g j)" for g :: "nat \<Rightarrow> 'a" using assms(1) by (simp add: sum.remove)
  moreover have "(\<Sum>j \<in> {..<n} - {t}. f' j) = (\<Sum>j \<in> {..<n} - {t}. f j)" using assms(2) by (intro sum.cong) auto
  ultimately show ?thesis using assms(3) by (simp add: ac_simps)
qed

lemma bench_step_inv:
  assumes "bench_step b b'" and "bench_inv b"
  shows "bench_inv b'"
  using assms
proof (induction rule: bench_step.induct)
  case (bench_spawn b)
  have "thread_inv (b\<lparr>bn_started := Suc (bn_started b)\<rparr>) t" if "thread_inv b t" for t
    using that by (simp add: thread_inv_def bn_claimed_def)
  with bench_spawn show ?case by (simp add: bench_inv_def bn_claimed_def)
next
  case (bench_call t b s')
  have step: "mpsc_step (bn_queue b) s'" unfolding bench_call(5) by (rule push_load_tail [OF bench_call(2)])
  have th: "thread_inv (b\<lparr>bn_queue := s'\<rparr>) j" if "thread_inv b j" for j
    using that bench_call(1-5) by (simp add: thread_inv_def bn_claimed_def)
  moreover have "bn_claimed (b\<lparr>bn_queue := s'\<rparr>) = bn_claimed b" using bench_call(2,5) by (auto simp: bn_claimed_def)
  ultimately show ?case using bench_call(5,6) mpsc_next [OF _ step] by (auto simp: bench_inv_def)
next
  case (bench_push t b s')
  let ?b = "b\<lparr>bn_queue := s', bn_counting := (bn_counting b)(t := (\<exists>p v. prods (bn_queue b) t = PWrite p v))\<rparr>"
  have th: "thread_inv b j" for j using bench_push(4) by (simp add: bench_inv_def)
  have reach: "mpsc_reachable bench_capacity s'"
    using bench_push(3,4) mpsc_next by (auto simp: by_producer_def bench_inv_def)
  have t: "t < num_producers" using bench_push(1,4) by (simp add: bench_inv_def)
  from bench_push(3,2) have "thread_inv ?b j \<and> (j \<noteq> t \<longrightarrow> bn_claimed ?b j = bn_claimed b j)" for j
    by (cases rule: by_producer_cases) (use th [of j] bench_push(1) in \<open>auto simp: thread_inv_def bn_claimed_def\<close>)
  moreover from bench_push(3,2) have "popped s' = popped (bn_queue b) \<and>
      (\<exists>d. claims s' = claims (bn_queue b) @ d \<and> mset [0..bn_claimed ?b t - 1] = mset [0..bn_claimed b t - 1] + mset d)"
  proof (cases rule: by_producer_cases)
    case (claims p v)
    then have "bn_claimed ?b t = bn_claimed b t + 1" "v = bn_claimed b t" "0 \<le> bn_claimed b t"
      using th [of t] by (simp_all add: thread_inv_def bn_claimed_def)
    with claims show ?thesis by (simp add: upto_rec2)
  qed (use th [of t] in \<open>simp_all add: thread_inv_def bn_claimed_def\<close>)
  then obtain d where "popped s' = popped (bn_queue b)" "claims s' = claims (bn_queue b) @ d"
    "mset [0..bn_claimed ?b t - 1] = mset [0..bn_claimed b t - 1] + mset d" by blast
  ultimately show ?case
    using bench_push(4) reach sum_change [OF t, of "\<lambda>j. mset [0..bn_claimed ?b j - 1]" "\<lambda>j. mset [0..bn_claimed b j - 1]" "mset d"]
    by (simp add: bench_inv_def)
next
  case (bench_count t b)
  let ?b = "b\<lparr>bn_counting := (bn_counting b)(t := False), bn_i := (bn_i b)(t := bn_i b t + 1), bn_total_pushed := bn_total_pushed b + 1\<rparr>"
  have th: "thread_inv b j" for j using bench_count(3) by (simp add: bench_inv_def)
  have t: "t < num_producers" using bench_count(1,3) by (simp add: bench_inv_def)
  have idle: "prods (bn_queue b) t = PIdle" using th [of t] bench_count(2) by (cases "prods (bn_queue b) t") (simp_all add: thread_inv_def)
  have "bn_claimed ?b = bn_claimed b" using bench_count(2) idle by (auto simp: bn_claimed_def)
  moreover have "thread_inv ?b j" for j
    using th [of j] idle bench_count(1,2) by (cases "j = t") (simp_all add: thread_inv_def bn_claimed_def)
  moreover have "(\<Sum>j<num_producers. bn_i ?b j) = (\<Sum>j<num_producers. bn_i b j) + 1" by (rule sum_change [OF t]) simp_all
  ultimately show ?case using bench_count(3) by (simp add: bench_inv_def)
next
  case (bench_pop b s')
  then have step: "mpsc_step (bn_queue b) s'" "prods s' = prods (bn_queue b)" "claims s' = claims (bn_queue b)"
    "length (popped (bn_queue b)) \<le> length (popped s')" using by_consumer_claims [OF bench_pop(3)] by (auto simp: by_consumer_def)
  then have "bn_claimed (b\<lparr>bn_queue := s', bn_total_received := r\<rparr>) = bn_claimed b"
    "thread_inv (b\<lparr>bn_queue := s', bn_total_received := r\<rparr>) = thread_inv b" for r by (auto simp: bn_claimed_def thread_inv_def)
  with step bench_pop(4) show ?case using mpsc_next [OF _ step(1)] by (simp add: bench_inv_def)
qed

section \<open>What the invariant gives\<close>

lemma size_sum_below: "size (\<Sum>t < n. f t :: 'a multiset) = (\<Sum>t < n :: nat. size (f t))"
  by (induction n) simp_all

lemma bench_claims_length:
  assumes "bench_inv b"
  shows "int (length (claims (bn_queue b))) = (\<Sum>t < num_producers. bn_claimed b t)"
    and "(\<Sum>t < num_producers. bn_claimed b t) \<le> total_items"
proof -
  have th: "0 \<le> bn_claimed b t" "bn_claimed b t \<le> items_per_producer" for t
    using assms by (auto simp: bench_inv_def thread_inv_def bn_claimed_def)
  have "length (claims (bn_queue b)) = size (\<Sum>t < num_producers. mset [0..bn_claimed b t - 1])"
    using assms by (metis bench_inv_def size_mset)
  also have "\<dots> = (\<Sum>t < num_producers. nat (bn_claimed b t))" unfolding size_sum_below by simp
  finally show "int (length (claims (bn_queue b))) = (\<Sum>t < num_producers. bn_claimed b t)" using th(1) by simp
  show "(\<Sum>t < num_producers. bn_claimed b t) \<le> total_items"
    using sum_mono [of "{..<num_producers}" "bn_claimed b" "\<lambda>_. items_per_producer"] th(2) by (simp add: total_items_def)
qed

lemma bench_queue_inv:
  assumes "bench_inv b"
  shows "mpsc_inv (bn_queue b)" and "length (popped (bn_queue b)) \<le> length (claims (bn_queue b))"
proof -
  have "length (claims (bn_queue b)) < 2 ^ 64"
    using bench_claims_length [OF assms] by (simp add: total_items_def num_producers_def items_per_producer_def)
  moreover have "mpsc_reachable bench_capacity (bn_queue b)" using assms by (simp add: bench_inv_def)
  ultimately show inv: "mpsc_inv (bn_queue b)" by (intro mpsc_reachable_inv [OF _ bench_capacity_small])
  show "length (popped (bn_queue b)) \<le> length (claims (bn_queue b))"
    using mpsc_invD(1) [OF inv] by (simp add: shape_inv_def)
qed

section \<open>The benchmark can always go on\<close>

text \<open>The consumer alone: as long as the oldest value has been written, each of its steps brings it nearer to returning that value.\<close>

fun cons_rank :: "'a cons_pc \<Rightarrow> nat" where
  "cons_rank CIdle = 5"
| "cons_rank (CLoadTail h) = 4"
| "cons_rank (CSlot h) = 3"
| "cons_rank (CClear h v) = 2"
| "cons_rank (CStore h v) = 1"

lemma consumer_advance:
  assumes inv: "mpsc_inv s" and "length (popped s) < length (claims s)" and "\<not> writing s (length (popped s))"
  shows "\<exists>s'. by_consumer s s' \<and> (length (popped s') = Suc (length (popped s)) \<or>
    popped s' = popped s \<and> cons_rank (cons s') < cons_rank (cons s))"
proof -
  note sh = mpsc_invD(1) [OF inv] and sl = mpsc_invD(4) [OF inv]
  have lt: "\<not> mq_head (mq s) \<ge> mq_tail (mq s)" using sh assms(2) by (simp add: shape_inv_def word_le_nat_alt)
  have slot: "mq_buffer (mq s) ! slot_of (mq s) (mq_head (mq s)) = Some (claims s ! length (popped s))" if "cons s = CSlot h" for h
    using sl assms(2,3) that sh by (simp add: slots_inv_def slot_of_eq [OF sh] buf_at_def shape_inv_def taken_def)
  show ?thesis
  proof (cases "cons s")
    case CIdle
    from pop_load_head [OF this] CIdle show ?thesis by (auto simp: by_consumer_def intro!: exI [of _ "s\<lparr>cons := CLoadTail (mq_head (mq s))\<rparr>"])
  next
    case (CLoadTail h)
    then have "\<not> h \<ge> mq_tail (mq s)" using mpsc_invD(3) [OF inv] lt by (simp add: cons_inv_def)
    from pop_has_item [OF CLoadTail this] CLoadTail show ?thesis by (auto simp: by_consumer_def intro!: exI [of _ "s\<lparr>cons := CSlot h\<rparr>"])
  next
    case (CSlot h)
    then have "mq_buffer (mq s) ! slot_of (mq s) h = Some (claims s ! length (popped s))"
      using mpsc_invD(3) [OF inv] slot by (simp add: cons_inv_def)
    from pop_take [OF CSlot this] CSlot show ?thesis
      by (auto simp: by_consumer_def intro!: exI [of _ "s\<lparr>cons := CClear h (claims s ! length (popped s))\<rparr>"])
  next
    case (CClear h v)
    from pop_clear [OF this] CClear show ?thesis by (fastforce simp: by_consumer_def)
  next
    case (CStore h v)
    from pop_store_head [OF this] show ?thesis by (fastforce simp: by_consumer_def)
  qed
qed

lemma bench_consume:
  assumes "bench_inv b" and "bn_started b = num_producers" and "bn_total_received b < total_items"
    and "length (popped (bn_queue b)) < length (claims (bn_queue b))" and "\<not> writing (bn_queue b) (length (popped (bn_queue b)))"
  shows "\<exists>b'. bench_step\<^sup>*\<^sup>* b b' \<and> bn_started b' = num_producers \<and> bn_total_received b' = bn_total_received b + 1"
  using assms
proof (induction "cons_rank (cons (bn_queue b))" arbitrary: b rule: less_induct)
  case less
  obtain s' where s': "by_consumer (bn_queue b) s'" and r: "length (popped s') = Suc (length (popped (bn_queue b))) \<or>
    popped s' = popped (bn_queue b) \<and> cons_rank (cons s') < cons_rank (cons (bn_queue b))"
    using consumer_advance [OF bench_queue_inv(1) [OF less.prems(1)] less.prems(4,5)] by blast
  let ?b = "b\<lparr>bn_queue := s', bn_total_received := bn_total_received b + int (length (popped s') - length (popped (bn_queue b)))\<rparr>"
  have step: "bench_step b ?b" by (rule bench_pop [OF less.prems(2,3) s'])
  note inv' = bench_step_inv [OF step less.prems(1)]
  from r show ?case
  proof
    assume "length (popped s') = Suc (length (popped (bn_queue b)))"
    with step less.prems(2) show ?thesis by (intro exI [of _ ?b]) auto
  next
    assume n: "popped s' = popped (bn_queue b) \<and> cons_rank (cons s') < cons_rank (cons (bn_queue b))"
    have "claims s' = claims (bn_queue b)" "prods s' = prods (bn_queue b)"
      using s' by_consumer_claims by (auto simp: by_consumer_def)
    with less.hyps [OF _ inv'] n less.prems obtain b' where "bench_step\<^sup>*\<^sup>* ?b b'" "bn_started b' = num_producers"
      "bn_total_received b' = bn_total_received b + 1" by (auto simp: writing_def)
    with step show ?thesis by (meson converse_rtranclp_into_rtranclp)
  qed
qed

text \<open>A producer that still has to claim a slot: when the queue is empty, each of its steps brings it nearer to a claim.\<close>

fun push_rank :: "size_type \<Rightarrow> bool \<Rightarrow> 'a prod_pc \<Rightarrow> nat" where
  "push_rank tail counting PIdle = (if counting then 5 else 3)"
| "push_rank tail counting (PLoadHead p v) = (if p = tail then 2 else 4)"
| "push_rank tail counting (PCas p v) = (if p = tail then 1 else 3)"
| "push_rank tail counting (PWrite p v) = 0"

definition bench_push_rank :: "bench \<Rightarrow> nat \<Rightarrow> nat" where
  "bench_push_rank b t = push_rank (mq_tail (mq (bn_queue b))) (bn_counting b t) (prods (bn_queue b) t)"

definition bench_idle :: "bench \<Rightarrow> bool" where
  "bench_idle b \<longleftrightarrow> bench_inv b \<and> bn_started b = num_producers \<and> length (popped (bn_queue b)) = length (claims (bn_queue b))"

lemma bench_idle_room:
  assumes "bench_idle b"
  shows "\<not> mq_tail (mq (bn_queue b)) - mq_head (mq (bn_queue b)) \<ge> mq_capacity (mq (bn_queue b))"
    and "prods (bn_queue b) t \<noteq> PWrite p v"
proof -
  note inv = bench_queue_inv(1) [of b] and idle = assms [unfolded bench_idle_def]
  have sh: "shape_inv (bn_queue b)" using inv mpsc_invD(1) idle by blast
  have "unat (mq_tail (mq (bn_queue b))) = unat (mq_head (mq (bn_queue b)))" using sh idle by (simp add: shape_inv_def)
  then have "mq_tail (mq (bn_queue b)) = mq_head (mq (bn_queue b))" by (simp add: word_unat_eq_iff)
  then show "\<not> mq_tail (mq (bn_queue b)) - mq_head (mq (bn_queue b)) \<ge> mq_capacity (mq (bn_queue b))"
    using shape_cap_pos [OF sh] by (simp add: word_le_nat_alt)
  show "prods (bn_queue b) t \<noteq> PWrite p v" using mpsc_invD(2) [OF inv, of t] idle by (auto simp: prod_inv_def)
qed

lemma producer_advance:
  assumes "bench_idle b" and "t < num_producers" and "bn_claimed b t < items_per_producer"
  shows "\<exists>b'. bench_step b b' \<and> bn_started b' = num_producers \<and> bn_total_received b' = bn_total_received b \<and>
    popped (bn_queue b') = popped (bn_queue b) \<and> (length (claims (bn_queue b')) = Suc (length (claims (bn_queue b))) \<or>
      claims (bn_queue b') = claims (bn_queue b) \<and> bn_claimed b' t = bn_claimed b t \<and> bench_push_rank b' t < bench_push_rank b t)"
proof -
  let ?s = "bn_queue b"
  let ?tail = "mq_tail (mq ?s)"
  have idle: "bench_inv b" "bn_started b = num_producers" using assms(1) by (simp_all add: bench_idle_def)
  then have th: "thread_inv b t" and t: "t < bn_started b" using assms(2) by (simp_all add: bench_inv_def)
  note room = bench_idle_room [OF assms(1)]
  have go: ?thesis if "bench_step b b'" "bn_started b' = num_producers" "bn_total_received b' = bn_total_received b" 
    "popped (bn_queue b') = popped ?s" "claims (bn_queue b') = claims ?s" "bn_claimed b' t = bn_claimed b t" "bench_push_rank b' t < bench_push_rank b t" for b'
    using that by (intro exI [of _ b']) simp
  have push: ?thesis if "mpsc_step ?s s'" "prods ?s t \<noteq> PIdle" "cons s' = cons ?s" "\<forall>j. j \<noteq> t \<longrightarrow> prods s' j = prods ?s j" "popped s' = popped ?s"
    "length (claims s') = Suc (length (claims ?s)) \<or> claims s' = claims ?s \<and>
      push_rank (mq_tail (mq s')) False (prods s' t) < bench_push_rank b t \<and> (\<forall>p v. prods s' t \<noteq> PWrite p v)" for s'
    using bench_push [OF t that(2), of s'] that idle(2) th room(2) [of t]
    by (intro exI [of _ "b\<lparr>bn_queue := s', bn_counting := (bn_counting b)(t := (\<exists>p v. prods ?s t = PWrite p v))\<rparr>"])
      (cases "prods ?s t"; auto simp: by_producer_def bench_push_rank_def bn_claimed_def thread_inv_def)
  show ?thesis
  proof (cases "prods ?s t")
    case PIdle
    show ?thesis
    proof (cases "bn_counting b t")
      case True
      with PIdle idle(2) show ?thesis
        by (intro go [OF bench_count [OF t]]) (simp_all add: bn_claimed_def bench_push_rank_def)
    next
      case False
      with assms(3) PIdle have "bn_i b t < items_per_producer" by (simp add: bn_claimed_def)
      with False PIdle idle(2) show ?thesis
        by (intro go [OF bench_call [OF t PIdle False _ refl]]) (simp_all add: bn_claimed_def bench_push_rank_def)
    qed
  next
    case (PLoadHead p v)
    show ?thesis
    proof (cases "p - mq_head (mq ?s) \<ge> mq_capacity (mq ?s)")
      case True
      then have "p \<noteq> ?tail" using room(1) by auto
      then show ?thesis using PLoadHead by (intro push [OF push_full [OF PLoadHead True]]) (simp_all add: bench_push_rank_def)
    next
      case False
      then show ?thesis using PLoadHead by (intro push [OF push_has_room [OF PLoadHead False]]) (simp_all add: bench_push_rank_def)
    qed
  next
    case (PCas p v)
    show ?thesis
    proof (cases "p = ?tail")
      case True
      then show ?thesis using PCas by (intro push [OF push_cas_ok [OF PCas]]) simp_all
    next
      case False
      then show ?thesis using PCas by (intro push [OF push_cas_fail [OF PCas]]) (simp_all add: bench_push_rank_def)
    qed
  next
    case (PWrite p v)
    with room(2) show ?thesis by blast
  qed
qed

lemma bench_claim:
  assumes "bench_idle b" and "t < num_producers" and "bn_claimed b t < items_per_producer"
  shows "\<exists>b'. bench_step\<^sup>*\<^sup>* b b' \<and> bench_inv b' \<and> bn_started b' = num_producers \<and> bn_total_received b' = bn_total_received b \<and>
    length (popped (bn_queue b')) < length (claims (bn_queue b'))"
  using assms
proof (induction "bench_push_rank b t" arbitrary: b rule: less_induct)
  case less
  from producer_advance [OF less.prems] obtain b1 where b1: "bench_step b b1" "bn_started b1 = num_producers"
    "bn_total_received b1 = bn_total_received b" "popped (bn_queue b1) = popped (bn_queue b)"
    and r: "length (claims (bn_queue b1)) = Suc (length (claims (bn_queue b))) \<or> claims (bn_queue b1) = claims (bn_queue b) \<and>
      bn_claimed b1 t = bn_claimed b t \<and> bench_push_rank b1 t < bench_push_rank b t" by blast
  note idle = less.prems(1) [unfolded bench_idle_def]
  have inv: "bench_inv b1" using bench_step_inv [OF b1(1)] idle by blast
  from r show ?case
  proof
    assume "length (claims (bn_queue b1)) = Suc (length (claims (bn_queue b)))"
    with b1 inv idle show ?thesis by (intro exI [of _ b1]) auto
  next
    assume n: "claims (bn_queue b1) = claims (bn_queue b) \<and> bn_claimed b1 t = bn_claimed b t \<and> bench_push_rank b1 t < bench_push_rank b t"
    with b1 inv idle have "bench_idle b1" by (simp add: bench_idle_def)
    with less.hyps [of b1] n less.prems(2,3) b1(1,3) show ?thesis by (metis converse_rtranclp_into_rtranclp)
  qed
qed

lemma bench_receive:
  assumes "bench_inv b" and "bn_started b = num_producers" and "bn_total_received b < total_items"
  shows "\<exists>b'. bench_step\<^sup>*\<^sup>* b b' \<and> bn_started b' = num_producers \<and> bn_total_received b' = bn_total_received b + 1"
proof -
  obtain b1 where b1: "bench_step\<^sup>*\<^sup>* b b1" "bench_inv b1" "bn_started b1 = num_producers" "bn_total_received b1 = bn_total_received b"
    "length (popped (bn_queue b1)) < length (claims (bn_queue b1))"
  proof (cases "length (popped (bn_queue b)) = length (claims (bn_queue b))")
    case True
    have "bn_total_received b = int (length (popped (bn_queue b)))" using assms(1) by (simp add: bench_inv_def)
    then have "(\<Sum>t < num_producers. bn_claimed b t) < total_items"
      using True assms(3) unfolding bench_claims_length(1) [OF assms(1), symmetric] by simp
    moreover have "total_items \<le> (\<Sum>t < num_producers. bn_claimed b t)" if "\<forall>t < num_producers. items_per_producer \<le> bn_claimed b t"
      using sum_mono [of "{..<num_producers}" "\<lambda>_. items_per_producer" "bn_claimed b"] that by (simp add: total_items_def)
    ultimately obtain t where t: "t < num_producers" "bn_claimed b t < items_per_producer" by (meson not_le)
    have "bench_idle b" using True assms by (simp add: bench_idle_def)
    from bench_claim [OF this t] that show thesis by blast
  next
    case False
    with bench_queue_inv(2) [OF assms(1)] assms show thesis by (intro that [of b]) simp_all
  qed
  let ?h = "length (popped (bn_queue b1))"
  obtain b2 where b2: "bench_step\<^sup>*\<^sup>* b1 b2" "bench_inv b2" "bn_started b2 = num_producers" "bn_total_received b2 = bn_total_received b1"
    "length (popped (bn_queue b2)) < length (claims (bn_queue b2))" "\<not> writing (bn_queue b2) (length (popped (bn_queue b2)))"
  proof (cases "writing (bn_queue b1) ?h")
    case True
    then obtain t p v where w: "prods (bn_queue b1) t = PWrite p v" "unat p = ?h" by (auto simp: writing_def)
    let ?s = "bn_queue b1"
    let ?s' = "?s\<lparr>mq := (mq ?s)\<lparr>mq_buffer := (mq_buffer (mq ?s))[slot_of (mq ?s) p := Some v]\<rparr>, prods := (prods ?s)(t := PIdle)\<rparr>"
    let ?b = "b1\<lparr>bn_queue := ?s', bn_counting := (bn_counting b1)(t := (\<exists>p v. prods ?s t = PWrite p v))\<rparr>"
    have "thread_inv b1 t" using b1(2) by (simp add: bench_inv_def)
    then have "t < bn_started b1" using w(1) by (auto simp: thread_inv_def not_less [symmetric])
    then have step: "bench_step b1 ?b" using w(1) push_write [OF w(1)] by (intro bench_push) (auto simp: by_producer_def)
    have alone: "\<And>j p' v'. prods ?s j = PWrite p' v' \<Longrightarrow> p' = p \<Longrightarrow> j = t"
      using mpsc_invD(4) [OF bench_queue_inv(1) [OF b1(2)]] w(1) by (auto simp: slots_inv_def)
    then have "\<not> writing ?s' ?h" using w(2) by (auto simp: writing_def word_unat_eq_iff)
    with step b1(3,5) bench_step_inv [OF step b1(2)] show thesis by (intro that [of ?b]) auto
  next
    case False
    with b1(2-5) that show thesis by blast
  qed
  from bench_consume [OF b2(2,3) _ b2(5,6)] b2(4) b1(4) assms(3) obtain b3 where
    "bench_step\<^sup>*\<^sup>* b2 b3" "bn_started b3 = num_producers" "bn_total_received b3 = bn_total_received b + 1" by auto
  with b1(1) b2(1) show ?thesis by (meson rtranclp_trans)
qed

lemma bench_steps_inv: "bench_step\<^sup>*\<^sup>* b b' \<Longrightarrow> bench_inv b \<Longrightarrow> bench_inv b'"
  by (induction rule: rtranclp_induct) (auto intro: bench_step_inv)

lemma bench_spawn_all: "bn_started b \<le> num_producers \<Longrightarrow> \<exists>b'. bench_step\<^sup>*\<^sup>* b b' \<and> bn_started b' = num_producers"
proof (induction "num_producers - bn_started b" arbitrary: b)
  case (Suc n)
  let ?b = "b\<lparr>bn_started := Suc (bn_started b)\<rparr>"
  have "bench_step b ?b" by (rule bench_spawn) (use Suc in simp)
  moreover have "n = num_producers - bn_started ?b" "bn_started ?b \<le> num_producers" using Suc(2,3) by simp_all
  then obtain b' where "bench_step\<^sup>*\<^sup>* ?b b'" "bn_started b' = num_producers" using Suc(1) by blast
  ultimately show ?case by (meson converse_rtranclp_into_rtranclp)
qed auto

lemma bench_received_bound: "bench_inv b \<Longrightarrow> bn_total_received b \<le> total_items"
  using bench_claims_length [of b] bench_queue_inv(2) [of b] by (simp add: bench_inv_def)

lemma bench_receive_all:
  assumes "bench_inv b" and "bn_started b = num_producers"
  shows "\<exists>b'. bench_step\<^sup>*\<^sup>* b b' \<and> bn_started b' = num_producers \<and> bn_total_received b' = total_items"
  using assms
proof (induction "nat (total_items - bn_total_received b)" arbitrary: b)
  case 0
  then show ?case using bench_received_bound [of b] by (intro exI [of _ b]) simp
next
  case (Suc n)
  then have "bn_total_received b < total_items" by simp
  then obtain b1 where b1: "bench_step\<^sup>*\<^sup>* b b1" "bn_started b1 = num_producers" "bn_total_received b1 = bn_total_received b + 1"
    using bench_receive [OF Suc(3,4)] by blast
  moreover have "n = nat (total_items - bn_total_received b1)" using b1(3) Suc(2) by simp
  ultimately show ?case using Suc(1) [of b1] bench_steps_inv [OF b1(1) Suc(3)] by (meson rtranclp_trans)
qed

text \<open>Once everything has been received, every producer has pushed all of its items and at most has to count the last one.\<close>

lemma bench_all_claimed:
  assumes "bench_inv b" and "bn_total_received b = total_items"
  shows "popped (bn_queue b) = claims (bn_queue b)" and "t < num_producers \<Longrightarrow> bn_claimed b t = items_per_producer"
    and "t < num_producers \<Longrightarrow> prods (bn_queue b) t = PIdle"
proof -
  note inv = bench_queue_inv(1) [OF assms(1)]
  have rec: "int (length (popped (bn_queue b))) = total_items" using assms by (simp add: bench_inv_def)
  have len: "length (popped (bn_queue b)) = length (claims (bn_queue b))"
    using bench_claims_length [OF assms(1)] bench_queue_inv(2) [OF assms(1)] rec by linarith
  then show "popped (bn_queue b) = claims (bn_queue b)" using mpsc_invD(1) [OF inv] by (simp add: shape_inv_def)
  have th: "thread_inv b t" for t using assms(1) by (simp add: bench_inv_def)
  have all: "bn_claimed b t = items_per_producer" if "t < num_producers" for t
  proof (rule ccontr)
    assume "bn_claimed b t \<noteq> items_per_producer"
    then have "bn_claimed b t < items_per_producer" using th [of t] by (simp add: thread_inv_def)
    then have "(\<Sum>t < num_producers. bn_claimed b t) < (\<Sum>t < num_producers. items_per_producer)"
      using that th by (intro sum_strict_mono_ex1) (auto simp: thread_inv_def)
    then show False using bench_claims_length(1) [OF assms(1)] rec len by (simp add: total_items_def)
  qed
  then show "t < num_producers \<Longrightarrow> bn_claimed b t = items_per_producer" .
  have "prods (bn_queue b) t \<noteq> PWrite p v" for p v using mpsc_invD(2) [OF inv, of t] len by (auto simp: prod_inv_def)
  then show "t < num_producers \<Longrightarrow> prods (bn_queue b) t = PIdle"
    using th [of t] all [of t] by (cases "prods (bn_queue b) t") (auto simp: thread_inv_def bn_claimed_def)
qed

lemma bench_count_all:
  assumes "bench_inv b" and "bn_started b = num_producers" and "bn_total_received b = total_items"
  shows "\<exists>b'. bench_step\<^sup>*\<^sup>* b b' \<and> bench_done b'"
  using assms
proof (induction "nat (total_items - bn_total_pushed b)" arbitrary: b rule: less_induct)
  case less
  show ?case
  proof (cases "\<exists>t < num_producers. bn_counting b t")
    case True
    then obtain t where t: "t < bn_started b" "bn_counting b t" using less.prems(2) by auto
    let ?b = "b\<lparr>bn_counting := (bn_counting b)(t := False), bn_i := (bn_i b)(t := bn_i b t + 1), bn_total_pushed := bn_total_pushed b + 1\<rparr>"
    have step: "bench_step b ?b" by (rule bench_count [OF t])
    note inv = bench_step_inv [OF step less.prems(1)]
    then have "bn_total_pushed ?b \<le> (\<Sum>t < num_producers. bn_claimed ?b t)"
      unfolding bench_inv_def by (auto intro!: sum_mono simp: bn_claimed_def)
    then have "nat (total_items - bn_total_pushed ?b) < nat (total_items - bn_total_pushed b)"
      using bench_claims_length(2) [OF inv] by simp
    from less.hyps [OF this inv] less.prems(2,3) obtain b' where "bench_step\<^sup>*\<^sup>* ?b b'" "bench_done b'" by auto
    with step show ?thesis by (meson converse_rtranclp_into_rtranclp)
  next
    case False
    with bench_all_claimed [OF less.prems(1,3)] less.prems(2,3) have "bench_done b" by (auto simp: bench_done_def bn_claimed_def)
    then show ?thesis by blast
  qed
qed

section \<open>The benchmark delivers everything\<close>

text \<open>
  \<^bold>\<open>C5\<close>. The benchmark cannot get stuck: from every state that four producers and the consumer reach, under every interleaving of their
  atomic actions and whatever spurious refusals \<^verbatim>\<open>try_push\<close> gave, all threads can still run to their end. The consumer never counts
  too far, and when it leaves its loop it has received every item of every producer exactly once.\<close>

theorem bench_delivers:
  assumes "bench_step\<^sup>*\<^sup>* bench_start b"
  shows "(\<exists>b'. bench_step\<^sup>*\<^sup>* b b' \<and> bench_done b') \<and> bn_total_received b \<le> total_items \<and>
    (bn_total_received b = total_items \<longrightarrow> mset (popped (bn_queue b)) = (\<Sum>t < num_producers. mset [0..items_per_producer - 1])) \<and>
    (bench_done b \<longrightarrow> bn_total_pushed b = total_items)"
proof -
  have inv: "bench_inv b" by (rule bench_steps_inv [OF assms bench_start_inv])
  then have "bn_started b \<le> num_producers" by (simp add: bench_inv_def)
  then obtain b1 where b1: "bench_step\<^sup>*\<^sup>* b b1" "bn_started b1 = num_producers" using bench_spawn_all by blast
  note inv1 = bench_steps_inv [OF b1(1) inv]
  obtain b2 where b2: "bench_step\<^sup>*\<^sup>* b1 b2" "bn_started b2 = num_producers" "bn_total_received b2 = total_items"
    using bench_receive_all [OF inv1 b1(2)] by blast
  obtain b3 where "bench_step\<^sup>*\<^sup>* b2 b3" "bench_done b3" using bench_count_all [OF bench_steps_inv [OF b2(1) inv1] b2(2,3)] by blast
  with b1(1) b2(1) have "\<exists>b'. bench_step\<^sup>*\<^sup>* b b' \<and> bench_done b'" by (meson rtranclp_trans)
  moreover have "mset (popped (bn_queue b)) = (\<Sum>t < num_producers. mset [0..items_per_producer - 1])" if r: "bn_total_received b = total_items"
    using bench_all_claimed(1,2) [OF inv r] inv by (simp add: bench_inv_def)
  moreover have "bn_total_pushed b = total_items" if "bench_done b"
    using that inv by (simp add: bench_inv_def bench_done_def total_items_def)
  ultimately show ?thesis using bench_received_bound [OF inv] by blast
qed

theorem bench_delivers_witness:
  "\<exists>b'. bench_step\<^sup>*\<^sup>* bench_start b' \<and> bench_done b' \<and> bn_total_pushed b' = 4000000 \<and>
    mset (popped (bn_queue b')) = (\<Sum>t < num_producers. mset [0..items_per_producer - 1])"
proof -
  obtain b' where b': "bench_step\<^sup>*\<^sup>* bench_start b'" "bench_done b'" using bench_delivers [OF rtranclp.rtrancl_refl] by blast
  then have "bn_total_received b' = total_items" by (simp add: bench_done_def)
  with bench_delivers [OF b'(1)] b' have "bn_total_pushed b' = total_items"
    "mset (popped (bn_queue b')) = (\<Sum>t < num_producers. mset [0..items_per_producer - 1])" by blast+
  moreover have "total_items = 4000000" by (simp add: total_items_def num_producers_def items_per_producer_def)
  ultimately show ?thesis using b' by auto
qed

text \<open>
  The printed throughput starts from the quotient \<^verbatim>\<open>total_ops / duration.count()\<close> of two integers (undefined for a duration of zero), which
  is 0 as soon as the run takes longer than 8 milliseconds.\<close>

definition bench_total_ops :: int where
  "bench_total_ops = total_items * 2"

definition bench_quotient :: "int \<Rightarrow> int option" where
  "bench_quotient ns = (if ns = 0 then None else Some (sgn ns * (bench_total_ops div \<bar>ns\<bar>)))"

lemma bench_throughput_zero: "8000000 < ns \<Longrightarrow> bench_quotient ns = Some 0"
  by (simp add: bench_quotient_def bench_total_ops_def total_items_def num_producers_def items_per_producer_def)

end
