(* ===== verification/Reports.thy ===== *)
theory Reports
  imports Launchers Order_Client Order_Gateway Feed_Publisher
begin

text \<open>
  What the applications print about themselves, and the tool that reads it: the metric lines of the four applications, the summary of the
  market launcher and the lines of the tracer are words \<open>key=value\<close> after a tag; \<^verbatim>\<open>benchmarks/run_benchmark_suite.py\<close> finds the last line
  with a tag and collects its values. Printing a \<^verbatim>\<open>double\<close>, the place of a percentile among sorted samples and Python's \<^verbatim>\<open>float\<close> are arguments.
\<close>

section \<open>Printed lines\<close>

type_synonym field = "string \<times> string"

definition field_text :: "field \<Rightarrow> string" where
  "field_text f = fst f @ CHR ''='' # snd f"

definition report_line :: "string \<Rightarrow> field list \<Rightarrow> string" where
  "report_line tag fs = join_words (tag # map field_text fs)"

definition println :: "string \<Rightarrow> string" where
  "println s = s @ [CHR 0x0A]"

text \<open>The tracer prints only the events it samples.\<close>

definition emit :: "string \<Rightarrow> string \<Rightarrow> u64 \<Rightarrow> u64 \<Rightarrow> u64 \<Rightarrow> u64 \<Rightarrow> Tracer \<Rightarrow> string \<times> Tracer" where
  "emit component event packet_id ts_ns queue_depth latency_us t =
     (let (sampled, t) = should_emit t
      in if \<not> sampled then ([], t)
         else (println (report_line ''[trace]''
           [(''component'', component), (''event'', event), (''packet_id'', print_u64 packet_id), (''ts_ns'', print_u64 ts_ns),
            (''queue_depth'', print_u64 queue_depth), (''latency_us'', print_u64 latency_us)]), t))"

text \<open>A metric line is printed when a second has passed since the last one.\<close>

definition report_due :: "int \<Rightarrow> int \<Rightarrow> string \<Rightarrow> string \<times> int" where
  "report_due now last_report line = (if now - last_report \<ge> 1000000000 then (println line, now) else ([], last_report))"

subsection \<open>The order client\<close>

fun state_name :: "ClientState \<Rightarrow> string" where
  "state_name CONNECTING = ''CONNECTING''"
| "state_name ACTIVE = ''ACTIVE''"
| "state_name RETRYING = ''RETRYING''"
| "state_name STOPPED = ''STOPPED''"

definition client_state_line :: "ClientState \<Rightarrow> string" where
  "client_state_line s = ''[order_client][state] '' @ state_name s"

definition client_counters :: "order_client \<Rightarrow> field list" where
  "client_counters c =
     [(''req_sent_total'', print_u64 (oc_req_sent_total c)), (''ack_recv_total'', print_u64 (oc_ack_recv_total c)),
      (''ack_timeout_total'', print_u64 (oc_ack_timeout_total c)), (''reconnect_total'', print_u64 (oc_reconnect_total c)),
      (''send_blocked_total'', print_u64 (oc_send_blocked_total c)), (''retransmit_total'', print_u64 (oc_retransmit_total c)),
      (''retransmit_failed_total'', print_u64 (oc_retransmit_failed_total c)), (''retransmit_drop_total'', print_u64 (oc_retransmit_drop_total c)),
      (''cwnd_blocked_total'', print_u64 (oc_cwnd_blocked_total c)), (''congestion_loss_total'', print_u64 (oc_congestion_loss_total c)),
      (''cwnd_bytes'', print_nat (unat (cwnd_bytes (oc_cc c)))), (''ssthresh_bytes'', print_nat (unat (ssthresh_bytes (oc_cc c)))),
      (''rto_ms'', print_u64 (rto_ms (oc_rto_estimator c))), (''keepalive_sent_total'', print_u64 (oc_keepalive_sent_total c))]"

definition client_percentiles :: "(nat \<Rightarrow> nat) \<Rightarrow> (nat \<Rightarrow> nat) \<Rightarrow> (nat \<Rightarrow> nat) \<Rightarrow> order_client \<Rightarrow> field list" where
  "client_percentiles p50 p99 p999 c =
     [(''rtt_p50_us'', print_u64 (percentile_us p50 (oc_rtt_us_samples c))), (''rtt_p99_us'', print_u64 (percentile_us p99 (oc_rtt_us_samples c))),
      (''rtt_p999_us'', print_u64 (percentile_us p999 (oc_rtt_us_samples c)))]"

definition client_metrics_line :: "(nat \<Rightarrow> nat) \<Rightarrow> (nat \<Rightarrow> nat) \<Rightarrow> (nat \<Rightarrow> nat) \<Rightarrow> order_client \<Rightarrow> string" where
  "client_metrics_line p50 p99 p999 c = report_line ''[order_client][metrics]'' (client_counters c @
     [(''new_total'', print_u64 (oc_new_total c)), (''cancel_total'', print_u64 (oc_cancel_total c)), (''replace_total'', print_u64 (oc_replace_total c))] @
     client_percentiles p50 p99 p999 c @
     [(''rtt_new_p99_us'', print_u64 (percentile_us p99 (oc_rtt_new c))), (''rtt_cancel_p99_us'', print_u64 (percentile_us p99 (oc_rtt_cancel c))),
      (''rtt_replace_p99_us'', print_u64 (percentile_us p99 (oc_rtt_replace c)))])"

definition client_final_line :: "(nat \<Rightarrow> nat) \<Rightarrow> (nat \<Rightarrow> nat) \<Rightarrow> (nat \<Rightarrow> nat) \<Rightarrow> order_client \<Rightarrow> string" where
  "client_final_line p50 p99 p999 c = report_line ''[order_client][final]'' (client_counters c @ client_percentiles p50 p99 p999 c)"

subsection \<open>The other programs\<close>

definition gateway_metrics_line :: "(u64 \<Rightarrow> u64 \<Rightarrow> string) \<Rightarrow> gateway \<Rightarrow> string" where
  "gateway_metrics_line print_ratio g = report_line ''[order_gateway][metrics]''
     [(''req_recv_total'', print_u64 (gw_req_recv_total g)), (''ack_sent_total'', print_u64 (gw_ack_sent_total g)),
      (''active_conn'', print_nat (length (gw_conns g))), (''active_conn_peak'', print_u64 (gw_active_conn_peak g)),
      (''accept_failures'', print_u64 (gw_accept_failures g)), (''unexpected_disconnects'', print_u64 (gw_unexpected_disconnects g)),
      (''reject_total'', print_u64 (gw_reject_total g)),
      (''reject_rate'', if gw_req_recv_total g \<noteq> 0 then print_ratio (gw_reject_total g) (gw_req_recv_total g) else ''0''),
      (''backpressure_hits'', print_u64 (gw_backpressure_hits g)), (''reorder_buffered_total'', print_u64 (gw_reorder_buffered_total g)),
      (''reorder_replayed_bytes'', print_u64 (gw_reorder_replayed_total g)), (''reorder_hole_events'', print_u64 (gw_reorder_hole_events g)),
      (''reorder_hole_peak'', print_u64 (gw_reorder_hole_peak g)), (''reorder_hole_bytes_peak'', print_u64 (gw_reorder_hole_bytes_peak g)),
      (''keepalive_recv_total'', print_u64 (gw_keepalive_recv_total g))]"

definition publisher_metrics_line :: "('d \<Rightarrow> string) \<Rightarrow> int \<Rightarrow> size_type \<Rightarrow> int \<Rightarrow> 'd \<Rightarrow> 'd \<Rightarrow> publisher \<Rightarrow> string" where
  "publisher_metrics_line print_rate rate payload_bytes streams drop_rate reorder_rate p = report_line ''[feed_publisher][metrics]''
     [(''sent_total'', print_u64 (pb_sent_total p)), (''rate'', print_int rate), (''payload_size'', print_u64 payload_bytes),
      (''streams'', print_int streams), (''dropped_total'', print_u64 (pb_dropped_total p)), (''reordered_total'', print_u64 (pb_reordered_total p)),
      (''drop_rate'', print_rate drop_rate), (''reorder_rate'', print_rate reorder_rate)]"

definition subscriber_metrics_line :: "(nat \<Rightarrow> nat) \<Rightarrow> (nat \<Rightarrow> nat) \<Rightarrow> (nat \<Rightarrow> nat) \<Rightarrow> int \<Rightarrow> subscriber \<Rightarrow> string" where
  "subscriber_metrics_line p50 p99 p999 subscriber_id s = join_words (''[feed_subscriber][metrics]'' # summary_words p50 p99 p999 subscriber_id s)"

definition subscriber_final_line :: "(nat \<Rightarrow> nat) \<Rightarrow> (nat \<Rightarrow> nat) \<Rightarrow> (nat \<Rightarrow> nat) \<Rightarrow> int \<Rightarrow> subscriber \<Rightarrow> string" where
  "subscriber_final_line p50 p99 p999 subscriber_id s = join_words (''[feed_subscriber][final]'' # summary_words p50 p99 p999 subscriber_id s)"

definition market_summary_line :: "market_totals \<Rightarrow> string" where
  "market_summary_line t = report_line ''[run_market_sim][summary]''
     [(''total_recv'', print_u64 (mt_sum_recv_total t)), (''total_gaps'', print_u64 (mt_sum_gaps t)),
      (''total_reorder_events'', print_u64 (mt_sum_reorder_events t)), (''worst_latency_max_us'', print_u64 (mt_worst_latency_max t)),
      (''worst_subscriber_id'', print_int (mt_worst_sub_id t))]"

section \<open>The reader\<close>

text \<open>
  Python's strings are lists of characters up to \<open>U+00FF\<close> here. The white space of the pattern \<^verbatim>\<open>\s\<close>, the characters of a key, and the
  line breaks of \<^verbatim>\<open>splitlines\<close>, where a carriage return and a line feed are one break.
\<close>

definition py_space :: "char \<Rightarrow> bool" where
  "py_space c \<longleftrightarrow> (let n = of_char c :: nat in n \<in> {9..13} \<or> n \<in> {28..32} \<or> n = 133 \<or> n = 160)"

definition key_char :: "char \<Rightarrow> bool" where
  "key_char c \<longleftrightarrow> (let n = of_char c :: nat in n \<in> {97..122} \<or> n \<in> {65..90} \<or> n \<in> {48..57} \<or> n = 95)"

definition line_break :: "char \<Rightarrow> bool" where
  "line_break c \<longleftrightarrow> (let n = of_char c :: nat in n \<in> {10..13} \<or> n \<in> {28..30} \<or> n = 133)"

text \<open>\<^verbatim>\<open>KV_PATTERN.findall\<close>: at each position the longest key, an equals sign and the longest run without white space.\<close>

function kv_findall :: "string \<Rightarrow> field list" where
  "kv_findall [] = []"
| "kv_findall (c # s) =
     (let k = takeWhile key_char (c # s); r = dropWhile key_char (c # s); v = takeWhile (\<lambda>c. \<not> py_space c) (tl r) in
      if k \<noteq> [] \<and> r \<noteq> [] \<and> hd r = CHR ''='' \<and> v \<noteq> [] then (k, v) # kv_findall (dropWhile (\<lambda>c. \<not> py_space c) (tl r))
      else kv_findall s)"
  by pat_completeness auto
termination
proof (relation "measure length")
  fix c s k r v
  assume r: "r = dropWhile key_char (c # s)" "k \<noteq> [] \<and> r \<noteq> [] \<and> hd r = CHR ''='' \<and> v \<noteq> []"
  have "length (dropWhile (\<lambda>c. \<not> py_space c) (tl r)) \<le> length (tl r)" by (rule length_dropWhile_le)
  also have "\<dots> < length r" using r(2) by (cases r) simp_all
  also have "\<dots> \<le> length (c # s)" unfolding r(1) by (rule length_dropWhile_le)
  finally show "(dropWhile (\<lambda>c. \<not> py_space c) (tl r), c # s) \<in> measure length" by simp
qed simp_all

declare kv_findall.simps(2) [simp del]

definition parse_keyvals :: "(string \<Rightarrow> 'f option) \<Rightarrow> string \<Rightarrow> string \<rightharpoonup> 'f" where
  "parse_keyvals float_of line =
     fold (\<lambda>(k, v) m. case float_of v of None \<Rightarrow> m | Some x \<Rightarrow> m(k \<mapsto> x)) (kv_findall line) Map.empty"

function split_lines :: "string \<Rightarrow> string \<Rightarrow> string list" where
  "split_lines cur [] = (if cur = [] then [] else [cur])"
| "split_lines cur (c # s) =
     (if line_break c then cur # split_lines [] (if c = CHR 0x0D \<and> s \<noteq> [] \<and> hd s = CHR 0x0A then tl s else s)
      else split_lines (cur @ [c]) s)"
  by pat_completeness auto
termination by (relation "measure (\<lambda>(cur, s). length s)") auto

definition splitlines :: "string \<Rightarrow> string list" where
  "splitlines s = split_lines [] s"

fun contains :: "string \<Rightarrow> string \<Rightarrow> bool" where
  "contains p [] \<longleftrightarrow> p = []"
| "contains p (c # s) \<longleftrightarrow> take (length p) (c # s) = p \<or> contains p s"

definition parse_line_by_prefix :: "(string \<Rightarrow> 'f option) \<Rightarrow> string \<Rightarrow> string \<Rightarrow> string \<rightharpoonup> 'f" where
  "parse_line_by_prefix float_of output pre =
     (let selected = fold (\<lambda>line selected. if contains pre line then line else selected) (splitlines output) []
      in if selected \<noteq> [] then parse_keyvals float_of selected else Map.empty)"

section \<open>Reading a line back\<close>

definition key_ok :: "string \<Rightarrow> bool" where
  "key_ok k \<longleftrightarrow> k \<noteq> [] \<and> list_all key_char k"

definition value_ok :: "string \<Rightarrow> bool" where
  "value_ok v \<longleftrightarrow> v \<noteq> [] \<and> list_all (\<lambda>c. \<not> py_space c) v"

definition tag_ok :: "string \<Rightarrow> bool" where
  "tag_ok w \<longleftrightarrow> w \<noteq> [] \<and> list_all (\<lambda>c. c \<noteq> CHR ''='' \<and> \<not> line_break c) w"

lemma char_classes:
  "\<not> key_char (CHR ''='')" "\<not> key_char (CHR '' '')" "py_space (CHR '' '')" "line_break (CHR 0x0A)" "\<not> line_break (CHR '' '')"
  "\<not> line_break (CHR ''='')" "\<not> py_space (CHR ''-'')"
  by (simp_all add: key_char_def py_space_def line_break_def)

lemma break_space: "line_break c \<Longrightarrow> py_space c"
  by (auto simp: line_break_def py_space_def Let_def)

lemma key_no_break: "key_char c \<Longrightarrow> \<not> line_break c"
  by (auto simp: line_break_def key_char_def Let_def)

lemma digit_no_py_space: "is_digit c \<Longrightarrow> \<not> py_space c"
  by (auto simp: is_digit_def py_space_def Let_def)

lemma print_nat_value_ok: "value_ok (print_nat n)"
  using print_nat_digits [of n] digit_no_py_space by (auto simp: value_ok_def list_all_iff)

lemma print_value_ok [simp]: "value_ok (print_int i)" "value_ok (print_u64 w)"
  using print_nat_value_ok by (auto simp: print_int_def print_u64_def value_ok_def char_classes)

lemma kv_findall_field:
  assumes "key_ok k" and "value_ok v" and "rest = [] \<or> py_space (hd rest)"
  shows "kv_findall (k @ CHR ''='' # v @ rest) = (k, v) # kv_findall rest"
proof -
  obtain c ks where k: "k = c # ks" using assms(1) by (cases k) (auto simp: key_ok_def)
  have t: "takeWhile key_char (k @ CHR ''='' # v @ rest) = k" "dropWhile key_char (k @ CHR ''='' # v @ rest) = CHR ''='' # v @ rest"
    using assms(1) by (simp_all add: key_ok_def list_all_iff takeWhile_append dropWhile_append char_classes)
  have u: "takeWhile (\<lambda>c. \<not> py_space c) (v @ rest) = v" "dropWhile (\<lambda>c. \<not> py_space c) (v @ rest) = rest"
    using assms(2,3) by (cases rest; simp add: value_ok_def list_all_iff takeWhile_append dropWhile_append)+
  show ?thesis
    using t u assms(1,2) unfolding k append_Cons kv_findall.simps(2) Let_def by (simp add: value_ok_def key_ok_def)
qed

lemma kv_findall_skip:
  assumes "CHR ''='' \<notin> set w"
  shows "kv_findall (w @ CHR '' '' # s) = kv_findall s"
  using assms
proof (induction w)
  case Nil
  then show ?case by (simp add: kv_findall.simps(2) char_classes)
next
  case (Cons c w)
  let ?r = "dropWhile key_char (c # w @ CHR '' '' # s)"
  have "?r = dropWhile key_char (c # w) @ CHR '' '' # s" using dropWhile_append3 [of key_char "CHR '' ''" "c # w" s] by (simp add: char_classes)
  moreover have "hd (dropWhile key_char (c # w) @ CHR '' '' # s) \<noteq> CHR ''=''"
    using Cons.prems set_dropWhileD [of _ key_char "c # w"] by (cases "dropWhile key_char (c # w)") (simp, fastforce)
  ultimately have "hd ?r \<noteq> CHR ''=''" by simp
  then show ?case using Cons unfolding append_Cons kv_findall.simps(2) Let_def by auto
qed

lemma kv_findall_fields:
  assumes "\<forall>f \<in> set fs. key_ok (fst f) \<and> value_ok (snd f)"
  shows "kv_findall (join_words (map field_text fs)) = fs"
  using assms
proof (induction fs rule: induct_list012)
  case (2 f)
  then show ?case using kv_findall_field [of "fst f" "snd f" "[]"] by (simp add: field_text_def)
next
  case (3 f g fs)
  let ?s = "join_words (map field_text (g # fs))"
  have "kv_findall (CHR '' '' # ?s) = g # fs" using kv_findall_skip [of "[]" ?s] 3 by simp
  then show ?case using kv_findall_field [of "fst f" "snd f" "CHR '' '' # ?s"] 3(3) by (simp add: field_text_def [of f] char_classes)
qed simp

lemma kv_findall_report:
  assumes "tag_ok tag" and "fs \<noteq> []" and "\<forall>f \<in> set fs. key_ok (fst f) \<and> value_ok (snd f)"
  shows "kv_findall (report_line tag fs) = fs"
proof -
  have "report_line tag fs = tag @ CHR '' '' # join_words (map field_text fs)" using assms(2) by (cases fs) (simp_all add: report_line_def)
  moreover have "CHR ''='' \<notin> set tag" using assms(1) by (auto simp: tag_ok_def list_all_iff)
  ultimately show ?thesis using kv_findall_skip kv_findall_fields [OF assms(3)] by simp
qed

lemma report_no_break:
  assumes "tag_ok tag" and "\<forall>f \<in> set fs. key_ok (fst f) \<and> value_ok (snd f)"
  shows "\<forall>c \<in> set (report_line tag fs). \<not> line_break c"
proof -
  have join: "\<forall>c \<in> set (join_words ws). \<not> line_break c" if "\<forall>w \<in> set ws. \<forall>c \<in> set w. \<not> line_break c" for ws
    using that by (induction ws rule: join_words.induct) (auto simp: char_classes)
  have "\<forall>c \<in> set (field_text f). \<not> line_break c" if "f \<in> set fs" for f
    using assms(2) that by (auto simp: field_text_def key_ok_def value_ok_def list_all_iff char_classes dest: break_space key_no_break)
  then show ?thesis unfolding report_line_def using assms(1) by (intro join) (auto simp: tag_ok_def list_all_iff)
qed

lemma split_lines_before: "\<exists>ls. split_lines cur (x @ CHR 0x0A # y) = ls @ split_lines [] y"
proof (induction x arbitrary: cur rule: length_induct)
  case (1 x)
  show ?case
  proof (cases x)
    case Nil
    then show ?thesis by (simp add: char_classes)
  next
    case (Cons c x')
    consider (break) "line_break c" "\<not> (c = CHR 0x0D \<and> x' @ CHR 0x0A # y \<noteq> [] \<and> hd (x' @ CHR 0x0A # y) = CHR 0x0A)"
      | (pair) "line_break c" "c = CHR 0x0D \<and> hd (x' @ CHR 0x0A # y) = CHR 0x0A" | (char) "\<not> line_break c" by auto
    then show ?thesis
    proof cases
      case break
      moreover obtain ls where "split_lines [] (x' @ CHR 0x0A # y) = ls @ split_lines [] y" using 1 Cons by fastforce
      ultimately show ?thesis using Cons by (intro exI [of _ "cur # ls"]) (simp del: split_lines.simps, subst split_lines.simps(2), auto)
    next
      case pair
      show ?thesis
      proof (cases x')
        case Nil
        with pair Cons show ?thesis by (intro exI [of _ "[cur]"]) simp
      next
        case (Cons d x'')
        with pair \<open>x = c # x'\<close> have "split_lines cur (x @ CHR 0x0A # y) = cur # split_lines [] (x'' @ CHR 0x0A # y)" by simp
        moreover obtain ls where "split_lines [] (x'' @ CHR 0x0A # y) = ls @ split_lines [] y" using 1 Cons \<open>x = c # x'\<close> by fastforce
        ultimately show ?thesis by (intro exI [of _ "cur # ls"]) simp
      qed
    next
      case char
      moreover obtain ls where "split_lines (cur @ [c]) (x' @ CHR 0x0A # y) = ls @ split_lines [] y" using 1 Cons by fastforce
      ultimately show ?thesis using Cons by simp
    qed
  qed
qed

lemma split_lines_line: "\<forall>c \<in> set l. \<not> line_break c \<Longrightarrow> split_lines cur (l @ CHR 0x0A # y) = (cur @ l) # split_lines [] y"
  by (induction l arbitrary: cur) (auto simp: char_classes)

lemma contains_take: "take (length p) s = p \<Longrightarrow> contains p s"
  by (cases s) auto

lemma contains_start: "contains p (p @ s)"
  by (rule contains_take) simp

lemma select_last:
  assumes "contains pre l" and "\<forall>m \<in> set after. \<not> contains pre m"
  shows "fold (\<lambda>line selected. if contains pre line then line else selected) (before @ l # after) [] = l"
proof -
  have "fold (\<lambda>line selected. if contains pre line then line else selected) after s = s" for s
    using assms(2) by (induction after arbitrary: s) auto
  then show ?thesis using assms(1) by simp
qed

lemma dict_fold:
  assumes "distinct (map fst fs)" and "\<forall>f \<in> set fs. float_of (snd f) = Some (g f)"
  shows "fold (\<lambda>(k, v) m. case float_of v of None \<Rightarrow> m | Some x \<Rightarrow> m(k \<mapsto> x)) fs m = m ++ map_of (map (\<lambda>f. (fst f, g f)) fs)"
  using assms
proof (induction fs arbitrary: m)
  case (Cons f fs)
  have "fst f \<notin> dom (map_of (map (\<lambda>f. (fst f, g f)) fs))" using Cons.prems(1) by (auto simp: dom_map_of_conv_image_fst image_iff)
  then have "m(fst f \<mapsto> g f) ++ map_of (map (\<lambda>f. (fst f, g f)) fs) = m ++ map_of (map (\<lambda>f. (fst f, g f)) (f # fs))"
    by (simp add: map_add_upd_left)
  with Cons show ?case by (simp only: fold_Cons o_apply split_beta) (simp del: map_of.simps)
qed simp

text \<open>A report is found among other output, as long as its tag does not appear on a later line, and all of its values are read.\<close>

lemma report_read:
  assumes "tag_ok tag" and "fs \<noteq> []" and "list_all key_ok (map fst fs)" and "\<forall>f \<in> set fs. value_ok (snd f) \<and> float_of (snd f) = Some (g f)"
    and "distinct (map fst fs)" and "\<forall>l \<in> set (splitlines after). \<not> contains tag l"
  shows "parse_line_by_prefix float_of (before @ CHR 0x0A # println (report_line tag fs) @ after) tag = map_of (map (\<lambda>f. (fst f, g f)) fs)"
proof -
  let ?l = "report_line tag fs"
  have ok: "\<forall>f \<in> set fs. key_ok (fst f) \<and> value_ok (snd f)" using assms(3,4) by (simp add: list_all_iff)
  obtain ls where "splitlines (before @ CHR 0x0A # println ?l @ after) = ls @ ?l # splitlines after"
    using split_lines_before [of "[]" before "println ?l @ after"] split_lines_line [OF report_no_break [OF assms(1) ok], of "[]" after]
    by (auto simp: splitlines_def println_def)
  moreover obtain r where "?l = tag @ r" using assms(2) by (cases fs) (simp_all add: report_line_def)
  then have "contains tag ?l" "?l \<noteq> []" using contains_start assms(1) by (auto simp: tag_ok_def)
  ultimately show ?thesis
    using select_last [OF \<open>contains tag ?l\<close> assms(6)] dict_fold [OF assms(5), of float_of g] assms(4)
    by (simp add: parse_line_by_prefix_def parse_keyvals_def kv_findall_report [OF assms(1,2) ok])
qed

definition client_keys :: "string list" where
  "client_keys = [''req_sent_total'', ''ack_recv_total'', ''ack_timeout_total'', ''reconnect_total'', ''send_blocked_total'', ''retransmit_total'',
     ''retransmit_failed_total'', ''retransmit_drop_total'', ''cwnd_blocked_total'', ''congestion_loss_total'', ''cwnd_bytes'', ''ssthresh_bytes'',
     ''rto_ms'', ''keepalive_sent_total'', ''rtt_p50_us'', ''rtt_p99_us'', ''rtt_p999_us'']"

lemma client_keys_ok: "list_all key_ok client_keys" "distinct client_keys"
  by (simp_all add: client_keys_def key_ok_def key_char_def)

lemma client_tag_ok: "tag_ok ''[order_client][final]''"
  by (simp add: tag_ok_def line_break_def)

text \<open>
  \<^bold>\<open>C40\<close>. The benchmark suite reads the final report of the order client: whatever was printed before, and as long as nothing after it has the
  tag, every counter, window, timeout and percentile of the client arrives under its name. Python's \<^verbatim>\<open>float\<close> has to read decimal integers.\<close>

theorem suite_reads_client_report:
  assumes "\<forall>i. float_of (print_int i) = Some (num i)" and "\<forall>l \<in> set (splitlines after). \<not> contains ''[order_client][final]'' l"
  shows "parse_line_by_prefix float_of (before @ CHR 0x0A # println (client_final_line p50 p99 p999 c) @ after) ''[order_client][final]'' =
    map_of [(''req_sent_total'', num (uint (oc_req_sent_total c))), (''ack_recv_total'', num (uint (oc_ack_recv_total c))),
     (''ack_timeout_total'', num (uint (oc_ack_timeout_total c))), (''reconnect_total'', num (uint (oc_reconnect_total c))),
     (''send_blocked_total'', num (uint (oc_send_blocked_total c))), (''retransmit_total'', num (uint (oc_retransmit_total c))),
     (''retransmit_failed_total'', num (uint (oc_retransmit_failed_total c))), (''retransmit_drop_total'', num (uint (oc_retransmit_drop_total c))),
     (''cwnd_blocked_total'', num (uint (oc_cwnd_blocked_total c))), (''congestion_loss_total'', num (uint (oc_congestion_loss_total c))),
     (''cwnd_bytes'', num (uint (cwnd_bytes (oc_cc c)))), (''ssthresh_bytes'', num (uint (ssthresh_bytes (oc_cc c)))),
     (''rto_ms'', num (uint (rto_ms (oc_rto_estimator c)))), (''keepalive_sent_total'', num (uint (oc_keepalive_sent_total c))),
     (''rtt_p50_us'', num (uint (percentile_us p50 (oc_rtt_us_samples c)))), (''rtt_p99_us'', num (uint (percentile_us p99 (oc_rtt_us_samples c)))),
     (''rtt_p999_us'', num (uint (percentile_us p999 (oc_rtt_us_samples c))))]"
proof -
  let ?fs = "client_counters c @ client_percentiles p50 p99 p999 c" and ?g = "\<lambda>f :: field. the (float_of (snd f))"
  have word: "print_u64 w = print_int (uint w)" "print_nat (unat w') = print_int (uint w')" for w and w' :: u32
    by (simp_all add: print_u64_def print_int_def)
  have keys: "map fst ?fs = client_keys" by (simp add: client_counters_def client_percentiles_def client_keys_def)
  have vals: "\<forall>f \<in> set ?fs. \<exists>i. snd f = print_int i" by (simp add: client_counters_def client_percentiles_def word) blast
  have "?fs \<noteq> []" by (simp add: client_counters_def)
  then have "parse_line_by_prefix float_of (before @ CHR 0x0A # println (client_final_line p50 p99 p999 c) @ after) ''[order_client][final]'' =
    map_of (map (\<lambda>f. (fst f, ?g f)) ?fs)"
    unfolding client_final_line_def using client_keys_ok vals assms(1)
    by (intro report_read [OF client_tag_ok _ _ _ _ assms(2)]) (auto simp only: keys print_value_ok option.sel split_paired_all fst_conv snd_conv)
  then show ?thesis using assms(1) by (simp add: client_counters_def client_percentiles_def word)
qed

text \<open>A conversion that reads decimal integers exactly.\<close>

definition ex_float_of :: "string \<Rightarrow> int option" where
  "ex_float_of s = (let (neg, r) = read_sign s in Some (if neg then - int (digits_value r) else int (digits_value r)))"

lemma ex_float_of_print: "\<forall>i. ex_float_of (print_int i) = Some (id i)"
  by (simp add: ex_float_of_def print_int_def)

theorem suite_reads_client_report_witness:
  "\<exists>pool. parse_line_by_prefix ex_float_of ([CHR 0x0A] @ println (client_final_line id id id
      ((client_blank pool 0 (\<lambda>_. 0))\<lparr>oc_req_sent_total := 20, oc_rtt_us_samples := [7, 3]\<rparr>)) @ println (client_state_line STOPPED))
    ''[order_client][final]'' ''req_sent_total'' = Some 20"
proof -
  have lines: "\<forall>l \<in> set (splitlines (println (client_state_line STOPPED))). \<not> contains ''[order_client][final]'' l"
    by (simp add: client_state_line_def println_def splitlines_def line_break_def)
  show ?thesis
    using suite_reads_client_report [OF ex_float_of_print lines, of "[]" id id id
      "(client_blank pool 0 (\<lambda>_. 0))\<lparr>oc_req_sent_total := 20, oc_rtt_us_samples := [7, 3]\<rparr>" for pool]
    by simp
qed

text \<open>What the market launcher prints at its end is read back as well.\<close>

definition market_tail :: "market_totals \<Rightarrow> string" where
  "market_tail t = println (market_summary_line t) @ println ''[run_market_sim] done''"

lemma suite_reads_market_summary:
  assumes "\<forall>i. float_of (print_int i) = Some (num i)"
  shows "parse_line_by_prefix float_of (before @ CHR 0x0A # market_tail t) ''[run_market_sim][summary]'' =
    map_of [(''total_recv'', num (uint (mt_sum_recv_total t))), (''total_gaps'', num (uint (mt_sum_gaps t))),
      (''total_reorder_events'', num (uint (mt_sum_reorder_events t))), (''worst_latency_max_us'', num (uint (mt_worst_latency_max t))),
      (''worst_subscriber_id'', num (mt_worst_sub_id t))]"
proof -
  let ?g = "\<lambda>f :: field. the (float_of (snd f))"
  have word: "print_u64 w = print_int (uint w)" for w by (simp add: print_u64_def print_int_def)
  have tag: "tag_ok ''[run_market_sim][summary]''" by (simp add: tag_ok_def line_break_def)
  have rest: "\<forall>l \<in> set (splitlines (println ''[run_market_sim] done'')). \<not> contains ''[run_market_sim][summary]'' l"
    by (simp add: println_def splitlines_def line_break_def)
  show ?thesis
    unfolding market_tail_def market_summary_line_def word
    by (subst report_read [OF tag _ _ _ _ rest, where g = ?g]) (simp_all add: key_ok_def key_char_def assms)
qed

end
