(* ===== verification/Spec2Isabelle.thy ===== *)
theory Spec2Isabelle
  imports Packet_Ring Mpsc_Queue Zero_Copy Tcp_State_Machine Tcp_Reassembly Tcp_Retransmission Tcp_Congestion
    Io_Status Gateway_Turns Tcp_Socket Market_Feed Order_Session Launchers Numa_Utils Queue_Bench Reports
begin

text \<open>
  \<^bold>\<open>USN\<close>: a user-space network stack in C++20 for a simulated trading system, and its verification.

  The program has four layers. The \<^emph>\<open>core\<close> (\<^verbatim>\<open>include/usn/core\<close>) holds packet descriptors, the
  single-producer single-consumer \<^verbatim>\<open>PacketRing\<close>, the multi-producer \<^verbatim>\<open>MpscQueue\<close> and the block allocator
  \<^verbatim>\<open>MemoryPool\<close>; \<^verbatim>\<open>include/usn/optimization\<close> adds an allocator on mapped memory. The \<^emph>\<open>protocol\<close> layer
  (\<^verbatim>\<open>include/usn/protocol\<close>) builds and parses TCP segments and UDP datagrams in caller-supplied memory, moves
  connections through the TCP state machine, reassembles out-of-order segments, keeps the retransmission
  queue, the round-trip estimator and the congestion window, and counts lost datagrams. The \<^emph>\<open>I/O\<close> layer
  (\<^verbatim>\<open>include/usn/io\<close>) wraps \<^verbatim>\<open>recvmmsg\<close>, \<^verbatim>\<open>epoll\<close>, \<^verbatim>\<open>io_uring\<close> and a busy-polling loop and converts their results to
  one status type. The \<^emph>\<open>applications\<close> (\<^verbatim>\<open>apps\<close>) are an order gateway and client over TCP and a market-data
  publisher and subscriber over UDP.

  \<^bold>\<open>Modelling.\<close> Machine integers are words of their width (\<^verbatim>\<open>std::size_t\<close> is 64 bits), so every wrap-around of the
  source is in the model; milliseconds of the waiting loops are integers, since the source keeps them as \<^verbatim>\<open>int\<close> far
  from its limits. Memory is a function from addresses to bytes, a packet a descriptor that points into it, and
  structs that are copied to the wire have an explicit layout for a little-endian host. Operations are functions
  that take and return the state of their object; undefined behaviour and missing answers of the kernel are
  \<open>None\<close>. Kernel calls, clocks and liburing are arguments: a loop consumes a list of answers, one per round.

  \<^bold>\<open>Theories.\<close>
  \<^item> \<open>Usn_Prelude\<close>: types, byte order, memory, arithmetic shared by all.
  \<^item> \<open>Packet_Core\<close> (\<^verbatim>\<open>core/packet.hpp\<close>), \<open>Ring_Index\<close> (rounding a capacity up to a power of two), \<open>Bounded_Fifo\<close> (the
    contract of a bounded FIFO as a locale, with what its clients get), \<open>Packet_Ring\<close> (\<^verbatim>\<open>core/packet_ring.hpp\<close>) and
    \<open>Mpsc_Queue\<close> (\<^verbatim>\<open>core/mpsc_queue.hpp\<close>), both interpretations of it. The MPSC queue is also cut into its atomic
    actions, and its invariant is proved for every interleaving of any number of producers with the consumer.
    Memory is taken to be sequentially consistent.
  \<^item> \<open>Block_Pool\<close> (the contract of a block allocator as a locale and the free-list chains behind it), \<open>Memory_Pool\<close>
    (\<^verbatim>\<open>core/memory_pool.hpp\<close>) and \<open>Zero_Copy\<close> (\<^verbatim>\<open>optimization/zero_copy.hpp\<close>), which refines it.
  \<^item> \<open>Checksum\<close> (the ones-complement sum that \<^verbatim>\<open>tcp_protocol.hpp\<close> and \<^verbatim>\<open>udp_protocol.hpp\<close> share, and its value modulo
    65535), \<open>Tcp_Protocol\<close> (\<^verbatim>\<open>protocol/tcp_protocol.hpp\<close>: every \<^verbatim>\<open>create_\<close> function, parsing, validation),
    \<open>Tcp_State_Machine\<close> (\<^verbatim>\<open>protocol/tcp_state_machine.hpp\<close>, with the handshake and the teardown carried out over the
    bytes of the segments), \<open>Tcp_Reassembly\<close>, \<open>Tcp_Retransmission\<close>, \<open>Tcp_Congestion\<close>, \<open>Udp_Protocol\<close> and \<open>Udp_Feedback\<close>
    for the headers of the same names.
  \<^item> \<open>Polled_Wait\<close> (the contract of a waiting loop that uses up a budget, as a locale), \<open>Batch_Io\<close>
    (\<^verbatim>\<open>io/batch_io.hpp\<close>) and \<open>Epoll_Wrapper\<close> (\<^verbatim>\<open>io/epoll_wrapper.hpp\<close>), interpretations of it, \<open>Io_Uring\<close>
    (\<^verbatim>\<open>io/io_uring_wrapper.hpp\<close>), \<open>Busy_Poll\<close> (\<^verbatim>\<open>io/busy_poll.hpp\<close>) and \<open>Io_Status\<close> (\<^verbatim>\<open>io/io_status.hpp\<close>,
    \<^verbatim>\<open>io/io_status_types.hpp\<close>).
  \<^item> \<open>App_Messages\<close> (\<^verbatim>\<open>apps/messages.hpp\<close> and \<^verbatim>\<open>core/tracing.hpp\<close>: layout of the messages, sampling of the tracer), \<open>Cxx_Text\<close>
    (number conversions and word splitting of the C and C++ libraries) and \<open>App_Options\<close> (the command lines of the four
    applications).
  \<^item> \<open>Fd_Trace\<close> (the account of descriptors that a trace of system calls opens and closes, with the contract of a
    program that keeps its account as a locale), \<open>Tcp_Socket\<close> and \<open>Udp_Socket\<close> (\<^verbatim>\<open>protocol/tcp_socket.hpp\<close>,
    \<^verbatim>\<open>protocol/udp_socket.hpp\<close>), interpretations of it.
  \<^item> \<open>Order_Gateway\<close> (\<^verbatim>\<open>apps/order_tcp/order_gateway.cpp\<close>: accepting, reading, reassembling, applying and answering
    orders), \<open>Gateway_Stream\<close> (the gateway on one frame of the byte stream of a client), \<open>Gateway_Turns\<close> (its main loop on the byte streams of
    several clients that arrive in any order, a turn reading at most one of them), \<open>Gateway_Loop\<close> (invariants
    of its whole loop, as a locale that is interpreted for the state of the connections and for the well-formedness of its
    data, and what goes wrong when two clients are read in one turn), \<open>Gateway_Setup\<close> (listening socket, epoll instance, options), \<open>Order_Client\<close> (\<^verbatim>\<open>apps/order_tcp/order_client.cpp\<close>), and
    \<open>Order_Session\<close>, where client and gateway exchange the bytes they write.
  \<^item> \<open>Feed_Publisher\<close>, \<open>Feed_Subscriber\<close> (\<^verbatim>\<open>apps/market_udp\<close>) and \<open>Market_Feed\<close>, where the subscriber processes the
    datagrams of the publisher.
  \<^item> \<open>Launchers\<close> (\<^verbatim>\<open>apps/run_sim_order.cpp\<close>, \<^verbatim>\<open>apps/run_sim_market.cpp\<close>: child processes, options handed on, summaries) and
    \<open>Numa_Utils\<close> (\<^verbatim>\<open>optimization/numa_utils.hpp\<close>).
  \<^item> \<open>Queue_Bench\<close> (\<^verbatim>\<open>benchmarks/core/mpsc_queue_bench.cpp\<close>: rounds of one thread, and four producers against a consumer, interleaved at every
    atomic action) and \<open>Reports\<close> (the lines the applications print about themselves, and how \<^verbatim>\<open>benchmarks/run_benchmark_suite.py\<close> reads them). This theory adds what spans the launchers and the programs they start.

  \<^bold>\<open>What is shown.\<close> The queues refine a bounded FIFO list, batches equal single operations, and under concurrency no
  value is lost, duplicated or reordered. The pools hand out distinct, disjoint blocks inside their storage. Segments
  and datagrams parse back to what was written, and writes stay inside their buffer; the checksum detects any
  corrupted word. Connections move along the documented transitions, and handshake and teardown reach the expected
  states on both ends. Reassembly delivers exactly a prefix of the byte stream, the reported holes are the missing
  bytes, the retransmission queue is bounded, the timeout and the congestion window stay in range. Waiting loops
  return within their budget. Where the code does something else than it says, the theorem states what it does:
  the overlap of window and checksum in the TCP header, duplicate completions from io_uring, descriptors that share
  a buffer, and the other deviations listed with the properties.

  The gateway never runs out of blocks nor frees one it does not hold and keeps its data well formed, processes exactly a prefix of the byte stream of each
  client and answers every order once, as long as no two clients are read in one turn and every read returns one frame; the client retransmits only what
  it sent; together they carry out a burst of orders, from the start of both programs and from the command line of the launcher,
  with all orders accepted once and equal books, however late the answers and however often a frame is sent again, as long as each frame is
  read by a read of its own (\<open>coalesced_read_stalls\<close> shows that a frame read together with its retransmission stops the session); after a reconnect they no longer do. Sockets and child processes are all closed and
  waited for. The publisher sends every message it does not drop exactly once, the statistics of the subscriber's packet handler
  and the report of the launcher are true to it, and options reach the applications as they were given. But the subscriber's
  polling loop is cancelled before its first receive, so the market simulation reports that nothing was received.
  The benchmark of the queue cannot get stuck and receives every item once; the benchmark suite reads from the printed reports the counters
  that the applications hold.

  \<^bold>\<open>Bounds.\<close> Positions of the rings are 64-bit counters that the proofs keep from wrapping: the invariants carry the
  number of operations still allowed, and \<open>2 ^ 64\<close> operations are out of reach. The loop of congestion avoidance is a
  partial function, proved to return for every segment size but 0, which no controller has.

  The session of client and gateway is bounded by \<open>2 ^ 20\<close> reads of the client, each after at most one frame, and the streams of several clients by
  \<open>2 ^ 20\<close> turns of the gateway's loop, so that neither a counter of the gateway's ring nor a sequence number wraps.

  \<^bold>\<open>Not modelled.\<close> Sleeping, informational and error messages; arithmetic on \<^verbatim>\<open>double\<close> (drop, reorder and reject
  rates are handed on and printed by an argument, and whether a message is dropped is an argument), so also the throughput that the benchmark of the
  queue computes from its integer quotient; the random generator; the statistics and tables of the Python scripts; the tests,
  which are not part of the program. Memory orderings weaker than sequential consistency are not modelled.

  \<^bold>\<open>Left to do.\<close> A burst over a connection that splits writes or fails them, or whose reads return parts of frames (retransmission after
  such a write is modelled, but in the session theorem every write is whole, every frame is read by itself, and only the answers are late).
\<close>

section \<open>The order simulation\<close>

text \<open>
  \<^bold>\<open>C1\<close>. The whole order simulation works: whatever burst, ratios and other options the command line of the launcher asks for (but for
  a gateway told to drop connections), the gateway and the client that it starts, each configured by the argument vector it
  was started with, carry out a burst of exactly that many orders. Each answer may reach the client after any number of timeouts and
  interrupted reads (\<open>ks\<close> says how many), during which the client may have sent its frame again. The main loop of the gateway, in any
  turns in which this client connects and each of the client's writes is returned by one read of its own, keeps running; every order is
  answered exactly once and accepted, in order, nothing is left to retransmit, and the books agree at the end. This is for a connection
  on which writes are whole, frames are neither joined nor split by the reads, the answers are read one by one, no signal arrives, and there are fewer than
  \<open>2\<^sup>2\<^sup>0\<close> reads; \<^verbatim>\<open>coalesced_read_stalls\<close> shows what happens when a read returns two frames.\<close>

theorem order_simulation_serves:
  assumes "read_options order_sim_option (arg_pairs args) order_sim_defaults = Some o1" and "os_server_drop_at_s o1 = 0"
    and "int (length ks) = os_burst o1" and "sum_list (map Suc ks) < 2 ^ 20"
    and "genv = gateway_configure (gateway_options_of (gateway_args o1)) start_time clock genv0"
    and "env = client_configure (client_options_of (client_args o1)) env0"
    and "mmap 4608 False = Some base" and "0 < base" and "ge_ack genv0 + 24 \<le> base + 36 \<or> base + 80 \<le> ge_ack genv0"
    and "gateway_init mmap gt gm = Some (ring, g)" and "0 \<le> fd" "fd < 65536"
    and "client_init env cbase ct cm = Some c" and "oc_state c = ACTIVE" and "0 < cbase" and "ce_req env0 + 40 \<le> cbase \<or> cbase + 20 \<le> ce_req env0"
    and "\<forall>i. \<not> ce_signal env0 i" and "\<forall>i. ce_write env0 i = Inl 60" and "0 < forks 0" "0 < forks 1" and "''--help'' \<notin> set args"
  shows "Forked (forks 0) (kGatewayPath # gateway_args o1) \<in> set (snd (run_sim_order forks args)) \<and>
    Forked (forks 1) (kClientPath # client_args o1) \<in> set (snd (run_sim_order forks args)) \<and>
    (\<exists>es answers c' ring' g'. oc_trace c' = oc_trace c @ es \<and>
      (\<forall>listen_fd rounds. client_turns listen_fd fd port (written (oc_fd c) es) rounds \<longrightarrow>
         gateway_main genv listen_fd rounds (ring, g) = GwRunning (ring', g')) \<and>
      gw_out g' = map (Wrote fd) answers \<and>
      int (length answers) = os_burst o1 \<and>
      (\<forall>r. delayed ks answers r 0 \<longrightarrow> client_burst (env\<lparr>ce_read := r\<rparr>) (ce_burst env) c = Some c') \<and>
      map oa_client_order_id (acks_in answers) = map (\<lambda>i. 1 + of_nat i) [0..<length answers] \<and> (\<forall>a \<in> set (acks_in answers). oa_accepted a) \<and>
      oc_req_sent_total c' = of_int (os_burst o1) \<and> oc_ack_recv_total c' = of_int (os_burst o1) \<and>
      oc_retrans_q c' = [] \<and> oc_outstanding c' = [] \<and> gw_live g' = fst ` set (oc_shadow c'))"
proof -
  have ok: "order_sim_options_ok o1" by (rule sim_options_in_range(1) [OF assms(1)])
  have g: "ge_ack genv = ge_ack genv0" "\<forall>i. \<not> ge_drop genv i"
    using assms(2,5) gateway_options_arrive [OF ok] by (simp_all add: gateway_configure_def)
  have c: "ce_burst env = length ks" "ce_req env = ce_req env0" "\<forall>i. \<not> ce_signal env i" "\<forall>i. ce_write env i = Inl 60"
    using assms(3,6,17,18) client_options_arrive [OF ok] by (simp_all add: client_configure_def flip: assms(3))
  have started: "Forked (forks 0) (kGatewayPath # gateway_args o1) \<in> set (snd (run_sim_order forks args))"
    "Forked (forks 1) (kClientPath # client_args o1) \<in> set (snd (run_sim_order forks args))"
    using assms(1,19-21) by (simp_all add: run_sim_order_def spawn_process_def Let_def)
  have ga: "ge_ack genv + 24 \<le> base + 36 \<or> base + 80 \<le> ge_ack genv" and ca: "ce_req env + 40 \<le> cbase \<or> cbase + 20 \<le> ce_req env"
    using assms(9,16) g(1) c(2) by simp_all
  from session_from_start [OF assms(7,8) ga assms(10-12) g(2) assms(13-15) ca c(3,4) assms(4), of port] obtain es answers c' ring' g' where
    r: "oc_trace c' = oc_trace c @ es"
      "gw_receive genv fd (written (oc_fd c) es) (ring, gw_on_accept (Accepted fd port True) g) = Some (ring', g')" "gw_out g' = map (Wrote fd) answers"
      "length answers = length ks" "\<forall>r. delayed ks answers r 0 \<longrightarrow> client_burst (env\<lparr>ce_read := r\<rparr>) (length ks) c = Some c'"
      "map oa_client_order_id (acks_in answers) = map (\<lambda>i. 1 + of_nat i) [0..<length ks]" "\<forall>a \<in> set (acks_in answers). oa_accepted a"
      "oc_req_sent_total c' = of_nat (length ks)" "oc_ack_recv_total c' = of_nat (length ks)" "oc_retrans_q c' = []" "oc_outstanding c' = []"
      "gw_live g' = fst ` set (oc_shadow c')"
    by (elim exE conjE)
  have "int (length answers) = os_burst o1" "oc_req_sent_total c' = of_int (os_burst o1)" "oc_ack_recv_total c' = of_int (os_burst o1)"
    "map oa_client_order_id (acks_in answers) = map (\<lambda>i. 1 + of_nat i) [0..<length answers]"
    using r(4,6,8,9) assms(3) by (simp_all flip: assms(3))
  moreover have "\<forall>listen_fd rounds. client_turns listen_fd fd port (written (oc_fd c) es) rounds \<longrightarrow>
      gateway_main genv listen_fd rounds (ring, g) = GwRunning (ring', g')"
    using loop_receives [OF assms(10) _ r(2)] by blast
  ultimately show ?thesis using started r(1,3,5,7,10-12) unfolding c(1) by (intro conjI exI)
qed

theorem order_simulation_serves_witness:
  "\<exists>o1 env ring g c a b d c' ring' g' es. read_options order_sim_option (arg_pairs [''--burst'', ''3'']) order_sim_defaults = Some o1 \<and>
    gateway_init ex_mmap 0 (\<lambda>_. 0) = Some (ring, g) \<and> env = client_configure (client_options_of (client_args o1)) ex_session_env \<and>
    client_init env 65536 0 (\<lambda>_. 0) = Some c \<and> oc_trace c' = oc_trace c @ es \<and>
    gateway_main (gateway_configure (gateway_options_of (gateway_args o1)) 0 (\<lambda>_. 0) ex_env) 3
      (ex_gw_turn [3] (Accepted 5 0 True) (ReadError 11) # map (\<lambda>bs. ex_gw_turn [5] AcceptFailed (ReadBytes bs)) (written (oc_fd c) es))
      (ring, g) = GwRunning (ring', g') \<and> gw_out g' = map (Wrote 5) [a, b, d] \<and>
    client_burst (env\<lparr>ce_read := \<lambda>i. [Inl a, Inr 11, Inr 4, Inl b, Inl d] ! i\<rparr>) (ce_burst env) c = Some c' \<and> oc_ack_recv_total c' = 3"
proof -
  let ?o = "order_sim_defaults\<lparr>os_burst := 3\<rparr>"
  let ?env = "client_configure (client_options_of (client_args ?o)) ex_session_env"
  have rd: "read_options order_sim_option (arg_pairs [''--burst'', ''3'']) order_sim_defaults = Some ?o" by code_simp
  obtain g where g: "gateway_init ex_mmap 0 (\<lambda>_. 0) = Some (PacketRing 64, g)" by (rule ex_start)
  have env: "ce_gateway_ip ?env = ce_gateway_ip ex_client_env" "ce_timeout_ms ?env = ce_timeout_ms ex_client_env"
    using client_options_arrive [OF sim_options_in_range(1) [OF rd]]
    by (simp_all add: client_configure_def ex_client_env_def order_sim_defaults_def)
  then have "\<exists>c. client_init ?env 65536 0 (\<lambda>_. 0) = Some c \<and> oc_state c = ACTIVE"
    using ex_connect [of 0]
    by (auto simp: client_init_def MemoryPool_def connect_to_gateway_def client_blank_def oc_now_def Let_def ex_session_env_def client_configure_def)
  then obtain c where c: "client_init ?env 65536 0 (\<lambda>_. 0) = Some c" "oc_state c = ACTIVE" by blast
  have h: "os_server_drop_at_s ?o = 0" "int (length [0, 2, 0 :: nat]) = os_burst ?o" "sum_list (map Suc [0, 2, 0]) < 2 ^ 20"
    "ex_mmap 4608 False = Some 65536" "(0 :: nat) < 65536"
    "ge_ack ex_env + 24 \<le> 65536 + 36 \<or> 65536 + 80 \<le> ge_ack ex_env" "(0 :: int) \<le> 5" "(5 :: int) < 65536"
    "ce_req ex_session_env + 40 \<le> 65536 \<or> 65536 + 20 \<le> ce_req ex_session_env"
    "\<forall>i. \<not> ce_signal ex_session_env i" "\<forall>i. ce_write ex_session_env i = Inl 60" "0 < ex_forks 0" "0 < ex_forks 1"
    "''--help'' \<notin> set [''--burst'', ''3'']"
    by (simp_all add: order_sim_defaults_def ex_mmap_def ex_env_def ex_session_env_def ex_client_env_def ex_forks_def)
  from order_simulation_serves [where start_time = 0 and clock = "\<lambda>_. 0" and port = 0, OF rd h(1-3) refl refl h(4-6) g h(7,8) c h(5,9-14)] obtain es answers c' ring' g' where
    r: "oc_trace c' = oc_trace c @ es"
      "\<forall>listen_fd rounds. client_turns listen_fd 5 0 (written (oc_fd c) es) rounds \<longrightarrow>
        gateway_main (gateway_configure (gateway_options_of (gateway_args ?o)) 0 (\<lambda>_. 0) ex_env) listen_fd rounds (PacketRing 64, g) =
          GwRunning (ring', g')" "gw_out g' = map (Wrote 5) answers"
      "int (length answers) = os_burst ?o"
      "\<forall>r. delayed [0, 2, 0] answers r 0 \<longrightarrow> client_burst (?env\<lparr>ce_read := r\<rparr>) (ce_burst ?env) c = Some c'"
      "oc_ack_recv_total c' = of_int (os_burst ?o)" by (elim exE conjE)
  obtain a b d where abd: "answers = [a, b, d]" using r(4) by (auto simp: length_Suc_conv numeral_3_eq_3)
  have "client_burst (?env\<lparr>ce_read := \<lambda>i. [Inl a, Inr 11, Inr 4, Inl b, Inl d] ! i\<rparr>) (ce_burst ?env) c = Some c'"
    by (rule r(5) [rule_format]) (simp add: abd numeral_2_eq_2 less_Suc_eq)
  moreover have "client_turns 3 5 0 frames (ex_gw_turn [3] (Accepted 5 0 True) (ReadError 11) # map (\<lambda>bs. ex_gw_turn [5] AcceptFailed (ReadBytes bs)) frames)" for frames
    by (simp add: turn_accepts_def turn_reads_def ex_gw_turn_fds list_all2_map1 list_all2_same) (simp add: ex_gw_turn_def)
  note run = r(2) [rule_format, OF this]
  ultimately show ?thesis using rd g c(1) r(1,3,6) abd run by (intro exI conjI) simp_all
qed

section \<open>The market simulation\<close>

lemma pub_kept_all: "\<forall>turn \<in> set turns. \<not> pt_drop turn \<Longrightarrow> length (pub_kept env turns sq) = length turns"
  by (induction turns arbitrary: sq) auto

lemma published_all:
  assumes "publisher_init base payload_size fd flags m = Some p" and "pe_payload_bytes env = pub_payload_bytes payload_size"
    and "pub_env_ok env addr" and "0 < base" and "pe_payload env + unat (pe_payload_bytes env) \<le> base \<or> base + 8 \<le> pe_payload env"
    and "\<forall>i < length turns. full_send env i" and "turns \<noteq> []" and "\<forall>turn \<in> set turns. \<not> pt_drop turn"
  shows "\<exists>p'. publisher_main env turns p = PubRunning p' \<and> pb_sent_total p' = of_nat (length turns - 1)"
proof -
  obtain p' sent where r: "publisher_main env turns p = PubRunning p'" "mset sent + mset (pb_reorder_q p') = mset (pub_kept env turns 1)"
    "length (pb_reorder_q p') \<le> 1" "pb_reorder_q p' = [] \<longleftrightarrow> pub_kept env turns 1 = []" "pb_sent_total p' = of_nat (length sent)"
    using publisher_keeps_schedule [OF assms(1-6)] by blast
  have "length sent + length (pb_reorder_q p') = length turns"
    using arg_cong [OF r(2), of size] pub_kept_all [OF assms(8), of env 1] by simp
  moreover have "pub_kept env turns 1 \<noteq> []" using pub_kept_all [OF assms(8), of env 1] assms(7) by auto
  ultimately have "length sent = length turns - 1" using r(3,4) by (cases "pb_reorder_q p'") auto
  with r(1,5) show ?thesis by simp
qed

text \<open>
  \<^bold>\<open>C38\<close>. The market simulation reports that nothing arrives: whatever the command line of the launcher, when the publisher it starts sends
  all of its messages (but for the one held back) and every subscriber runs to its end and writes its summary, the report still
  says that no message was received, none was missing, and no latency was measured, and this is what the benchmark suite reads from its
  output. Each subscriber's polling loop is cancelled before its first receive.\<close>

theorem market_simulation_blind:
  assumes "read_options (market_sim_option rate_of) (arg_pairs args) (market_sim_defaults zero) = Some o1"
    and "run_sim_market rate_of print_rate zero self forks files args = (0, es, Some t)" and "n = nat (ms_subscribers o1)"
    and "\<forall>i < n. \<exists>turn turn' rest. runs i = turn # turn' # rest \<and> (\<not> st_flag turn \<longrightarrow> \<not> st_running turn)"
    and "\<forall>i < n. subscriber_main bufs clock (so_trace_every (subscriber_options_of (subscriber_args o1 self i))) start_time (runs i) sm = Some (results i, finals i)"
    and "\<forall>i < n. files (summary_path self i) = Some (summary_file_text p50 p99 p999 (int i) (ss_sub (finals i)))"
    and "payload_size = po_payload_size (publisher_options_of rate_of zero (publisher_args print_rate o1))"
    and "publisher_init base payload_size fd flags m = Some p" and "pe_payload_bytes env = pub_payload_bytes payload_size"
    and "pub_env_ok env addr" and "0 < base" and "pe_payload env + unat (pe_payload_bytes env) \<le> base \<or> base + 8 \<le> pe_payload env"
    and "\<forall>i < length turns. full_send env i" and "turns \<noteq> []" and "\<forall>turn \<in> set turns. \<not> pt_drop turn"
    and "\<forall>i. float_of (print_int i) = Some (num i)"
  shows "mt_sum_recv_total t = 0 \<and> mt_sum_gaps t = 0 \<and> mt_sum_reorder_events t = 0 \<and> mt_worst_latency_max t = 0 \<and>
    parse_line_by_prefix float_of (out @ CHR 0x0A # market_tail t) ''[run_market_sim][summary]'' ''total_recv'' = Some (num 0) \<and>
    (\<exists>p'. publisher_main env turns p = PubRunning p' \<and> pb_sent_total p' = of_nat (length turns - 1))"
proof -
  have fresh: "sb_feedback (ss_sub (finals i)) = feedback_default \<and> sb_latency (ss_sub (finals i)) = []" if i: "i < n" for i
  proof -
    obtain turn turn' rest where t: "runs i = turn # turn' # rest" "\<not> st_flag turn \<longrightarrow> \<not> st_running turn" using assms(4) i by blast
    let ?trace = "so_trace_every (subscriber_options_of (subscriber_args o1 self i))"
    have "\<exists>r. subscriber_main bufs clock ?trace start_time (runs i) sm = Some (r, sub_start ?trace sm)"
      using subscriber_never_receives [OF t(2), of bufs clock ?trace start_time turn' rest sm] unfolding t(1) by blast
    then have "finals i = sub_start ?trace sm" using assms(5) i by auto
    then show ?thesis by (simp add: sub_start_def)
  qed
  note totals = market_report_totals [OF assms(1-3,6)]
  have "mt_sum_recv_total t = (\<Sum>i<n. 0)" "mt_sum_gaps t = (\<Sum>i<n. 0)" "mt_sum_reorder_events t = (\<Sum>i<n. 0)"
    using totals fresh by (simp_all add: feedback_default_def cong: sum.cong_simp)
  moreover have "mt_worst_latency_max t = 0" using totals fresh by auto
  ultimately show ?thesis using published_all [OF assms(8-15)] suite_reads_market_summary [OF assms(16), of out t] by simp
qed

theorem market_simulation_blind_witness:
  "\<exists>es t p p'. run_sim_market (\<lambda>_. 0 :: nat) (\<lambda>_. ''0'') 0 7 ex_forks (\<lambda>_. Some (summary_file_text id id id 0 (ss_sub (sub_start 0 (\<lambda>_. 0))))) [] = (0, es, Some t) \<and>
    mt_sum_recv_total t = 0 \<and> parse_line_by_prefix ex_float_of (CHR 0x0A # market_tail t) ''[run_market_sim][summary]'' ''total_recv'' = Some 0 \<and>
    publisher_init 65536 40 3 2 (\<lambda>_. 0) = Some p \<and>
    publisher_main (ex_pub_env (\<lambda>_. 48)) [ex_turn False False, ex_turn False False] p = PubRunning p' \<and> pb_sent_total p' = 1"
proof -
  let ?files = "\<lambda>_ :: string. Some (summary_file_text id id id 0 (ss_sub (sub_start 0 (\<lambda>_. 0))))"
  let ?o = "market_sim_defaults (0 :: nat)" and ?env = "ex_pub_env (\<lambda>_. 48)" and ?turns = "[ex_turn False False, ex_turn False False]"
  have rd: "read_options (market_sim_option (\<lambda>_. 0 :: nat)) (arg_pairs []) ?o = Some ?o" by simp
  have one: "Suc 0 = nat (ms_subscribers ?o)" by (simp add: market_sim_defaults_def)
  have "\<exists>es t. run_sim_market (\<lambda>_. 0 :: nat) (\<lambda>_. ''0'') 0 7 ex_forks ?files [] = (0, es, Some t)"
    by (simp add: run_sim_market_def one [symmetric] spawn_process_def ex_forks_def Let_def)
  then obtain es t where run: "run_sim_market (\<lambda>_. 0 :: nat) (\<lambda>_. ''0'') 0 7 ex_forks ?files [] = (0, es, Some t)" by blast
  have trace: "so_trace_every (subscriber_options_of (subscriber_args ?o 7 0)) = 0" by (simp add: subscriber_options_arrive)
  obtain r where r: "subscriber_main (\<lambda>i. 65536 * (i + 1)) (\<lambda>_. 0) 0 0 [ex_sub_turn, ex_sub_turn] (\<lambda>_. 0) = Some (r, sub_start 0 (\<lambda>_. 0))"
    using subscriber_never_receives [of ex_sub_turn "\<lambda>i. 65536 * (i + 1)" "\<lambda>_. 0" 0 0 ex_sub_turn "[]" "\<lambda>_. 0"] by (auto simp: ex_sub_turn_def)
  obtain p where p: "publisher_init 65536 40 3 2 (\<lambda>_. 0) = Some p"
    by (simp add: publisher_init_def udp_create_def MemoryPool_def Let_def)
  have h: "\<forall>i < Suc 0. \<exists>turn turn' rest. [ex_sub_turn, ex_sub_turn] = turn # turn' # rest \<and> (\<not> st_flag turn \<longrightarrow> \<not> st_running turn)"
    "\<forall>i < Suc 0. subscriber_main (\<lambda>i. 65536 * (i + 1)) (\<lambda>_. 0) (so_trace_every (subscriber_options_of (subscriber_args ?o 7 i))) 0 [ex_sub_turn, ex_sub_turn] (\<lambda>_. 0) =
      Some (r, sub_start 0 (\<lambda>_. 0))"
    "\<forall>i < Suc 0. ?files (summary_path 7 i) = Some (summary_file_text id id id (int i) (ss_sub (sub_start 0 (\<lambda>_. 0))))"
    using r trace by (simp_all add: ex_sub_turn_def)
  have size: "40 = po_payload_size (publisher_options_of (\<lambda>_. 0 :: nat) 0 (publisher_args (\<lambda>_. ''0'') ?o))"
    by (subst publisher_options_arrive [OF sim_options_in_range(2) [OF rd]]) (simp add: market_sim_defaults_def)
  have q: "pe_payload_bytes ?env = pub_payload_bytes 40" "\<forall>i < length ?turns. full_send ?env i" "?turns \<noteq> []" "\<forall>turn \<in> set ?turns. \<not> pt_drop turn"
    by (simp_all add: ex_pub_env_def pub_payload_bytes_def full_send_def ex_turn_def)
  from market_simulation_blind [OF rd run one h(1-3) size p q(1) ex_pub(1,3,4) q(2-4) ex_float_of_print, of "[]"] obtain p' where
    "mt_sum_recv_total t = 0" "parse_line_by_prefix ex_float_of (CHR 0x0A # market_tail t) ''[run_market_sim][summary]'' ''total_recv'' = Some 0" "publisher_main ?env ?turns p = PubRunning p'" "pb_sent_total p' = of_nat (length ?turns - 1)" by (elim exE conjE) simp
  with run p show ?thesis by (intro exI conjI) simp_all
qed

end
